(* ===== verification/Prelude.thy ===== *)
theory Prelude
  imports Main "HOL-Library.Word" "HOL-Library.Multiset"
begin

text \<open>
  Shared vocabulary of the GeeCache development: the types that name Go's
  \<open>byte\<close>, \<open>[]byte\<close> and list-element addresses, the conversions Go performs
  between \<open>string\<close> and \<open>[]byte\<close>, and the generic list facts that the
  component theories share (moving an element to the front of a list is a
  permutation; what a permutation keeps).
\<close>

named_theorems perm_facts \<open>facts about lists that are permutations of each other\<close>

section \<open>Types of the model\<close>

type_synonym byte = "8 word"
type_synonym bytes = "byte list"

text \<open>
  The address of a \<open>container/list\<close> element (Go's \<open>*list.Element\<close>): elements
  are allocated with fresh addresses and live in an explicit store.
\<close>

type_synonym elem = nat

text \<open>
  A Go \<open>string\<close> is a sequence of bytes; Isabelle's \<open>char\<close> is a byte too, so
  \<open>len(s)\<close> is \<open>length s\<close>. The conversions \<open>[]byte(s)\<close> and \<open>string(b)\<close>
  copy the bytes one for one.
\<close>

definition bytes_of_string :: "string \<Rightarrow> bytes" where
  "bytes_of_string s = map (\<lambda>c. of_nat (of_char c)) s"

definition string_of_bytes :: "bytes \<Rightarrow> string" where
  "string_of_bytes bs = map (\<lambda>w. char_of (unat w)) bs"

section \<open>Conversions between strings and bytes\<close>

lemma length_bytes_of_string [simp]: "length (bytes_of_string s) = length s"
  by (simp add: bytes_of_string_def)

lemma length_string_of_bytes [simp]: "length (string_of_bytes bs) = length bs"
  by (simp add: string_of_bytes_def)

lemma char_of_unat_of_char: "char_of (unat (of_nat (of_char c) :: byte)) = c"
proof -
  have "unat (of_nat (of_char c) :: byte) = of_char c"
    by (simp add: unat_of_nat)
  then show ?thesis by simp
qed

lemma of_char_char_of_unat: "(of_nat (of_char (char_of (unat w))) :: byte) = w"
proof -
  have "unat w < 256" using unsigned_less [of w] by simp
  then have "of_char (char_of (unat w)) = unat w"
    by (simp add: of_char_of)
  then show ?thesis by simp
qed

lemma string_of_bytes_of_string [simp]: "string_of_bytes (bytes_of_string s) = s"
  by (simp add: string_of_bytes_def bytes_of_string_def comp_def char_of_unat_of_char
      map_idI)

lemma bytes_of_string_of_bytes [simp]: "bytes_of_string (string_of_bytes bs) = bs"
proof -
  have "map (\<lambda>c. of_nat (of_char c) :: byte) (map (\<lambda>w. char_of (unat w)) bs) = bs"
    by (simp only: map_map comp_def of_char_char_of_unat map_ident)
  then show ?thesis by (simp only: string_of_bytes_def bytes_of_string_def)
qed

section \<open>Moving an element to the front of a list\<close>

text \<open>
  \<open>MoveToFront(e)\<close> of Go's doubly linked list takes \<open>e\<close> out of the list and
  puts it first; on the list of elements it is \<open>e # remove1 e xs\<close>. The result is a
  permutation of \<open>xs\<close> when \<open>e\<close> is in \<open>xs\<close>, and everything below follows from that.
\<close>

lemma mset_move_front [perm_facts]:
  "e \<in> set xs \<Longrightarrow> mset (e # remove1 e xs) = mset xs"
  by simp

lemma perm_distinct_map [perm_facts]:
  assumes "mset xs = mset ys"
  shows "distinct (map f xs) = distinct (map f ys)"
proof -
  from assms have "mset (map f xs) = mset (map f ys)" by simp
  then show ?thesis by (rule mset_eq_imp_distinct_iff)
qed

lemma perm_sum_list_map [perm_facts]:
  assumes "mset xs = mset ys"
  shows "sum_list (map (f :: 'a \<Rightarrow> 'b::comm_monoid_add) xs) = sum_list (map f ys)"
proof -
  have "sum_list (map f xs) = sum_mset (mset (map f xs))"
    by (simp only: sum_mset_sum_list)
  also have "\<dots> = sum_mset (mset (map f ys))"
    using assms by (simp only: mset_map)
  also have "\<dots> = sum_list (map f ys)"
    by (simp only: sum_mset_sum_list)
  finally show ?thesis .
qed

lemma perm_set [perm_facts]:
  assumes "mset xs = mset ys"
  shows "set xs = set ys"
proof -
  from assms have "set_mset (mset xs) = set_mset (mset ys)" by simp
  then show ?thesis by simp
qed

lemma perm_map_of [perm_facts]:
  assumes "mset xs = mset ys" and "distinct (map fst xs)"
  shows "map_of xs = map_of ys"
proof -
  have d: "distinct (map fst ys)"
    using perm_distinct_map [OF assms(1), of fst] assms(2) by simp
  have "set xs = set ys" by (rule perm_set [OF assms(1)])
  with assms(2) d show ?thesis by (simp add: map_of_inject_set)
qed

text \<open>
  Among elements with pairwise distinct keys, dropping every element with the key
  of \<open>e\<close> is removing \<open>e\<close>.
\<close>

lemma filter_key_remove1:
  "distinct (map f xs) \<Longrightarrow> e \<in> set xs \<Longrightarrow> filter (\<lambda>x. f x \<noteq> f e) xs = remove1 e xs"
proof (induction xs)
  case Nil
  then show ?case by simp
next
  case (Cons x xs)
  show ?case
  proof (cases "x = e")
    case True
    with Cons.prems have "\<forall>y\<in>set xs. f y \<noteq> f e" by (auto simp: image_iff)
    with True show ?thesis by (simp add: filter_id_conv)
  next
    case False
    with Cons.prems have "f x \<noteq> f e" by (auto simp: image_iff)
    with False Cons show ?thesis by simp
  qed
qed

lemma filter_key_absent:
  "\<forall>x\<in>set xs. f x \<noteq> k \<Longrightarrow> filter (\<lambda>x. f x \<noteq> k) xs = xs"
  by (simp add: filter_id_conv)

section \<open>Lists and their last element\<close>

text \<open>Removing the last element of a list without repetitions is \<open>butlast\<close>.\<close>

lemma remove1_last:
  assumes "distinct xs" and "xs \<noteq> []"
  shows "remove1 (last xs) xs = butlast xs"
proof -
  from assms(2) have xs: "xs = butlast xs @ [last xs]" by simp
  have "distinct (butlast xs @ [last xs])" using xs assms(1) by (rule subst)
  then have "last xs \<notin> set (butlast xs)" by simp
  then have "remove1 (last xs) (butlast xs @ [last xs]) = butlast xs"
    by (simp add: remove1_append)
  with xs show ?thesis by simp
qed

lemma sum_list_butlast:
  assumes "xs \<noteq> []"
  shows "sum_list (map f xs) = sum_list (map f (butlast xs)) + f (last xs)"
proof -
  from assms have "xs = butlast xs @ [last xs]" by simp
  then have "sum_list (map f xs) = sum_list (map f (butlast xs @ [last xs]))"
    by (rule arg_cong)
  then show ?thesis by simp
qed

lemma rev_drop_butlast:
  assumes "xs \<noteq> []" and "n \<le> length (butlast xs)"
  shows "last xs # rev (drop n (butlast xs)) = rev (drop n xs)"
proof -
  from assms(1) have "xs = butlast xs @ [last xs]" by simp
  then have "drop n xs = drop n (butlast xs @ [last xs])" by (rule arg_cong)
  also have "\<dots> = drop n (butlast xs) @ [last xs]" using assms(2) by simp
  finally show ?thesis by simp
qed

section \<open>Updating a store at one address\<close>

text \<open>
  An update of the element store at an address that a list does not contain leaves
  everything computed over the list unchanged; an update at an address it contains
  once changes a sum over the list by the difference.
\<close>

lemma map_fun_upd_notin:
  "n \<notin> set xs \<Longrightarrow> map (\<lambda>x. g ((f(n := y)) x)) xs = map (\<lambda>x. g (f x)) xs"
  by (induction xs) auto

lemma map_fun_upd_same_image:
  "g y = g (f n) \<Longrightarrow> map (\<lambda>x. g ((f(n := y)) x)) xs = map (\<lambda>x. g (f x)) xs"
  by (induction xs) auto

lemma sum_list_map_fun_upd:
  fixes g :: "'b \<Rightarrow> int"
  assumes "distinct xs" and "n \<in> set xs"
  shows "sum_list (map (\<lambda>x. g ((f(n := y)) x)) xs) = sum_list (map (\<lambda>x. g (f x)) xs) - g (f n) + g y"
proof -
  have "sum_list (map (\<lambda>x. g ((f(n := y)) x)) xs) = (\<Sum>x\<in>set xs. g ((f(n := y)) x))"
    using assms(1) by (simp add: sum_list_distinct_conv_sum_set)
  also have "\<dots> = g y + (\<Sum>x\<in>set xs - {n}. g (f x))"
    using assms(2) by (simp add: sum.remove)
  also have "\<dots> = sum_list (map (\<lambda>x. g (f x)) xs) - g (f n) + g y"
    using assms by (simp add: sum_list_distinct_conv_sum_set sum_diff1)
  finally show ?thesis .
qed

section \<open>Association lists\<close>

lemma map_of_butlast:
  assumes "distinct (map fst xs)" and "xs \<noteq> []"
  shows "map_of (butlast xs) = (map_of xs)(fst (last xs) := None)"
proof -
  from assms(2) have xs: "xs = butlast xs @ [last xs]" by simp
  have "distinct (map fst (butlast xs @ [last xs]))" using xs assms(1) by (rule subst)
  then have notin: "fst (last xs) \<notin> fst ` set (butlast xs)" by simp
  have "map_of xs = map_of (butlast xs @ [last xs])" using xs by (rule arg_cong)
  then have "map_of xs = map_of [last xs] ++ map_of (butlast xs)" by simp
  with notin show ?thesis
    by (auto simp: fun_eq_iff map_add_def map_of_eq_None_iff split: option.splits prod.splits)
qed


section \<open>Results\<close>

text \<open>The three outcomes of a call that may panic or return an optional value.\<close>

lemma sum_option_cases [case_names Inl Inr_None Inr_Some]:
  obtains (Inl) e where "x = Inl e" | (Inr_None) "x = Inr None" | (Inr_Some) y where "x = Inr (Some y)"
  by (cases x rule: sumE) (auto split: option.splits)

end
