(* ===== verification/LRU.thy ===== *)
theory LRU
  imports Prelude
begin

text \<open>
  \<open>src/lru/lru.go\<close>: the bounded LRU store. The Go \<open>Cache\<close> keeps a doubly
  linked list \<open>ll\<close> (front = most recently used) of elements holding an
  \<open>entry\<close> (key and value), a map \<open>cache\<close> from keys to list elements, the byte
  total \<open>nbytes\<close> and the bound \<open>maxBytes\<close> (0 = unbounded). The model keeps
  the list as the sequence of element addresses, the elements' payloads in an
  explicit store \<open>elems\<close> (so that the in-place update \<open>kv.value = value\<close>
  through the map's pointer is visible from the list, as in Go), and the
  eviction callback as a flag plus the trace of its invocations.
  The loop of \<open>Add\<close> that evicts while over budget need not end (it spins for
  ever when \<open>maxBytes < 0\<close>), so it is a \<^theory_text>\<open>partial_function\<close> in the
  option monad: \<open>None\<close> is divergence.
\<close>

section \<open>State and operations\<close>

datatype 'v entry = Entry (entry_key: string) (entry_value: 'v)

text \<open>The \<open>Value\<close> interface: the one method \<open>Len()\<close>, the value's byte size.\<close>

type_synonym 'v value_len = "'v \<Rightarrow> nat"

record 'v lru_cache =
  maxBytes :: int
  nbytes :: int
  ll :: "elem list"
  elems :: "elem \<Rightarrow> 'v entry"
  cache :: "string \<rightharpoonup> elem"
  onEvicted :: bool
  evicted :: "(string \<times> 'v) list"
  next_elem :: elem

definition entry_size :: "'v value_len \<Rightarrow> 'v entry \<Rightarrow> int" where
  "entry_size vlen kv = int (length (entry_key kv)) + int (vlen (entry_value kv))"

definition lru_New :: "int \<Rightarrow> bool \<Rightarrow> 'v lru_cache" where
  "lru_New mb cb =
     \<lparr>maxBytes = mb, nbytes = 0, ll = [], elems = (\<lambda>_. undefined), cache = Map.empty,
      onEvicted = cb, evicted = [], next_elem = 0\<rparr>"

definition lru_Get :: "'v lru_cache \<Rightarrow> string \<Rightarrow> 'v option \<times> 'v lru_cache" where
  "lru_Get c key =
     (case cache c key of
        Some ele \<Rightarrow> (Some (entry_value (elems c ele)), c\<lparr>ll := ele # remove1 ele (ll c)\<rparr>)
      | None \<Rightarrow> (None, c))"

definition lru_RemoveOldest :: "'v value_len \<Rightarrow> 'v lru_cache \<Rightarrow> 'v lru_cache" where
  "lru_RemoveOldest vlen c =
     (if ll c = [] then c
      else
        let ele = last (ll c); kv = elems c ele
        in c\<lparr>ll := remove1 ele (ll c),
             cache := (cache c)(entry_key kv := None),
             nbytes := nbytes c - entry_size vlen kv,
             evicted := (if onEvicted c then evicted c @ [(entry_key kv, entry_value kv)]
                         else evicted c)\<rparr>)"

text \<open>The first half of \<open>Add\<close>: update in place and move to front, or push a new element.\<close>

definition lru_upsert :: "'v value_len \<Rightarrow> 'v lru_cache \<Rightarrow> string \<Rightarrow> 'v \<Rightarrow> 'v lru_cache" where
  "lru_upsert vlen c key value =
     (case cache c key of
        Some ele \<Rightarrow>
          (let kv = elems c ele
           in c\<lparr>ll := ele # remove1 ele (ll c),
                nbytes := nbytes c + int (vlen value) - int (vlen (entry_value kv)),
                elems := (elems c)(ele := Entry (entry_key kv) value)\<rparr>)
      | None \<Rightarrow>
          (let ele = next_elem c
           in c\<lparr>ll := ele # ll c,
                elems := (elems c)(ele := Entry key value),
                cache := (cache c)(key \<mapsto> ele),
                nbytes := nbytes c + int (length key) + int (vlen value),
                next_elem := Suc ele\<rparr>))"

text \<open>The second half: \<open>for c.maxBytes != 0 && c.maxBytes < c.nbytes { c.RemoveOldest() }\<close>.\<close>

partial_function (option) lru_evict :: "'v value_len \<Rightarrow> 'v lru_cache \<Rightarrow> 'v lru_cache option" where
  "lru_evict vlen c =
     (if maxBytes c \<noteq> 0 \<and> maxBytes c < nbytes c
      then lru_evict vlen (lru_RemoveOldest vlen c)
      else Some c)"

declare lru_evict.simps [code]

definition lru_Add :: "'v value_len \<Rightarrow> 'v lru_cache \<Rightarrow> string \<Rightarrow> 'v \<Rightarrow> 'v lru_cache option" where
  "lru_Add vlen c key value = lru_evict vlen (lru_upsert vlen c key value)"

definition lru_Len :: "'v lru_cache \<Rightarrow> nat" where
  "lru_Len c = length (ll c)"

section \<open>Invariant and abstraction\<close>

text \<open>
  The list has no repeated element and no two elements with one key; every
  element was allocated; the map is exactly the index of the list; the byte total
  is the sum of the entries' sizes.
\<close>

definition lru_index :: "'v lru_cache \<Rightarrow> (string \<times> elem) list" where
  "lru_index c = map (\<lambda>e. (entry_key (elems c e), e)) (ll c)"

definition lru_inv :: "'v value_len \<Rightarrow> 'v lru_cache \<Rightarrow> bool" where
  "lru_inv vlen c \<longleftrightarrow>
     distinct (ll c) \<and> distinct (map (\<lambda>e. entry_key (elems c e)) (ll c)) \<and>
     (\<forall>e\<in>set (ll c). e < next_elem c) \<and>
     cache c = map_of (lru_index c) \<and>
     nbytes c = sum_list (map (\<lambda>e. entry_size vlen (elems c e)) (ll c))"

text \<open>
  What the store means: the list of its entries, most recently used first. The
  abstract operations say what \<open>Get\<close> and \<open>Add\<close> promise on that list:
  \<open>Get\<close> moves a hit to the front; \<open>Add\<close> puts the pair first and then keeps
  the longest prefix that fits the bound (all of it when the bound is 0).
\<close>

definition lru_abs :: "'v lru_cache \<Rightarrow> (string \<times> 'v) list" where
  "lru_abs c = map (\<lambda>e. (entry_key (elems c e), entry_value (elems c e))) (ll c)"

definition a_size :: "'v value_len \<Rightarrow> (string \<times> 'v) list \<Rightarrow> int" where
  "a_size vlen xs = sum_list (map (\<lambda>(k, v). int (length k) + int (vlen v)) xs)"

fun a_keep :: "'v value_len \<Rightarrow> int \<Rightarrow> (string \<times> 'v) list \<Rightarrow> (string \<times> 'v) list" where
  "a_keep vlen cap [] = []"
| "a_keep vlen cap (p # ps) =
     (if a_size vlen [p] \<le> cap then p # a_keep vlen (cap - a_size vlen [p]) ps else [])"

definition a_get :: "string \<Rightarrow> (string \<times> 'v) list \<Rightarrow> 'v option \<times> (string \<times> 'v) list" where
  "a_get k xs =
     (case map_of xs k of
        None \<Rightarrow> (None, xs)
      | Some v \<Rightarrow> (Some v, (k, v) # filter (\<lambda>p. fst p \<noteq> k) xs))"

definition a_add :: "'v value_len \<Rightarrow> int \<Rightarrow> string \<Rightarrow> 'v \<Rightarrow> (string \<times> 'v) list \<Rightarrow>
    (string \<times> 'v) list" where
  "a_add vlen cap k v xs =
     (let ys = (k, v) # filter (\<lambda>p. fst p \<noteq> k) xs
      in if cap = 0 then ys else a_keep vlen cap ys)"

text \<open>
  The states a store reaches from \<open>New\<close> with a non-negative bound through any
  sequence of \<open>Get\<close> and \<open>Add\<close> calls that return (the caller in
  \<open>src/cache.go\<close> holds a mutex around each call, so calls do not interleave).
\<close>

inductive lru_reach :: "'v value_len \<Rightarrow> 'v lru_cache \<Rightarrow> bool" for vlen where
  reach_New: "0 \<le> mb \<Longrightarrow> lru_reach vlen (lru_New mb cb)"
| reach_Get: "lru_reach vlen c \<Longrightarrow> lru_reach vlen (snd (lru_Get c k))"
| reach_Add: "lru_reach vlen c \<Longrightarrow> lru_Add vlen c k v = Some c' \<Longrightarrow> lru_reach vlen c'"

text \<open>
  Two concrete stores used by the witnesses: bound 4 bytes, string values of
  length 1, so every entry takes 2 bytes. \<open>lru_ex_AB\<close> is the state after
  \<open>Add(A)\<close>, \<open>Add(B)\<close>, \<open>Get(A)\<close>; \<open>lru_ex_CA\<close> the state after a further
  \<open>Add(C)\<close>, which evicts \<open>B\<close> (the example of the specification).
\<close>

abbreviation lru_ex_AB :: "string lru_cache" where
  "lru_ex_AB \<equiv> \<lparr>maxBytes = 4, nbytes = 4, ll = [0, 1],
      elems = (\<lambda>_. undefined)(0 := Entry ''A'' ''a'', 1 := Entry ''B'' ''b''),
      cache = [''A'' \<mapsto> 0, ''B'' \<mapsto> 1], onEvicted = True, evicted = [], next_elem = 2\<rparr>"

abbreviation lru_ex_CA :: "string lru_cache" where
  "lru_ex_CA \<equiv> \<lparr>maxBytes = 4, nbytes = 4, ll = [2, 0],
      elems = (\<lambda>_. undefined)(0 := Entry ''A'' ''a'', 1 := Entry ''B'' ''b'', 2 := Entry ''C'' ''c''),
      cache = [''A'' \<mapsto> 0, ''C'' \<mapsto> 2], onEvicted = True, evicted = [(''B'', ''b'')],
      next_elem = 3\<rparr>"

section \<open>Facts about the invariant\<close>

lemma lru_inv_New: "lru_inv vlen (lru_New mb cb)"
  by (simp add: lru_inv_def lru_New_def lru_index_def)

lemma lru_inv_cache_Some:
  assumes "lru_inv vlen c" and "cache c k = Some e"
  shows "e \<in> set (ll c)" and "entry_key (elems c e) = k"
proof -
  from assms have "map_of (lru_index c) k = Some e" by (simp add: lru_inv_def)
  then have "(k, e) \<in> set (lru_index c)" by (rule map_of_SomeD)
  then show "e \<in> set (ll c)" and "entry_key (elems c e) = k"
    by (auto simp: lru_index_def)
qed

lemma lru_inv_cache_None:
  assumes "lru_inv vlen c" and "cache c k = None"
  shows "\<forall>e\<in>set (ll c). entry_key (elems c e) \<noteq> k"
proof -
  from assms have "map_of (lru_index c) k = None" by (simp add: lru_inv_def)
  then show ?thesis by (auto simp: map_of_eq_None_iff lru_index_def image_iff)
qed

lemma lru_nbytes_abs: "lru_inv vlen c \<Longrightarrow> nbytes c = a_size vlen (lru_abs c)"
  by (simp add: lru_inv_def a_size_def lru_abs_def entry_size_def comp_def)

lemma lru_abs_distinct: "lru_inv vlen c \<Longrightarrow> distinct (map fst (lru_abs c))"
  by (simp add: lru_inv_def lru_abs_def comp_def)

lemma lru_map_of_abs:
  assumes "lru_inv vlen c"
  shows "map_of (lru_abs c) k = map_option (\<lambda>e. entry_value (elems c e)) (cache c k)"
proof (cases "cache c k")
  case None
  with assms have "\<forall>e\<in>set (ll c). entry_key (elems c e) \<noteq> k" by (rule lru_inv_cache_None)
  with None show ?thesis by (fastforce simp: lru_abs_def map_of_eq_None_iff image_iff)
next
  case (Some e)
  with assms have e: "e \<in> set (ll c)" "entry_key (elems c e) = k"
    by (blast dest: lru_inv_cache_Some)+
  from assms have "distinct (map fst (lru_abs c))" by (rule lru_abs_distinct)
  moreover from e have "(k, entry_value (elems c e)) \<in> set (lru_abs c)"
    by (force simp: lru_abs_def)
  ultimately have "map_of (lru_abs c) k = Some (entry_value (elems c e))"
    by (rule map_of_is_SomeI)
  with Some show ?thesis by simp
qed

text \<open>Any reordering of the list that keeps its elements keeps the invariant.\<close>

lemma lru_inv_perm:
  assumes inv: "lru_inv vlen c" and p: "mset ys = mset (ll c)"
  shows "lru_inv vlen (c\<lparr>ll := ys\<rparr>)"
proof -
  let ?k = "\<lambda>e. entry_key (elems c e)"
  from inv have d: "distinct (ll c)" and dk: "distinct (map ?k (ll c))"
    by (simp_all add: lru_inv_def)
  have "distinct ys" using d mset_eq_imp_distinct_iff [OF p] by simp
  moreover have "distinct (map ?k ys)" using dk perm_distinct_map [OF p, of ?k] by simp
  moreover have "set ys = set (ll c)" by (rule perm_set [OF p])
  moreover have "mset (map (\<lambda>e. (?k e, e)) ys) = mset (map (\<lambda>e. (?k e, e)) (ll c))"
    using p by simp
  then have "map_of (map (\<lambda>e. (?k e, e)) (ll c)) = map_of (map (\<lambda>e. (?k e, e)) ys)"
    by (intro perm_map_of) (simp_all add: dk comp_def)
  moreover have "sum_list (map (\<lambda>e. entry_size vlen (elems c e)) ys) =
      sum_list (map (\<lambda>e. entry_size vlen (elems c e)) (ll c))"
    by (rule perm_sum_list_map [OF p])
  ultimately show ?thesis using inv by (simp add: lru_inv_def lru_index_def)
qed

lemma lru_abs_move_front:
  assumes "lru_inv vlen c" and "cache c k = Some e"
  shows "lru_abs (c\<lparr>ll := e # remove1 e (ll c)\<rparr>) =
         (k, entry_value (elems c e)) # filter (\<lambda>p. fst p \<noteq> k) (lru_abs c)"
proof -
  let ?k = "\<lambda>e. entry_key (elems c e)"
  from assms have e: "e \<in> set (ll c)" and ke: "?k e = k"
    by (blast dest: lru_inv_cache_Some)+
  from assms(1) have dk: "distinct (map ?k (ll c))" by (simp add: lru_inv_def)
  have "filter (\<lambda>x. ?k x \<noteq> ?k e) (ll c) = remove1 e (ll c)"
    using dk e by (rule filter_key_remove1)
  then have "filter (\<lambda>p. fst p \<noteq> k) (lru_abs c) =
      map (\<lambda>e. (?k e, entry_value (elems c e))) (remove1 e (ll c))"
    using ke by (simp add: lru_abs_def filter_map comp_def)
  with ke show ?thesis by (simp add: lru_abs_def)
qed



lemma filter_key_fun_upd:
  "filter (\<lambda>p. fst p \<noteq> entry_key (f e))
     (map (\<lambda>x. (entry_key ((f(e := Entry (entry_key (f e)) v)) x),
                 entry_value ((f(e := Entry (entry_key (f e)) v)) x))) xs) =
   filter (\<lambda>p. fst p \<noteq> entry_key (f e)) (map (\<lambda>x. (entry_key (f x), entry_value (f x))) xs)"
  by (induction xs) auto

text \<open>Writing a new value into a listed element, as the hit branch of \<open>Add\<close> does.\<close>

lemma lru_set_value:
  fixes c :: "'v lru_cache" and v :: 'v
  assumes inv: "lru_inv vlen c" and e: "e \<in> set (ll c)"
  defines "c1 \<equiv> c\<lparr>nbytes := nbytes c + int (vlen v) - int (vlen (entry_value (elems c e))),
                   elems := (elems c)(e := Entry (entry_key (elems c e)) v)\<rparr>"
  shows "lru_inv vlen c1"
    and "filter (\<lambda>p. fst p \<noteq> entry_key (elems c e)) (lru_abs c1) =
         filter (\<lambda>p. fst p \<noteq> entry_key (elems c e)) (lru_abs c)"
    and "elems c1 e = Entry (entry_key (elems c e)) v"
proof -
  let ?E = "Entry (entry_key (elems c e)) v"
  from inv have d: "distinct (ll c)" by (simp add: lru_inv_def)
  have keys: "map (\<lambda>x. entry_key (elems c1 x)) (ll c) = map (\<lambda>x. entry_key (elems c x)) (ll c)"
    by (rule map_cong) (simp_all add: c1_def)
  have idx: "lru_index c1 = lru_index c"
    unfolding lru_index_def by (rule map_cong) (simp_all add: c1_def)
  have "sum_list (map (\<lambda>x. entry_size vlen (elems c1 x)) (ll c)) =
        sum_list (map (\<lambda>x. entry_size vlen (elems c x)) (ll c)) - entry_size vlen (elems c e) +
        entry_size vlen ?E"
  proof -
    have "elems c1 = (elems c)(e := ?E)" by (simp add: c1_def)
    then show ?thesis by (simp only: sum_list_map_fun_upd [OF d e])
  qed
  then have nb: "nbytes c1 = sum_list (map (\<lambda>x. entry_size vlen (elems c1 x)) (ll c))"
    using inv by (simp add: c1_def lru_inv_def entry_size_def)
  have l: "ll c1 = ll c" and n: "next_elem c1 = next_elem c" and ch: "cache c1 = cache c"
    by (simp_all add: c1_def)
  show "lru_inv vlen c1"
    using inv nb unfolding lru_inv_def l n ch keys idx by simp
  show "filter (\<lambda>p. fst p \<noteq> entry_key (elems c e)) (lru_abs c1) =
        filter (\<lambda>p. fst p \<noteq> entry_key (elems c e)) (lru_abs c)"
  proof -
    have "elems c1 = (elems c)(e := ?E)" and "ll c1 = ll c" by (simp_all add: c1_def)
    then show ?thesis unfolding lru_abs_def by (simp only: filter_key_fun_upd)
  qed
  show "elems c1 e = ?E" by (simp add: c1_def)
qed

lemma lru_upsert_hit:
  assumes inv: "lru_inv vlen c" and hit: "cache c k = Some e"
  shows "lru_inv vlen (lru_upsert vlen c k v) \<and>
         lru_abs (lru_upsert vlen c k v) = (k, v) # filter (\<lambda>p. fst p \<noteq> k) (lru_abs c)"
proof -
  let ?c1 = "c\<lparr>nbytes := nbytes c + int (vlen v) - int (vlen (entry_value (elems c e))),
                elems := (elems c)(e := Entry (entry_key (elems c e)) v)\<rparr>"
  from inv hit have e: "e \<in> set (ll c)" and ke: "entry_key (elems c e) = k"
    by (blast dest: lru_inv_cache_Some)+
  note c1 = lru_set_value [OF inv e, of v]
  have up: "lru_upsert vlen c k v = ?c1\<lparr>ll := e # remove1 e (ll ?c1)\<rparr>"
    using hit by (simp add: lru_upsert_def Let_def)
  have hit1: "cache ?c1 k = Some e" using hit by simp
  have "mset (e # remove1 e (ll ?c1)) = mset (ll ?c1)" using e by simp
  with c1(1) have "lru_inv vlen (?c1\<lparr>ll := e # remove1 e (ll ?c1)\<rparr>)"
    by (rule lru_inv_perm)
  moreover have "lru_abs (?c1\<lparr>ll := e # remove1 e (ll ?c1)\<rparr>) =
      (k, v) # filter (\<lambda>p. fst p \<noteq> k) (lru_abs c)"
    using lru_abs_move_front [OF c1(1) hit1] c1(2,3) ke by simp
  ultimately show ?thesis by (simp only: up)
qed

lemma lru_upsert_miss:
  assumes inv: "lru_inv vlen c" and miss: "cache c k = None"
  shows "lru_inv vlen (lru_upsert vlen c k v) \<and>
         lru_abs (lru_upsert vlen c k v) = (k, v) # filter (\<lambda>p. fst p \<noteq> k) (lru_abs c)"
proof -
  let ?n = "next_elem c"
  let ?el = "(elems c)(?n := Entry k v)"
  let ?c' = "lru_upsert vlen c k v"
  from inv have fresh: "?n \<notin> set (ll c)" by (auto simp: lru_inv_def)
  from inv miss have nk: "\<forall>e\<in>set (ll c). entry_key (elems c e) \<noteq> k"
    by (rule lru_inv_cache_None)
  have l: "ll ?c' = ?n # ll c" and el: "elems ?c' = ?el"
    and ch: "cache ?c' = (cache c)(k \<mapsto> ?n)"
    and nb: "nbytes ?c' = nbytes c + int (length k) + int (vlen v)"
    and nx: "next_elem ?c' = Suc ?n"
    using miss by (simp_all add: lru_upsert_def Let_def)
  have keys: "map (\<lambda>x. entry_key (?el x)) (ll c) = map (\<lambda>x. entry_key (elems c x)) (ll c)"
    using fresh by (rule map_fun_upd_notin)
  have sizes: "map (\<lambda>x. entry_size vlen (?el x)) (ll c) =
      map (\<lambda>x. entry_size vlen (elems c x)) (ll c)"
    using fresh by (rule map_fun_upd_notin)
  have idx: "map (\<lambda>x. (entry_key (?el x), x)) (ll c) = lru_index c"
    unfolding lru_index_def using fresh by (intro map_cong) auto
  have vals: "map (\<lambda>x. (entry_key (?el x), entry_value (?el x))) (ll c) = lru_abs c"
    unfolding lru_abs_def using fresh by (intro map_cong) auto
  have "distinct (ll ?c')" using inv fresh unfolding l lru_inv_def by simp
  moreover have "distinct (map (\<lambda>x. entry_key (elems ?c' x)) (ll ?c'))"
    using inv nk unfolding l el list.map(2) keys lru_inv_def by auto
  moreover have "\<forall>e\<in>set (ll ?c'). e < next_elem ?c'"
    using inv unfolding l nx lru_inv_def by auto
  moreover have "cache ?c' = map_of (lru_index ?c')"
    using inv unfolding ch lru_index_def l el list.map(2) idx lru_inv_def by simp
  moreover have "nbytes ?c' = sum_list (map (\<lambda>x. entry_size vlen (elems ?c' x)) (ll ?c'))"
    using inv unfolding nb l el list.map(2) sizes lru_inv_def by (simp add: entry_size_def)
  moreover have "filter (\<lambda>p. fst p \<noteq> k) (lru_abs c) = lru_abs c"
    using nk by (auto simp: lru_abs_def filter_id_conv)
  moreover have "lru_abs ?c' = (k, v) # lru_abs c"
    unfolding lru_abs_def l el list.map(2) vals [unfolded lru_abs_def] by simp
  ultimately show ?thesis by (simp add: lru_inv_def)
qed

lemma lru_upsert:
  "lru_inv vlen c \<Longrightarrow>
   lru_inv vlen (lru_upsert vlen c k v) \<and>
   lru_abs (lru_upsert vlen c k v) = (k, v) # filter (\<lambda>p. fst p \<noteq> k) (lru_abs c)"
  by (cases "cache c k") (simp_all add: lru_upsert_hit lru_upsert_miss)

lemma lru_upsert_fields [simp]:
  "maxBytes (lru_upsert vlen c k v) = maxBytes c"
  "onEvicted (lru_upsert vlen c k v) = onEvicted c"
  "evicted (lru_upsert vlen c k v) = evicted c"
  by (simp_all add: lru_upsert_def Let_def split: option.splits)



lemma lru_RemoveOldest:
  assumes inv: "lru_inv vlen c" and ne: "ll c \<noteq> []"
  shows "lru_inv vlen (lru_RemoveOldest vlen c) \<and>
         lru_abs (lru_RemoveOldest vlen c) = butlast (lru_abs c) \<and>
         evicted (lru_RemoveOldest vlen c) =
           evicted c @ (if onEvicted c then [last (lru_abs c)] else [])"
proof -
  let ?e = "last (ll c)"
  let ?c' = "lru_RemoveOldest vlen c"
  let ?k = "\<lambda>e. entry_key (elems c e)"
  from inv have d: "distinct (ll c)" and dk: "distinct (map ?k (ll c))"
    by (simp_all add: lru_inv_def)
  have l: "ll ?c' = butlast (ll c)" using ne d by (simp add: lru_RemoveOldest_def Let_def remove1_last)
  have el: "elems ?c' = elems c" and ch: "cache ?c' = (cache c)(?k ?e := None)"
    and nb: "nbytes ?c' = nbytes c - entry_size vlen (elems c ?e)"
    and nx: "next_elem ?c' = next_elem c"
    using ne by (simp_all add: lru_RemoveOldest_def Let_def)
  have ev: "evicted ?c' = evicted c @ (if onEvicted c then [last (lru_abs c)] else [])"
    using ne by (simp add: lru_RemoveOldest_def Let_def lru_abs_def last_map)
  have idx: "map_of (lru_index ?c') = (map_of (lru_index c))(?k ?e := None)"
  proof -
    have "distinct (map fst (lru_index c))" using dk by (simp add: lru_index_def comp_def)
    moreover have "lru_index c \<noteq> []" using ne by (simp add: lru_index_def)
    ultimately have "map_of (butlast (lru_index c)) = (map_of (lru_index c))(fst (last (lru_index c)) := None)"
      by (rule map_of_butlast)
    then show ?thesis using ne by (simp add: lru_index_def l el map_butlast last_map)
  qed
  have "lru_inv vlen ?c'"
    unfolding lru_inv_def l el nx
  proof (intro conjI)
    show "distinct (butlast (ll c))" using d by (rule distinct_butlast)
    show "distinct (map ?k (butlast (ll c)))" using dk by (simp add: map_butlast distinct_butlast)
    show "\<forall>e\<in>set (butlast (ll c)). e < next_elem c"
      using inv by (auto simp: lru_inv_def dest: in_set_butlastD)
    show "cache ?c' = map_of (lru_index ?c')" using inv by (simp add: ch idx lru_inv_def)
    show "nbytes ?c' = sum_list (map (\<lambda>e. entry_size vlen (elems c e)) (butlast (ll c)))"
      using inv ne by (simp add: nb lru_inv_def sum_list_butlast)
  qed
  moreover have "lru_abs ?c' = butlast (lru_abs c)" by (simp add: lru_abs_def l el map_butlast)
  ultimately show ?thesis using ev by simp
qed

lemma lru_RemoveOldest_fields [simp]:
  "maxBytes (lru_RemoveOldest vlen c) = maxBytes c"
  "onEvicted (lru_RemoveOldest vlen c) = onEvicted c"
  by (simp_all add: lru_RemoveOldest_def Let_def)

section \<open>The longest prefix that fits\<close>

lemma a_size_Cons:
  "NO_MATCH [] ps \<Longrightarrow> a_size vlen (p # ps) = a_size vlen [p] + a_size vlen ps"
  by (simp add: a_size_def)

lemma a_size_append: "a_size vlen (xs @ ys) = a_size vlen xs + a_size vlen ys"
  by (simp add: a_size_def)

lemma a_size_nonneg: "0 \<le> a_size vlen xs"
  by (induction xs) (auto simp: a_size_def split: prod.splits intro: sum_list_nonneg)

lemma a_keep_fits: "a_size vlen xs \<le> cap \<Longrightarrow> a_keep vlen cap xs = xs"
proof (induction xs arbitrary: cap)
  case Nil
  then show ?case by simp
next
  case (Cons p ps)
  have "0 \<le> a_size vlen ps" by (rule a_size_nonneg)
  with Cons.prems have "a_size vlen [p] \<le> cap" by (simp add: a_size_Cons)
  moreover from Cons.prems have "a_size vlen ps \<le> cap - a_size vlen [p]"
    by (simp add: a_size_Cons)
  ultimately show ?case by (simp add: Cons.IH)
qed

lemma a_keep_snoc:
  "a_keep vlen cap (xs @ [y]) =
     (if a_size vlen (xs @ [y]) \<le> cap then xs @ [y] else a_keep vlen cap xs)"
proof (induction xs arbitrary: cap)
  case Nil
  then show ?case by simp
next
  case (Cons p ps)
  show ?case
  proof (cases "a_size vlen [p] \<le> cap")
    case True
    with Cons.IH [of "cap - a_size vlen [p]"] show ?thesis
      by (simp add: a_size_Cons)
  next
    case False
    have "0 \<le> a_size vlen (ps @ [y])" by (rule a_size_nonneg)
    with False show ?thesis by (simp add: a_size_Cons)
  qed
qed

lemma a_keep_append_drop:
  "a_keep vlen cap xs @ drop (length (a_keep vlen cap xs)) xs = xs"
  by (induction xs arbitrary: cap) simp_all

lemma a_keep_length: "length (a_keep vlen cap xs) \<le> length xs"
  by (induction xs arbitrary: cap) simp_all

lemma a_keep_size: "0 \<le> cap \<Longrightarrow> a_size vlen (a_keep vlen cap xs) \<le> cap"
proof (induction xs arbitrary: cap)
  case Nil
  then show ?case by (simp add: a_size_def)
next
  case (Cons p ps)
  have "0 \<le> cap - a_size vlen [p] \<Longrightarrow> a_size vlen (a_keep vlen (cap - a_size vlen [p]) ps) \<le> cap - a_size vlen [p]"
    by (rule Cons.IH)
  with Cons.prems show ?case
    by (cases "a_size vlen [p] \<le> cap") (simp_all add: a_size_Cons, simp add: a_size_def)
qed

lemma a_keep_longest:
  "a_size vlen (take n xs) \<le> cap \<Longrightarrow> n \<le> length xs \<Longrightarrow> n \<le> length (a_keep vlen cap xs)"
proof (induction xs arbitrary: cap n)
  case Nil
  then show ?case by simp
next
  case (Cons p ps)
  show ?case
  proof (cases n)
    case 0
    then show ?thesis by simp
  next
    case (Suc m)
    have "0 \<le> a_size vlen (take m ps)" by (rule a_size_nonneg)
    with Cons.prems Suc have p: "a_size vlen [p] \<le> cap"
      by (simp add: a_size_Cons)
    from Cons.prems Suc have "a_size vlen (take m ps) \<le> cap - a_size vlen [p]"
      by (simp add: a_size_Cons)
    with Cons.IH [where cap = "cap - a_size vlen [p]" and n = m] Cons.prems Suc p show ?thesis by simp
  qed
qed



lemma lru_length_abs [simp]: "length (lru_abs c) = length (ll c)"
  by (simp add: lru_abs_def)

lemma lru_evict_stop:
  "\<not> (maxBytes c \<noteq> 0 \<and> maxBytes c < nbytes c) \<Longrightarrow> lru_evict vlen c = Some c"
  by (subst lru_evict.simps) auto

lemma lru_evict_step:
  "maxBytes c \<noteq> 0 \<and> maxBytes c < nbytes c \<Longrightarrow>
   lru_evict vlen c = lru_evict vlen (lru_RemoveOldest vlen c)"
  by (subst lru_evict.simps) simp

lemma lru_evict_spec:
  assumes "lru_inv vlen c" and "0 \<le> maxBytes c"
  shows "\<exists>c'. lru_evict vlen c = Some c' \<and> lru_inv vlen c' \<and>
     lru_abs c' = (if maxBytes c = 0 then lru_abs c else a_keep vlen (maxBytes c) (lru_abs c)) \<and>
     evicted c' = evicted c @
       (if onEvicted c then rev (drop (length (lru_abs c')) (lru_abs c)) else []) \<and>
     maxBytes c' = maxBytes c \<and> onEvicted c' = onEvicted c"
  using assms
proof (induction "length (ll c)" arbitrary: c rule: less_induct)
  case less
  note inv = less.prems(1) and nonneg = less.prems(2)
  have nb: "nbytes c = a_size vlen (lru_abs c)" using inv by (rule lru_nbytes_abs)
  show ?case
  proof (cases "maxBytes c \<noteq> 0 \<and> maxBytes c < nbytes c")
    case False
    then have "maxBytes c = 0 \<or> a_size vlen (lru_abs c) \<le> maxBytes c" using nb by auto
    then have "(if maxBytes c = 0 then lru_abs c else a_keep vlen (maxBytes c) (lru_abs c)) = lru_abs c"
      by (auto simp: a_keep_fits)
    with False inv show ?thesis by (simp add: lru_evict_stop)
  next
    case True
    let ?c1 = "lru_RemoveOldest vlen c"
    let ?xs = "lru_abs c"
    let ?cap = "maxBytes c"
    have ne: "ll c \<noteq> []"
    proof
      assume "ll c = []"
      then have "nbytes c = 0" using nb by (simp add: lru_abs_def a_size_def)
      with True nonneg show False by simp
    qed
    have c1: "lru_inv vlen ?c1 \<and> lru_abs ?c1 = butlast ?xs \<and>
        evicted ?c1 = evicted c @ (if onEvicted c then [last ?xs] else [])"
      using inv ne by (rule lru_RemoveOldest)
    have xs_ne: "?xs \<noteq> []" using ne by (simp add: lru_abs_def)
    have "length (ll ?c1) < length (ll c)"
      using c1 xs_ne by (metis lru_length_abs length_butlast diff_less zero_less_one length_greater_0_conv)
    then obtain c' where ev: "lru_evict vlen ?c1 = Some c'" and inv': "lru_inv vlen c'"
      and abs': "lru_abs c' = (if ?cap = 0 then lru_abs ?c1 else a_keep vlen ?cap (lru_abs ?c1))"
      and evd: "evicted c' = evicted ?c1 @
         (if onEvicted c then rev (drop (length (lru_abs c')) (lru_abs ?c1)) else [])"
      and mb: "maxBytes c' = ?cap" and cb: "onEvicted c' = onEvicted c"
      using less.hyps c1 nonneg by fastforce
    have "?xs = butlast ?xs @ [last ?xs]" using xs_ne by simp
    then have "a_keep vlen ?cap ?xs = a_keep vlen ?cap (butlast ?xs)"
      using True nb a_keep_snoc [of vlen ?cap "butlast ?xs" "last ?xs"] by simp
    with abs' c1 True have abs'': "lru_abs c' = a_keep vlen ?cap ?xs" by simp
    have "length (lru_abs c') \<le> length (butlast ?xs)"
      using abs' c1 True a_keep_length [of vlen ?cap "butlast ?xs"] by simp
    then have "last ?xs # rev (drop (length (lru_abs c')) (butlast ?xs)) =
        rev (drop (length (lru_abs c')) ?xs)"
      using xs_ne by (rule rev_drop_butlast [rotated])
    with evd c1 have "evicted c' = evicted c @
        (if onEvicted c then rev (drop (length (lru_abs c')) ?xs) else [])"
      by auto
    with ev inv' abs'' mb cb True show ?thesis by (simp add: lru_evict_step)
  qed
qed

text \<open>With a negative bound the loop never ends: every state it reaches is still over budget.\<close>

lemma lru_evict_returns_nonneg:
  assumes ret: "lru_evict vlen c = Some c'"
  shows "lru_inv vlen c \<longrightarrow> 0 \<le> maxBytes c"
proof (rule lru_evict.raw_induct [where P = "\<lambda>vlen c c'. lru_inv vlen c \<longrightarrow> 0 \<le> maxBytes c",
      OF _ ret])
  fix ev :: "'a value_len \<Rightarrow> 'a lru_cache \<Rightarrow> 'a lru_cache option" and vlen c c'
  assume IH: "\<And>vlen c c'. ev vlen c = Some c' \<Longrightarrow> lru_inv vlen c \<longrightarrow> 0 \<le> maxBytes c"
    and eq: "(if maxBytes c \<noteq> 0 \<and> maxBytes c < nbytes c
              then ev vlen (lru_RemoveOldest vlen c) else Some c) = Some c'"
  show "lru_inv vlen c \<longrightarrow> 0 \<le> maxBytes c"
  proof
    assume inv: "lru_inv vlen c"
    show "0 \<le> maxBytes c"
    proof (cases "maxBytes c \<noteq> 0 \<and> maxBytes c < nbytes c")
      case True
      with eq have r: "ev vlen (lru_RemoveOldest vlen c) = Some c'" by simp
      have "lru_inv vlen (lru_RemoveOldest vlen c)"
        using inv lru_RemoveOldest [of vlen c] by (cases "ll c = []") (auto simp: lru_RemoveOldest_def)
      with IH [OF r] show ?thesis by simp
    next
      case False
      have "0 \<le> nbytes c" using inv by (simp add: lru_nbytes_abs a_size_nonneg)
      with False show ?thesis by auto
    qed
  qed
qed

lemma lru_evict_negative:
  assumes "lru_inv vlen c" and "maxBytes c < 0"
  shows "lru_evict vlen c = None"
proof (rule ccontr)
  assume "lru_evict vlen c \<noteq> None"
  then obtain c' where "lru_evict vlen c = Some c'" by blast
  then have "lru_inv vlen c \<longrightarrow> 0 \<le> maxBytes c" by (rule lru_evict_returns_nonneg)
  with assms show False by simp
qed
section \<open>Add and Get against the abstract store\<close>

lemma lru_Add_spec:
  assumes inv: "lru_inv vlen c" and nonneg: "0 \<le> maxBytes c"
  shows "\<exists>c'. lru_Add vlen c key v = Some c' \<and> lru_inv vlen c' \<and>
     lru_abs c' = a_add vlen (maxBytes c) key v (lru_abs c) \<and>
     evicted c' = evicted c @
       (if onEvicted c
        then rev (drop (length (lru_abs c')) ((key, v) # filter (\<lambda>p. fst p \<noteq> key) (lru_abs c)))
        else []) \<and>
     maxBytes c' = maxBytes c"
proof -
  let ?u = "lru_upsert vlen c key v"
  from inv have u: "lru_inv vlen ?u \<and>
      lru_abs ?u = (key, v) # filter (\<lambda>p. fst p \<noteq> key) (lru_abs c)"
    by (rule lru_upsert)
  moreover have "0 \<le> maxBytes ?u" using nonneg by simp
  ultimately obtain c' where "lru_evict vlen ?u = Some c'" and "lru_inv vlen c'"
    and "lru_abs c' = (if maxBytes c = 0 then lru_abs ?u else a_keep vlen (maxBytes c) (lru_abs ?u))"
    and "evicted c' = evicted c @
       (if onEvicted c then rev (drop (length (lru_abs c')) (lru_abs ?u)) else [])"
    and "maxBytes c' = maxBytes c"
    using lru_evict_spec [of vlen ?u] by auto
  with u show ?thesis by (simp add: lru_Add_def a_add_def Let_def)
qed

lemma lru_Get_spec:
  assumes inv: "lru_inv vlen c"
  shows "lru_inv vlen (snd (lru_Get c k)) \<and>
         (fst (lru_Get c k), lru_abs (snd (lru_Get c k))) = a_get k (lru_abs c)"
proof (cases "cache c k")
  case None
  with inv have "map_of (lru_abs c) k = None" by (simp add: lru_map_of_abs)
  with None inv show ?thesis by (simp add: lru_Get_def a_get_def)
next
  case (Some e)
  with inv have e: "e \<in> set (ll c)" by (blast dest: lru_inv_cache_Some)
  have g: "lru_Get c k = (Some (entry_value (elems c e)), c\<lparr>ll := e # remove1 e (ll c)\<rparr>)"
    using Some by (simp add: lru_Get_def)
  have "lru_inv vlen (c\<lparr>ll := e # remove1 e (ll c)\<rparr>)"
    using inv by (rule lru_inv_perm) (simp add: e)
  moreover have "map_of (lru_abs c) k = Some (entry_value (elems c e))"
    using inv Some by (simp add: lru_map_of_abs)
  ultimately show ?thesis
    using g lru_abs_move_front [OF inv Some] by (simp add: a_get_def)
qed

lemma lru_Add_keeps_bound:
  assumes "lru_inv vlen c" and "0 \<le> maxBytes c"
  shows "\<exists>c'. lru_Add vlen c key v = Some c' \<and> lru_inv vlen c' \<and> maxBytes c' = maxBytes c \<and>
     (0 < maxBytes c \<longrightarrow> nbytes c' \<le> maxBytes c)"
proof -
  let ?ys = "(key, v) # filter (\<lambda>p. fst p \<noteq> key) (lru_abs c)"
  from lru_Add_spec [OF assms, of key v] obtain c' where
    r: "lru_Add vlen c key v = Some c'" and inv: "lru_inv vlen c'"
    and a: "lru_abs c' = a_add vlen (maxBytes c) key v (lru_abs c)"
    and m: "maxBytes c' = maxBytes c"
    by blast
  have "0 < maxBytes c \<longrightarrow> nbytes c' \<le> maxBytes c"
  proof
    assume pos: "0 < maxBytes c"
    with a have "lru_abs c' = a_keep vlen (maxBytes c) ?ys"
      by (simp only: a_add_def Let_def) simp
    moreover have "a_size vlen (a_keep vlen (maxBytes c) ?ys) \<le> maxBytes c"
      using pos by (intro a_keep_size) simp
    ultimately show "nbytes c' \<le> maxBytes c" using lru_nbytes_abs [OF inv] by simp
  qed
  with r inv m show ?thesis by blast
qed

lemma lru_reach_inv:
  "lru_reach vlen c \<Longrightarrow>
   lru_inv vlen c \<and> 0 \<le> maxBytes c \<and> (0 < maxBytes c \<longrightarrow> nbytes c \<le> maxBytes c)"
proof (induction rule: lru_reach.induct)
  case (reach_New mb cb)
  have "lru_inv vlen (lru_New mb cb)" by (rule lru_inv_New)
  with reach_New show ?case by (simp add: lru_New_def)
next
  case (reach_Get c k)
  have "nbytes (snd (lru_Get c k)) = nbytes c \<and> maxBytes (snd (lru_Get c k)) = maxBytes c"
    by (simp add: lru_Get_def split: option.splits)
  with reach_Get show ?case using lru_Get_spec [of vlen c k] by simp
next
  case (reach_Add c k v c')
  then show ?case using lru_Add_keeps_bound [of vlen c k v] by auto
qed

lemma lru_card_dom: "lru_inv vlen c \<Longrightarrow> card (dom (cache c)) = lru_Len c"
proof -
  assume inv: "lru_inv vlen c"
  then have "dom (cache c) = set (map fst (lru_index c))"
    by (simp add: lru_inv_def dom_map_of_conv_image_fst)
  moreover from inv have "distinct (map fst (lru_index c))"
    by (simp add: lru_inv_def lru_index_def comp_def)
  then have "card (set (map fst (lru_index c))) = length (map fst (lru_index c))"
    by (rule distinct_card)
  ultimately show ?thesis by (simp add: lru_Len_def lru_index_def)
qed

lemma lru_ex_AB_inv: "lru_inv length lru_ex_AB"
  by (simp add: lru_inv_def lru_index_def entry_size_def fun_eq_iff)

lemma lru_ex_Add_C: "lru_Add length lru_ex_AB ''C'' ''c'' = Some lru_ex_CA"
  by (simp add: lru_Add_def lru_upsert_def lru_evict_step lru_evict_stop lru_RemoveOldest_def
      entry_size_def fun_eq_iff)

lemma lru_ex_AB_reach: "lru_reach length lru_ex_AB"
proof -
  have "lru_reach length (lru_New 4 True)" by (rule reach_New) simp
  then have "lru_reach length (the (lru_Add length (lru_New 4 True) ''A'' ''a''))"
    by (rule reach_Add [where k = "''A''" and v = "''a''"])
      (simp add: lru_New_def lru_Add_def lru_upsert_def lru_evict_stop)
  then have "lru_reach length (the (lru_Add length (the (lru_Add length (lru_New 4 True) ''A'' ''a'')) ''B'' ''b''))"
    by (rule reach_Add [where k = "''B''" and v = "''b''"])
      (simp add: lru_New_def lru_Add_def lru_upsert_def lru_evict_stop)
  then have "lru_reach length
      (snd (lru_Get (the (lru_Add length (the (lru_Add length (lru_New 4 True) ''A'' ''a'')) ''B'' ''b'')) ''A''))"
    by (rule reach_Get)
  moreover have "snd (lru_Get (the (lru_Add length (the (lru_Add length (lru_New 4 True) ''A'' ''a'')) ''B'' ''b'')) ''A'') =
      lru_ex_AB"
    by (simp add: lru_New_def lru_Get_def lru_Add_def lru_upsert_def lru_evict_step lru_evict_stop
        entry_size_def fun_eq_iff)
  ultimately show ?thesis by simp
qed

section \<open>Properties of the LRU store\<close>

text \<open>
  C1: \<open>Add\<close> refines the abstract store. From a well-formed store with a
  non-negative bound, \<open>Add(key, value)\<close> returns, keeps the invariant, and leaves
  exactly the abstract result: the pair first, any older entry for the key dropped,
  then the longest most-recently-used prefix that fits the bound (everything when
  the bound is 0).
\<close>

theorem lru_Add_refines:
  assumes "lru_inv vlen c" and "0 \<le> maxBytes c"
  shows "\<exists>c'. lru_Add vlen c key v = Some c' \<and> lru_inv vlen c' \<and>
     lru_abs c' = a_add vlen (maxBytes c) key v (lru_abs c)"
  using lru_Add_spec [OF assms] by blast

theorem lru_Add_refines_witness:
  "\<exists>c'. lru_Add length lru_ex_AB ''C'' ''c'' = Some c' \<and> lru_inv length c' \<and>
     lru_abs c' = [(''C'', ''c''), (''A'', ''a'')]"
proof -
  have "\<exists>c'. lru_Add length lru_ex_AB ''C'' ''c'' = Some c' \<and> lru_inv length c' \<and>
     lru_abs c' = a_add length (maxBytes lru_ex_AB) ''C'' ''c'' (lru_abs lru_ex_AB)"
    by (rule lru_Add_refines [OF lru_ex_AB_inv]) simp
  then show ?thesis by (simp add: a_add_def lru_abs_def a_size_def)
qed

text \<open>
  C2: the entries kept fit the bound. \<open>Add\<close> on a well-formed store whose bound is
  positive returns a store whose entries, measured by their real sizes
  \<open>len(key) + value.Len()\<close>, take at most \<open>maxBytes\<close> bytes, and whose counter
  \<open>nbytes\<close> is exactly that size, so that the next call's eviction test is right.
\<close>

theorem lru_Add_within_bound:
  assumes "lru_inv vlen c" and "0 < maxBytes c"
  shows "\<exists>c'. lru_Add vlen c key v = Some c' \<and> a_size vlen (lru_abs c') \<le> maxBytes c \<and>
           nbytes c' = a_size vlen (lru_abs c')"
proof -
  from assms(2) have "0 \<le> maxBytes c" by simp
  from lru_Add_keeps_bound [OF assms(1) this, of key v] obtain c' where
    "lru_Add vlen c key v = Some c'" and "lru_inv vlen c'" and "nbytes c' \<le> maxBytes c"
    using assms(2) by blast
  with lru_nbytes_abs [of vlen c'] show ?thesis by auto
qed

theorem lru_Add_within_bound_witness:
  "lru_inv length lru_ex_AB \<and> 0 < maxBytes lru_ex_AB \<and>
   (\<exists>c'. lru_Add length lru_ex_AB ''C'' ''c'' = Some c' \<and>
      a_size length (lru_abs c') \<le> 4 \<and> nbytes c' = a_size length (lru_abs c'))"
  using lru_Add_within_bound [OF lru_ex_AB_inv, of "''C''" "''c''"] lru_ex_AB_inv by simp

text \<open>
  C3: eviction removes the least recently used entries, and the callback sees each
  of them exactly once, least recent first. With the callback set, the entries the
  callback receives during one \<open>Add\<close>, reversed, are exactly the tail that the
  store dropped from the list the insertion produced.
\<close>

theorem lru_Add_evicts_least_recent:
  assumes "lru_inv vlen c" and "0 \<le> maxBytes c" and "onEvicted c"
    and "lru_Add vlen c key v = Some c'"
  shows "\<exists>ys. evicted c' = evicted c @ rev ys \<and>
     (key, v) # filter (\<lambda>p. fst p \<noteq> key) (lru_abs c) = lru_abs c' @ ys"
proof -
  let ?xs = "(key, v) # filter (\<lambda>p. fst p \<noteq> key) (lru_abs c)"
  from lru_Add_spec [OF assms(1,2), of key v] obtain c'' where
    r: "lru_Add vlen c key v = Some c''"
    and a: "lru_abs c'' = a_add vlen (maxBytes c) key v (lru_abs c)"
    and e: "evicted c'' = evicted c @
       (if onEvicted c then rev (drop (length (lru_abs c'')) ?xs) else [])"
    by blast
  from r assms(4) have cc: "c'' = c'" by simp
  have "lru_abs c'' @ drop (length (lru_abs c'')) ?xs = ?xs"
  proof (cases "maxBytes c = 0")
    case True
    with a show ?thesis by (simp add: a_add_def)
  next
    case False
    with a have "lru_abs c'' = a_keep vlen (maxBytes c) ?xs"
      by (simp only: a_add_def Let_def) simp
    then show ?thesis by (simp only: a_keep_append_drop)
  qed
  with e cc assms(3) show ?thesis by auto
qed

theorem lru_Add_evicts_least_recent_witness:
  "\<exists>ys. evicted lru_ex_CA = evicted lru_ex_AB @ rev ys \<and>
     (''C'', ''c'') # filter (\<lambda>p. fst p \<noteq> ''C'') (lru_abs lru_ex_AB) = lru_abs lru_ex_CA @ ys"
  by (rule lru_Add_evicts_least_recent [OF lru_ex_AB_inv _ _ lru_ex_Add_C]) simp_all

text \<open>
  C4: \<open>Get\<close> refines the abstract store: on a well-formed store it returns the
  value stored for the key (none on a miss), moves a hit to the most recently used
  end, leaves a miss without effect, and keeps the invariant.
\<close>

theorem lru_Get_refines:
  assumes "lru_inv vlen c" and "lru_Get c k = (r, c')"
  shows "lru_inv vlen c' \<and> (r, lru_abs c') = a_get k (lru_abs c)"
  using lru_Get_spec [OF assms(1), of k] assms(2) by simp

theorem lru_Get_refines_witness:
  "lru_inv length (snd (lru_Get lru_ex_AB ''B'')) \<and>
   (Some ''b'', lru_abs (snd (lru_Get lru_ex_AB ''B''))) = a_get ''B'' (lru_abs lru_ex_AB) \<and>
   lru_abs (snd (lru_Get lru_ex_AB ''B'')) = [(''B'', ''b''), (''A'', ''a'')]"
proof -
  have g: "lru_Get lru_ex_AB ''B'' = (Some ''b'', snd (lru_Get lru_ex_AB ''B''))"
    by (simp add: lru_Get_def)
  have "lru_inv length (snd (lru_Get lru_ex_AB ''B'')) \<and>
      (Some ''b'', lru_abs (snd (lru_Get lru_ex_AB ''B''))) = a_get ''B'' (lru_abs lru_ex_AB)"
    by (rule lru_Get_refines [OF lru_ex_AB_inv g])
  then show ?thesis by (simp add: a_get_def lru_abs_def)
qed

text \<open>
  Every store of the sequence model reachable from \<open>New\<close> with a non-negative bound by \<open>Get\<close> and
  \<open>Add\<close> is well formed (list and index agree, the byte total is the sum of the
  entry sizes), is within its bound when the bound is positive, and \<open>Len\<close> is the
  number of keys in the index.
\<close>

theorem lru_reachable_invariant:
  assumes "lru_reach vlen c"
  shows "lru_inv vlen c \<and> (0 < maxBytes c \<longrightarrow> nbytes c \<le> maxBytes c) \<and>
         lru_Len c = card (dom (cache c))"
  using lru_reach_inv [OF assms] lru_card_dom by metis

theorem lru_reachable_invariant_witness:
  "lru_inv length lru_ex_AB \<and> nbytes lru_ex_AB \<le> maxBytes lru_ex_AB \<and>
   lru_Len lru_ex_AB = card (dom (cache lru_ex_AB))"
  using lru_reachable_invariant [OF lru_ex_AB_reach] by simp

text \<open>
  With a negative bound, \<open>Add\<close> of the sequence model never returns. After the insertion the total
  is non-negative and so above the bound; \<open>RemoveOldest\<close> on the emptied list does
  nothing, and the loop \<open>for c.maxBytes != 0 && c.maxBytes < c.nbytes\<close> spins for
  ever.
\<close>

theorem lru_Add_negative_bound_diverges:
  assumes "lru_inv vlen c" and "maxBytes c < 0"
  shows "lru_Add vlen c key v = None"
proof -
  from assms(1) have "lru_inv vlen (lru_upsert vlen c key v)" by (simp add: lru_upsert)
  moreover from assms(2) have "maxBytes (lru_upsert vlen c key v) < 0" by simp
  ultimately show ?thesis by (simp add: lru_Add_def lru_evict_negative)
qed

theorem lru_Add_negative_bound_diverges_witness:
  "lru_Add length (lru_New (-1) False :: string lru_cache) ''k'' ''v'' = None"
  by (rule lru_Add_negative_bound_diverges [OF lru_inv_New]) (simp add: lru_New_def)

text \<open>
  C7: the eviction loop computes the longest prefix that fits. When the bound is
  positive, the entries left by the loop are a prefix of the list it started from,
  fit the bound, and no longer prefix fits it.
\<close>

theorem lru_evict_longest_prefix:
  assumes "lru_inv vlen c" and "0 < maxBytes c" and "lru_evict vlen c = Some c'"
  shows "lru_abs c' = take (length (lru_abs c')) (lru_abs c) \<and>
         a_size vlen (lru_abs c') \<le> maxBytes c \<and>
         (\<forall>m \<le> length (lru_abs c). a_size vlen (take m (lru_abs c)) \<le> maxBytes c \<longrightarrow>
            m \<le> length (lru_abs c'))"
proof -
  from assms(2) have "0 \<le> maxBytes c" by simp
  from lru_evict_spec [OF assms(1) this] assms(2,3)
  have a: "lru_abs c' = a_keep vlen (maxBytes c) (lru_abs c)" by auto
  have "a_keep vlen (maxBytes c) (lru_abs c) @
        drop (length (a_keep vlen (maxBytes c) (lru_abs c))) (lru_abs c) = lru_abs c"
    by (rule a_keep_append_drop)
  then have "lru_abs c' = take (length (lru_abs c')) (lru_abs c)"
    using a by (metis append_eq_conv_conj)
  moreover have "a_size vlen (lru_abs c') \<le> maxBytes c"
    using a assms(2) by (simp add: a_keep_size)
  moreover have "\<forall>m \<le> length (lru_abs c). a_size vlen (take m (lru_abs c)) \<le> maxBytes c \<longrightarrow>
            m \<le> length (lru_abs c')"
  proof (intro allI impI)
    fix m
    assume "m \<le> length (lru_abs c)" and "a_size vlen (take m (lru_abs c)) \<le> maxBytes c"
    then have "m \<le> length (a_keep vlen (maxBytes c) (lru_abs c))"
      by (intro a_keep_longest)
    with a show "m \<le> length (lru_abs c')" by simp
  qed
  ultimately show ?thesis by blast
qed

theorem lru_evict_longest_prefix_witness:
  "lru_abs lru_ex_CA = take 2 (lru_abs (lru_upsert length lru_ex_AB ''C'' ''c'')) \<and>
   a_size length (lru_abs lru_ex_CA) \<le> 4 \<and> 2 \<le> length (lru_abs lru_ex_CA)"
proof -
  have inv: "lru_inv length (lru_upsert length lru_ex_AB ''C'' ''c'')"
    using lru_upsert [OF lru_ex_AB_inv] by blast
  have ev: "lru_evict length (lru_upsert length lru_ex_AB ''C'' ''c'') = Some lru_ex_CA"
    using lru_ex_Add_C by (simp only: lru_Add_def)
  have m: "maxBytes (lru_upsert length lru_ex_AB ''C'' ''c'') = 4" by simp
  then have "0 < maxBytes (lru_upsert length lru_ex_AB ''C'' ''c'')" by simp
  from lru_evict_longest_prefix [OF inv this ev]
  have "lru_abs lru_ex_CA = take (length (lru_abs lru_ex_CA)) (lru_abs (lru_upsert length lru_ex_AB ''C'' ''c'')) \<and>
        a_size length (lru_abs lru_ex_CA) \<le> 4 \<and>
        (a_size length (take 2 (lru_abs (lru_upsert length lru_ex_AB ''C'' ''c''))) \<le> 4 \<longrightarrow>
         2 \<le> length (lru_abs lru_ex_CA))"
    unfolding m by (simp add: lru_upsert_def lru_abs_def)
  then show ?thesis by (simp add: lru_upsert_def lru_abs_def a_size_def)
qed

text \<open>
  With bound 0 the store is unbounded: \<open>Add\<close> always returns, evicts
  nothing, and grows the store by one entry exactly when the key is new.
\<close>

theorem lru_Add_unbounded_never_evicts:
  assumes "lru_inv vlen c" and "maxBytes c = 0"
  shows "\<exists>c'. lru_Add vlen c key v = Some c' \<and> evicted c' = evicted c \<and>
     lru_Len c' = lru_Len c + (if cache c key = None then 1 else 0)"
proof -
  from assms have "0 \<le> maxBytes c" by simp
  from lru_Add_spec [OF assms(1) this, of key v] obtain c' where
    r: "lru_Add vlen c key v = Some c'"
    and a: "lru_abs c' = a_add vlen (maxBytes c) key v (lru_abs c)"
    and e: "evicted c' = evicted c @
       (if onEvicted c then rev (drop (length (lru_abs c'))
          ((key, v) # filter (\<lambda>p. fst p \<noteq> key) (lru_abs c))) else [])"
    by blast
  from a assms(2) have a': "lru_abs c' = (key, v) # filter (\<lambda>p. fst p \<noteq> key) (lru_abs c)"
    by (simp add: a_add_def)
  then have "evicted c' = evicted c" using e by simp
  moreover have "lru_Len c' = lru_Len c + (if cache c key = None then 1 else 0)"
  proof (cases "cache c key")
    case None
    with assms(1) have "\<forall>e\<in>set (ll c). entry_key (elems c e) \<noteq> key" by (rule lru_inv_cache_None)
    then have "filter (\<lambda>p. fst p \<noteq> key) (lru_abs c) = lru_abs c"
      by (auto simp: lru_abs_def filter_id_conv)
    with a' None show ?thesis by (simp add: lru_Len_def flip: lru_length_abs)
  next
    case (Some e)
    with assms(1) have e: "e \<in> set (ll c)" and ke: "entry_key (elems c e) = key"
      by (blast dest: lru_inv_cache_Some)+
    moreover from assms(1) have "distinct (map (\<lambda>e. entry_key (elems c e)) (ll c))"
      by (simp add: lru_inv_def)
    ultimately have "filter (\<lambda>x. entry_key (elems c x) \<noteq> entry_key (elems c e)) (ll c) = remove1 e (ll c)"
      by (intro filter_key_remove1)
    then have "length (filter (\<lambda>p. fst p \<noteq> key) (lru_abs c)) = length (ll c) - 1"
      using ke e by (simp add: lru_abs_def filter_map comp_def length_remove1)
    with a' Some e show ?thesis
      by (cases "ll c") (auto simp: lru_Len_def simp flip: lru_length_abs)
  qed
  ultimately show ?thesis using r by blast
qed

theorem lru_Add_unbounded_never_evicts_witness:
  "\<exists>c'. lru_Add length (lru_New 0 True) ''k'' ''v'' = Some c' \<and> evicted c' = [] \<and> lru_Len c' = 1"
proof -
  have "\<exists>c'. lru_Add length (lru_New 0 True) ''k'' ''v'' = Some c' \<and>
      evicted c' = evicted (lru_New 0 True :: string lru_cache) \<and>
      lru_Len c' = lru_Len (lru_New 0 True :: string lru_cache) +
        (if cache (lru_New 0 True :: string lru_cache) ''k'' = None then 1 else 0)"
    by (rule lru_Add_unbounded_never_evicts [OF lru_inv_New]) (simp add: lru_New_def)
  then show ?thesis by (simp add: lru_New_def lru_Len_def)
qed

end
