(* ===== verification/GoList.thy ===== *)
theory GoList
  imports Prelude "HOL-Library.Monad_Syntax"
begin

text \<open>
  Go's \<open>container/list\<close>, the doubly linked list behind the LRU store. A
  \<open>List\<close> is a sentinel element \<open>root\<close> and a length; the list is the ring
  \<open>root \<rightarrow> e\<^sub>1 \<rightarrow> \<dots> \<rightarrow> e\<^sub>n \<rightarrow> root\<close> through \<open>next\<close> and the reverse ring
  through \<open>prev\<close>. The model keeps the pointer fields of all elements in two
  maps over pointers (\<open>None\<close> is Go's \<open>nil\<close>), the \<open>list\<close> back-pointer of an
  element as the set \<open>owner\<close> of elements whose \<open>list\<close> field is this list,
  the \<open>Value\<close> fields in \<open>dval\<close>, and the next free address \<open>dnext\<close>.
  Every dereference of a pointer field goes through \<open>set_next\<close> /
  \<open>set_prev\<close>, which return \<open>None\<close> (a nil-pointer panic) on \<open>nil\<close>.
\<close>

datatype lptr = Root | El nat

record 'a dlist =
  nxt :: "lptr \<Rightarrow> lptr option"
  prv :: "lptr \<Rightarrow> lptr option"
  owner :: "nat set"
  dval :: "nat \<Rightarrow> 'a"
  dlen :: nat
  dnext :: nat

text \<open>\<open>x.next = v\<close> and \<open>x.prev = v\<close> for a pointer expression \<open>x\<close> that may be nil.\<close>

definition set_next :: "lptr option \<Rightarrow> lptr option \<Rightarrow> 'a dlist \<Rightarrow> 'a dlist option" where
  "set_next x v l = (case x of None \<Rightarrow> None | Some p \<Rightarrow> Some (l\<lparr>nxt := (nxt l)(p := v)\<rparr>))"

definition set_prev :: "lptr option \<Rightarrow> lptr option \<Rightarrow> 'a dlist \<Rightarrow> 'a dlist option" where
  "set_prev x v l = (case x of None \<Rightarrow> None | Some p \<Rightarrow> Some (l\<lparr>prv := (prv l)(p := v)\<rparr>))"

definition list_Init :: "'a dlist \<Rightarrow> 'a dlist" where
  "list_Init l = l\<lparr>nxt := (nxt l)(Root := Some Root), prv := (prv l)(Root := Some Root), dlen := 0\<rparr>"

definition list_New :: "'a dlist" where
  "list_New = list_Init \<lparr>nxt = (\<lambda>_. None), prv = (\<lambda>_. None), owner = {},
     dval = (\<lambda>_. undefined), dlen = 0, dnext = 0\<rparr>"

definition list_Len :: "'a dlist \<Rightarrow> nat" where
  "list_Len l = dlen l"

definition list_Back :: "'a dlist \<Rightarrow> lptr option" where
  "list_Back l = (if dlen l = 0 then None else prv l Root)"

definition lazyInit :: "'a dlist \<Rightarrow> 'a dlist" where
  "lazyInit l = (if nxt l Root = None then list_Init l else l)"

text \<open>\<open>insert(e, at)\<close>: the four pointer writes in Go's order, each reading the fields as
  the previous writes left them.\<close>

definition list_insert :: "'a dlist \<Rightarrow> nat \<Rightarrow> lptr \<Rightarrow> 'a dlist option" where
  "list_insert l n at =
     (let e = El n;
          l1 = l\<lparr>prv := (prv l)(e := Some at)\<rparr>;
          l2 = l1\<lparr>nxt := (nxt l1)(e := nxt l1 at)\<rparr>
      in do {
        l3 \<leftarrow> set_next (prv l2 e) (Some e) l2;
        l4 \<leftarrow> set_prev (nxt l3 e) (Some e) l3;
        Some (l4\<lparr>owner := insert n (owner l4), dlen := Suc (dlen l4)\<rparr>)
      })"

text \<open>\<open>insertValue(v, at)\<close>: a fresh zeroed \<open>Element{Value: v}\<close> at the next address.\<close>

definition list_insertValue :: "'a dlist \<Rightarrow> 'a \<Rightarrow> lptr \<Rightarrow> (nat \<times> 'a dlist) option" where
  "list_insertValue l v at =
     (let n = dnext l;
          l1 = l\<lparr>nxt := (nxt l)(El n := None), prv := (prv l)(El n := None),
                 owner := owner l - {n}, dval := (dval l)(n := v), dnext := Suc n\<rparr>
      in map_option (\<lambda>l'. (n, l')) (list_insert l1 n at))"

definition list_remove :: "'a dlist \<Rightarrow> nat \<Rightarrow> 'a dlist option" where
  "list_remove l n =
     (let e = El n in do {
        l1 \<leftarrow> set_next (prv l e) (nxt l e) l;
        l2 \<leftarrow> set_prev (nxt l1 e) (prv l1 e) l1;
        Some (l2\<lparr>nxt := (nxt l2)(e := None), prv := (prv l2)(e := None),
                 owner := owner l2 - {n}, dlen := dlen l2 - 1\<rparr>)
      })"

definition list_move :: "'a dlist \<Rightarrow> nat \<Rightarrow> lptr \<Rightarrow> 'a dlist option" where
  "list_move l n at =
     (let e = El n in
      if e = at then Some l
      else do {
        l1 \<leftarrow> set_next (prv l e) (nxt l e) l;
        l2 \<leftarrow> set_prev (nxt l1 e) (prv l1 e) l1;
        let l3 = l2\<lparr>prv := (prv l2)(e := Some at)\<rparr>;
        let l4 = l3\<lparr>nxt := (nxt l3)(e := nxt l3 at)\<rparr>;
        l5 \<leftarrow> set_next (prv l4 e) (Some e) l4;
        set_prev (nxt l5 e) (Some e) l5
      })"

definition list_Remove :: "'a dlist \<Rightarrow> nat \<Rightarrow> ('a \<times> 'a dlist) option" where
  "list_Remove l n =
     (if n \<in> owner l then map_option (\<lambda>l'. (dval l' n, l')) (list_remove l n)
      else Some (dval l n, l))"

definition list_PushFront :: "'a dlist \<Rightarrow> 'a \<Rightarrow> (nat \<times> 'a dlist) option" where
  "list_PushFront l v = list_insertValue (lazyInit l) v Root"

definition list_MoveToFront :: "'a dlist \<Rightarrow> nat \<Rightarrow> 'a dlist option" where
  "list_MoveToFront l n =
     (if n \<notin> owner l \<or> nxt l Root = Some (El n) then Some l else list_move l n Root)"

section \<open>The ring of a list and its invariant\<close>

text \<open>\<open>links h ps\<close>: following \<open>h\<close> from each pointer of \<open>ps\<close> gives the next one
  (the path predicate of the pointer-list developments, over a pointer list).\<close>

fun links :: "(lptr \<Rightarrow> lptr option) \<Rightarrow> lptr list \<Rightarrow> bool" where
  "links h (p # q # ps) = (h p = Some q \<and> links h (q # ps))"
| "links h _ = True"

definition ring :: "nat list \<Rightarrow> lptr list" where
  "ring xs = Root # map El xs @ [Root]"

definition dl_inv :: "'a dlist \<Rightarrow> nat list \<Rightarrow> bool" where
  "dl_inv l xs \<longleftrightarrow>
     links (nxt l) (ring xs) \<and> links (prv l) (ring (rev xs)) \<and> distinct xs \<and>
     dlen l = length xs \<and> owner l = set xs \<and> (\<forall>n\<in>set xs. n < dnext l)"

fun walk :: "(lptr \<Rightarrow> lptr option) \<Rightarrow> nat \<Rightarrow> lptr \<Rightarrow> nat list" where
  "walk h 0 p = []"
| "walk h (Suc k) p = (case h p of Some (El a) \<Rightarrow> a # walk h k (El a) | _ \<Rightarrow> [])"

definition dl_abs :: "'a dlist \<Rightarrow> nat list" where
  "dl_abs l = walk (nxt l) (dlen l) Root"

definition firstp :: "nat list \<Rightarrow> lptr" where
  "firstp xs = (if xs = [] then Root else El (hd xs))"

definition lastp :: "nat list \<Rightarrow> lptr" where
  "lastp xs = (if xs = [] then Root else El (last xs))"

section \<open>Pointer lists\<close>

lemma links_append: "links h (xs @ y # ys) \<longleftrightarrow> links h (xs @ [y]) \<and> links h (y # ys)"
  by (induction xs rule: induct_list012) auto

lemma links_upd: "u \<notin> set (butlast ps) \<Longrightarrow> links (h(u := v)) ps = links h ps"
  by (induction h ps rule: links.induct) auto

lemma links_unlink:
  assumes lk: "links h (L @ e # R)" and ne: "L \<noteq> []" "R \<noteq> []"
    and d: "distinct (L @ e # butlast R)"
  shows "links (h(last L := Some (hd R))) (L @ R)" and "h (last L) = Some e"
    and "h e = Some (hd R)"
proof -
  obtain L' p where L: "L = L' @ [p]" using ne(1) by (cases L rule: rev_cases) auto
  obtain s R' where R: "R = s # R'" using ne(2) by (cases R) auto
  have "links h (L' @ [p]) \<and> links h (p # e # s # R')"
    using lk links_append [of h L' p "e # s # R'"] by (simp add: L R)
  then have a: "links h (L' @ [p])" "h p = Some e" "h e = Some s" "links h (s # R')" by simp_all
  have p1: "p \<notin> set (butlast (L' @ [p]))" and p2: "p \<notin> set (butlast (s # R'))"
    using d by (auto simp: L R dest: in_set_butlastD)
  have "links (h(p := Some s)) (L' @ [p] @ s # R')"
    using a links_upd [OF p1, of h] links_upd [OF p2, of h] links_append [of _ L' p "s # R'"]
    by simp
  then show "links (h(last L := Some (hd R))) (L @ R)" by (simp add: L R)
  show "h (last L) = Some e" "h e = Some (hd R)" using a by (simp_all add: L R)
qed

lemma links_push:
  assumes lk: "links h (p # R)" and ne: "R \<noteq> []"
    and e: "e \<notin> set (p # butlast R)" and p: "p \<notin> set (butlast R)"
  shows "links (h(e := Some (hd R), p := Some e)) (p # e # R)"
proof -
  obtain s R' where R: "R = s # R'" using ne by (cases R) auto
  have "links h (s # R')" using lk by (simp add: R)
  moreover have "e \<notin> set (butlast (s # R'))" "p \<notin> set (butlast (s # R'))"
    using e p by (simp_all add: R)
  ultimately have "links (h(e := Some s, p := Some e)) (s # R')"
    by (simp add: links_upd)
  then show ?thesis using e by (simp add: R)
qed

lemma links_push_back:
  assumes lk: "links h (L @ [p])" and ne: "L \<noteq> []"
    and e: "e \<notin> set L" and d: "distinct L"
  shows "links (h(e := Some p, last L := Some e)) (L @ [e, p])"
proof -
  obtain L' q where L: "L = L' @ [q]" using ne by (cases L rule: rev_cases) auto
  have "links h (L' @ [q])" using lk links_append [of h L' q "[p]"] by (simp add: L)
  moreover have "e \<notin> set (butlast (L' @ [q]))" "q \<notin> set (butlast (L' @ [q]))"
    using e d by (simp_all add: L)
  ultimately have "links (h(e := Some p, q := Some e)) (L' @ [q])"
    by (simp add: links_upd)
  moreover have "e \<noteq> q" using e by (simp add: L)
  ultimately show ?thesis using links_append [of _ L' q "[e, p]"] by (simp add: L)
qed

section \<open>Rings\<close>

lemma inj_on_El [simp]: "inj_on El A"
  by (simp add: inj_on_def)

lemma butlast_ring [simp]: "butlast (ring xs) = Root # map El xs"
  by (simp add: ring_def butlast_append)

lemma ring_rev_split: "ring (rev (ys @ n # zs)) = ring (rev zs @ n # rev ys)"
  by simp

lemma firstp_rev [simp]: "firstp (rev xs) = lastp xs"
  by (simp add: firstp_def lastp_def hd_rev)

lemma lastp_rev [simp]: "lastp (rev xs) = firstp xs"
  by (simp add: firstp_def lastp_def last_rev)

lemma firstp_not_El [simp]: "n \<notin> set xs \<Longrightarrow> firstp xs \<noteq> El n"
  by (auto simp: firstp_def dest: hd_in_set)

lemma lastp_not_El [simp]: "n \<notin> set xs \<Longrightarrow> lastp xs \<noteq> El n"
  by (auto simp: lastp_def dest: last_in_set)

lemma El_not_firstp [simp]: "n \<notin> set xs \<Longrightarrow> El n \<noteq> firstp xs"
  using firstp_not_El by metis

lemma El_not_lastp [simp]: "n \<notin> set xs \<Longrightarrow> El n \<noteq> lastp xs"
  using lastp_not_El by metis

lemma ring_frame: "n \<notin> set xs \<Longrightarrow> links (h(El n := v)) (ring xs) = links h (ring xs)"
  by (rule links_upd) auto

lemma ring_Root: "links h (ring xs) \<Longrightarrow> h Root = Some (firstp xs)"
  by (cases xs) (simp_all add: ring_def firstp_def)

lemma ring_unlink:
  assumes lk: "links h (ring (ys @ n # zs))" and d: "distinct (ys @ n # zs)"
  shows "links (h(lastp ys := Some (firstp zs))) (ring (ys @ zs))"
    and "h (lastp ys) = Some (El n)" and "h (El n) = Some (firstp zs)"
proof -
  let ?L = "Root # map El ys" and ?R = "map El zs @ [Root]"
  have r: "ring (ys @ n # zs) = ?L @ El n # ?R" and r': "ring (ys @ zs) = ?L @ ?R"
    by (simp_all add: ring_def)
  have l: "last ?L = lastp ys" and h: "hd ?R = firstp zs"
    by (simp_all add: lastp_def firstp_def last_map hd_map)
  have "distinct (?L @ El n # butlast ?R)" using d by (auto simp: butlast_append distinct_map)
  moreover have "?L \<noteq> []" and "?R \<noteq> []" by simp_all
  ultimately have u: "links (h(last ?L := Some (hd ?R))) (?L @ ?R)"
      "h (last ?L) = Some (El n)" "h (El n) = Some (hd ?R)"
    using links_unlink [OF lk [unfolded r]] by blast+
  show "links (h(lastp ys := Some (firstp zs))) (ring (ys @ zs))"
    using u(1) by (simp only: r' l h)
  show "h (lastp ys) = Some (El n)" "h (El n) = Some (firstp zs)"
    using u(2,3) by (simp_all only: l h)
qed

lemma ring_push:
  assumes "links h (ring xs)" and "n \<notin> set xs"
  shows "links (h(El n := Some (firstp xs), Root := Some (El n))) (ring (n # xs))"
proof -
  have "links h (Root # (map El xs @ [Root]))" using assms(1) by (simp add: ring_def)
  then have "links (h(El n := Some (hd (map El xs @ [Root])), Root := Some (El n)))
      (Root # El n # map El xs @ [Root])"
    by (rule links_push) (use assms(2) in \<open>auto simp: butlast_append\<close>)
  moreover have "hd (map El xs @ [Root]) = firstp xs" by (cases xs) (simp_all add: firstp_def)
  ultimately show ?thesis by (simp add: ring_def)
qed

lemma ring_push_back:
  assumes "links h (ring (rev xs))" and "n \<notin> set xs" and "distinct xs"
  shows "links (h(El n := Some Root, firstp xs := Some (El n))) (ring (rev (n # xs)))"
proof -
  have "links h ((Root # map El (rev xs)) @ [Root])" using assms(1) by (simp add: ring_def)
  then have "links (h(El n := Some Root, last (Root # map El (rev xs)) := Some (El n)))
      ((Root # map El (rev xs)) @ [El n, Root])"
    by (rule links_push_back) (use assms(2,3) in \<open>auto simp: distinct_map\<close>)
  moreover have "last (Root # map El (rev xs)) = firstp xs"
    by (cases xs) (simp_all add: firstp_def last_map)
  ultimately show ?thesis by (simp add: ring_def)
qed

section \<open>The operations on a well-formed list\<close>

lemma set_next_Some [simp]: "set_next (Some p) v l = Some (l\<lparr>nxt := (nxt l)(p := v)\<rparr>)"
  by (simp add: set_next_def)

lemma set_prev_Some [simp]: "set_prev (Some p) v l = Some (l\<lparr>prv := (prv l)(p := v)\<rparr>)"
  by (simp add: set_prev_def)

lemma dl_inv_New: "dl_inv list_New []"
  by (simp add: dl_inv_def list_New_def list_Init_def ring_def)

lemma links_walk: "links h (p # map El xs @ [q]) \<Longrightarrow> walk h (length xs) p = xs"
  by (induction xs arbitrary: p) auto

lemma dl_inv_abs: "dl_inv l xs \<Longrightarrow> dl_abs l = xs"
  unfolding dl_inv_def dl_abs_def ring_def by (auto intro: links_walk)

lemma list_Back_inv:
  "dl_inv l xs \<Longrightarrow> list_Back l = (if xs = [] then None else Some (El (last xs)))"
  by (auto simp: list_Back_def dl_inv_def lastp_def dest!: ring_Root)

lemma list_Len_inv: "dl_inv l xs \<Longrightarrow> list_Len l = length xs"
  by (simp add: list_Len_def dl_inv_def)

lemma lazyInit_inv: "dl_inv l xs \<Longrightarrow> lazyInit l = l"
  by (auto simp: lazyInit_def dl_inv_def dest!: ring_Root)

text \<open>The two writes that unlink \<open>e\<close> (shared by \<open>remove\<close> and \<open>move\<close>) on a
  well-formed list \<open>ys @ n # zs\<close>.\<close>

lemma dl_unlink:
  assumes inv: "dl_inv l (ys @ n # zs)"
  shows "nxt l (El n) = Some (firstp zs)" and "prv l (El n) = Some (lastp ys)"
    and "links ((nxt l)(lastp ys := Some (firstp zs))) (ring (ys @ zs))"
    and "links ((prv l)(firstp zs := Some (lastp ys))) (ring (rev (ys @ zs)))"
proof -
  from inv have f: "links (nxt l) (ring (ys @ n # zs))" and d: "distinct (ys @ n # zs)"
    and b: "links (prv l) (ring (rev zs @ n # rev ys))" by (simp_all add: dl_inv_def)
  have d': "distinct (rev zs @ n # rev ys)" using d by auto
  show "nxt l (El n) = Some (firstp zs)"
    and "links ((nxt l)(lastp ys := Some (firstp zs))) (ring (ys @ zs))"
    using ring_unlink [OF f d] by simp_all
  show "prv l (El n) = Some (lastp ys)"
    and "links ((prv l)(firstp zs := Some (lastp ys))) (ring (rev (ys @ zs)))"
    using ring_unlink [OF b d'] by simp_all
qed

lemma list_remove_inv:
  assumes inv: "dl_inv l xs" and n: "n \<in> set xs"
  shows "\<exists>l'. list_remove l n = Some l' \<and> dl_inv l' (remove1 n xs) \<and>
           dval l' = dval l \<and> dnext l' = dnext l"
proof -
  obtain ys zs where xs: "xs = ys @ n # zs" using n by (blast dest: split_list)
  with inv have inv': "dl_inv l (ys @ n # zs)" by simp
  then have d: "distinct (ys @ n # zs)" by (simp add: dl_inv_def)
  note u = dl_unlink [OF inv']
  let ?l' = "l\<lparr>nxt := ((nxt l)(lastp ys := Some (firstp zs)))(El n := None),
                prv := ((prv l)(firstp zs := Some (lastp ys)))(El n := None),
                owner := owner l - {n}, dlen := dlen l - 1\<rparr>"
  have "list_remove l n = Some ?l'"
    using u(1,2) d by (simp add: list_remove_def Let_def)
  moreover have "dl_inv ?l' (ys @ zs)"
    using inv' u(3,4) d by (auto simp: dl_inv_def ring_frame)
  moreover have "remove1 n xs = ys @ zs" using d by (simp add: xs remove1_append)
  ultimately show ?thesis by simp
qed

lemma list_move_front_inv:
  assumes inv: "dl_inv l (ys @ n # zs)"
  shows "\<exists>l'. list_move l n Root = Some l' \<and> dl_inv l' (n # ys @ zs) \<and>
           dval l' = dval l \<and> dnext l' = dnext l"
proof -
  from inv have d: "distinct (ys @ n # zs)" by (simp add: dl_inv_def)
  note u = dl_unlink [OF inv]
  let ?nx = "(nxt l)(lastp ys := Some (firstp zs))"
  let ?pv = "(prv l)(firstp zs := Some (lastp ys))"
  have r: "?nx Root = Some (firstp (ys @ zs))" using u(3) by (rule ring_Root)
  let ?l' = "l\<lparr>nxt := ?nx(El n := Some (firstp (ys @ zs)), Root := Some (El n)),
                prv := ?pv(El n := Some Root, firstp (ys @ zs) := Some (El n))\<rparr>"
  have "list_move l n Root = Some ?l'"
    using u(1,2) d r by (simp add: list_move_def Let_def)
  moreover have "links (nxt ?l') (ring (n # ys @ zs))"
    using ring_push [OF u(3)] d by simp
  moreover have "links (prv ?l') (ring (rev (n # ys @ zs)))"
    using ring_push_back [OF u(4)] d by simp
  ultimately show ?thesis using inv d by (auto simp: dl_inv_def)
qed

lemma list_MoveToFront_inv:
  assumes inv: "dl_inv l xs" and n: "n \<in> set xs"
  shows "\<exists>l'. list_MoveToFront l n = Some l' \<and> dl_inv l' (n # remove1 n xs) \<and>
           dval l' = dval l \<and> dnext l' = dnext l"
proof (cases "nxt l Root = Some (El n)")
  case True
  have "nxt l Root = Some (firstp xs)" using inv by (simp add: dl_inv_def ring_Root)
  with True n have "xs = n # tl xs" by (cases xs) (simp_all add: firstp_def)
  then have "n # remove1 n xs = xs" by (metis remove1.simps(2))
  with True inv show ?thesis by (simp add: list_MoveToFront_def)
next
  case False
  obtain ys zs where xs: "xs = ys @ n # zs" using n by (blast dest: split_list)
  have "n \<in> owner l" and "distinct xs" using inv n by (simp_all add: dl_inv_def)
  then have "list_MoveToFront l n = list_move l n Root" and "remove1 n xs = ys @ zs"
    using False by (simp_all add: list_MoveToFront_def xs remove1_append)
  with list_move_front_inv [of l ys n zs] inv show ?thesis by (simp add: xs)
qed

lemma list_Remove_inv:
  assumes inv: "dl_inv l xs" and n: "n \<in> set xs"
  shows "\<exists>l'. list_Remove l n = Some (dval l n, l') \<and> dl_inv l' (remove1 n xs) \<and>
           dval l' = dval l \<and> dnext l' = dnext l"
  using list_remove_inv [OF inv n] inv n by (auto simp: list_Remove_def dl_inv_def)

lemma list_PushFront_inv:
  assumes inv: "dl_inv l xs"
  shows "\<exists>l'. list_PushFront l v = Some (dnext l, l') \<and> dl_inv l' (dnext l # xs) \<and>
           dval l' = (dval l)(dnext l := v) \<and> dnext l' = Suc (dnext l)"
proof -
  let ?n = "dnext l"
  from inv have f: "links (nxt l) (ring xs)" and b: "links (prv l) (ring (rev xs))"
    and d: "distinct xs" and fresh: "?n \<notin> set xs"
    by (auto simp: dl_inv_def)
  have r: "nxt l Root = Some (firstp xs)" using f by (rule ring_Root)
  let ?l' = "l\<lparr>nxt := (nxt l)(El ?n := Some (firstp xs), Root := Some (El ?n)),
                prv := (prv l)(El ?n := Some Root, firstp xs := Some (El ?n)),
                owner := insert ?n (owner l), dval := (dval l)(?n := v), dlen := Suc (dlen l),
                dnext := Suc ?n\<rparr>"
  have "list_PushFront l v = Some (?n, ?l')"
    using r fresh lazyInit_inv [OF inv]
    by (simp add: list_PushFront_def list_insertValue_def list_insert_def Let_def)
  moreover have "links (nxt ?l') (ring (?n # xs))"
    using ring_push [OF f fresh] by simp
  moreover have "links (prv ?l') (ring (rev (?n # xs)))"
    using ring_push_back [OF b fresh d] by simp
  ultimately show ?thesis using inv fresh by (auto simp: dl_inv_def)
qed

end
