(* ===== verification/LRUHeap.thy ===== *)
theory LRUHeap
  imports LRU GoList
begin

text \<open>
  \<open>src/lru/lru.go\<close> at the level of its pointers: the \<open>Cache\<close> of the Go code
  holding a real \<open>container/list\<close> (theory \<open>GoList\<close>) whose elements carry the
  entries, and a map from keys to element addresses. Every list call may panic
  (\<open>None\<close>), and so may the type assertion \<open>ele.Value.(*entry)\<close> on the sentinel.
  The relation \<open>dlru_rel\<close> ties such a store to the sequence model of theory
  \<open>LRU\<close>, and the lemmas show that \<open>Get\<close> and \<open>Add\<close> on the pointer store never
  panic and do what the sequence model does, divergence of the eviction loop
  included.
\<close>

record 'v dlru =
  d_maxBytes :: int
  d_nbytes :: int
  d_ll :: "'v entry dlist"
  d_cache :: "string \<rightharpoonup> nat"
  d_onEvicted :: bool
  d_evicted :: "(string \<times> 'v) list"

definition dlru_New :: "int \<Rightarrow> bool \<Rightarrow> 'v dlru" where
  "dlru_New mb cb =
     \<lparr>d_maxBytes = mb, d_nbytes = 0, d_ll = list_New, d_cache = Map.empty,
      d_onEvicted = cb, d_evicted = []\<rparr>"

definition dlru_Get :: "'v dlru \<Rightarrow> string \<Rightarrow> ('v option \<times> 'v dlru) option" where
  "dlru_Get d key =
     (case d_cache d key of
        Some ele \<Rightarrow> do {
          l \<leftarrow> list_MoveToFront (d_ll d) ele;
          let kv = dval l ele;
          Some (Some (entry_value kv), d\<lparr>d_ll := l\<rparr>)
        }
      | None \<Rightarrow> Some (None, d))"

text \<open>\<open>Back()\<close> may return the sentinel only on a corrupted list; \<open>Remove\<close> leaves
  it alone (its \<open>list\<close> field is nil) and the assertion \<open>ele.Value.(*entry)\<close> on
  its nil \<open>Value\<close> panics.\<close>

definition dlru_RemoveOldest :: "'v value_len \<Rightarrow> 'v dlru \<Rightarrow> 'v dlru option" where
  "dlru_RemoveOldest vlen d =
     (case list_Back (d_ll d) of
        None \<Rightarrow> Some d
      | Some Root \<Rightarrow> None
      | Some (El ele) \<Rightarrow> do {
          (_, l) \<leftarrow> list_Remove (d_ll d) ele;
          let kv = dval l ele;
          Some (d\<lparr>d_ll := l, d_cache := (d_cache d)(entry_key kv := None),
                  d_nbytes := d_nbytes d - entry_size vlen kv,
                  d_evicted := (if d_onEvicted d then d_evicted d @ [(entry_key kv, entry_value kv)]
                                else d_evicted d)\<rparr>)
        })"

definition dlru_upsert :: "'v value_len \<Rightarrow> 'v dlru \<Rightarrow> string \<Rightarrow> 'v \<Rightarrow> 'v dlru option" where
  "dlru_upsert vlen d key value =
     (case d_cache d key of
        Some ele \<Rightarrow> do {
          l \<leftarrow> list_MoveToFront (d_ll d) ele;
          let kv = dval l ele;
          Some (d\<lparr>d_nbytes := d_nbytes d + int (vlen value) - int (vlen (entry_value kv)),
                  d_ll := l\<lparr>dval := (dval l)(ele := Entry (entry_key kv) value)\<rparr>\<rparr>)
        }
      | None \<Rightarrow> do {
          (ele, l) \<leftarrow> list_PushFront (d_ll d) (Entry key value);
          Some (d\<lparr>d_ll := l, d_cache := (d_cache d)(key \<mapsto> ele),
                  d_nbytes := d_nbytes d + int (length key) + int (vlen value)\<rparr>)
        })"

partial_function (option) dlru_evict :: "'v value_len \<Rightarrow> 'v dlru \<Rightarrow> 'v dlru option" where
  "dlru_evict vlen d =
     (if d_maxBytes d \<noteq> 0 \<and> d_maxBytes d < d_nbytes d
      then do { d' \<leftarrow> dlru_RemoveOldest vlen d; dlru_evict vlen d' }
      else Some d)"

declare dlru_evict.simps [code]

definition dlru_Add :: "'v value_len \<Rightarrow> 'v dlru \<Rightarrow> string \<Rightarrow> 'v \<Rightarrow> 'v dlru option" where
  "dlru_Add vlen d key value = do { d' \<leftarrow> dlru_upsert vlen d key value; dlru_evict vlen d' }"

definition dlru_Len :: "'v dlru \<Rightarrow> nat" where
  "dlru_Len d = list_Len (d_ll d)"

section \<open>Correspondence with the sequence model\<close>

text \<open>The sequence-model state a pointer store stands for: its list read off the
  \<open>next\<close> pointers from the sentinel, its entries in the elements' \<open>Value\<close>s.\<close>

definition lru_of :: "'v dlru \<Rightarrow> 'v lru_cache" where
  "lru_of d =
     \<lparr>maxBytes = d_maxBytes d, nbytes = d_nbytes d, ll = dl_abs (d_ll d), elems = dval (d_ll d),
      cache = d_cache d, onEvicted = d_onEvicted d, evicted = d_evicted d,
      next_elem = dnext (d_ll d)\<rparr>"

definition dlru_wf :: "'v value_len \<Rightarrow> 'v dlru \<Rightarrow> bool" where
  "dlru_wf vlen d \<longleftrightarrow> dl_inv (d_ll d) (dl_abs (d_ll d)) \<and> lru_inv vlen (lru_of d)"

definition dlru_abs :: "'v dlru \<Rightarrow> (string \<times> 'v) list" where
  "dlru_abs d = lru_abs (lru_of d)"

text \<open>The pointer store after \<open>New(4)\<close>, \<open>Add(A)\<close>, \<open>Add(B)\<close>, \<open>Get(A)\<close> (values of
  length 1, so each entry takes 2 bytes): the ring \<open>root \<rightarrow> A \<rightarrow> B \<rightarrow> root\<close>.\<close>

abbreviation dlru_ex_AB :: "string dlru" where
  "dlru_ex_AB \<equiv> \<lparr>d_maxBytes = 4, d_nbytes = 4,
     d_ll = \<lparr>nxt = [Root \<mapsto> El 0, El 0 \<mapsto> El 1, El 1 \<mapsto> Root],
             prv = [Root \<mapsto> El 1, El 1 \<mapsto> El 0, El 0 \<mapsto> Root], owner = {0, 1},
             dval = (\<lambda>_. undefined)(0 := Entry ''A'' ''a'', 1 := Entry ''B'' ''b''),
             dlen = 2, dnext = 2\<rparr>,
     d_cache = [''A'' \<mapsto> 0, ''B'' \<mapsto> 1], d_onEvicted = True, d_evicted = []\<rparr>"

text \<open>The pointer stores reachable from \<open>New\<close> with a non-negative bound through
  \<open>Get\<close> and \<open>Add\<close> calls that return (the mutex of \<open>src/cache.go\<close> serialises
  the calls).\<close>

inductive dlru_reach :: "'v value_len \<Rightarrow> 'v dlru \<Rightarrow> bool" for vlen where
  dreach_New: "0 \<le> mb \<Longrightarrow> dlru_reach vlen (dlru_New mb cb)"
| dreach_Get: "dlru_reach vlen d \<Longrightarrow> dlru_Get d k = Some (r, d') \<Longrightarrow> dlru_reach vlen d'"
| dreach_Add: "dlru_reach vlen d \<Longrightarrow> dlru_Add vlen d k v = Some d' \<Longrightarrow> dlru_reach vlen d'"

abbreviation dlru_ex_run :: "string dlru" where
  "dlru_ex_run \<equiv> the (Option.bind (dlru_Add length (dlru_New 4 True) ''A'' ''a'')
     (\<lambda>d. dlru_Add length d ''B'' ''b''))"

definition dlru_rel :: "'v lru_cache \<Rightarrow> 'v dlru \<Rightarrow> bool" where
  "dlru_rel c d \<longleftrightarrow>
     dl_inv (d_ll d) (ll c) \<and> dnext (d_ll d) = next_elem c \<and>
     (\<forall>e\<in>set (ll c). dval (d_ll d) e = elems c e) \<and>
     d_cache d = cache c \<and> d_nbytes d = nbytes c \<and> d_maxBytes d = maxBytes c \<and>
     d_onEvicted d = onEvicted c \<and> d_evicted d = evicted c"

lemma dl_inv_dval [simp]: "dl_inv (l\<lparr>dval := f\<rparr>) xs = dl_inv l xs"
  by (simp add: dl_inv_def)

lemma lru_inv_RemoveOldest: "lru_inv vlen c \<Longrightarrow> lru_inv vlen (lru_RemoveOldest vlen c)"
  using lru_RemoveOldest [of vlen c] by (cases "ll c = []") (auto simp: lru_RemoveOldest_def)

lemma dlru_rel_New: "dlru_rel (lru_New mb cb) (dlru_New mb cb)"
  using dl_inv_New
  by (simp add: dlru_rel_def lru_New_def dlru_New_def list_New_def list_Init_def)

lemma dlru_Get_sim:
  assumes inv: "lru_inv vlen c" and r: "dlru_rel c d"
  shows "\<exists>d'. dlru_Get d k = Some (fst (lru_Get c k), d') \<and> dlru_rel (snd (lru_Get c k)) d'"
proof (cases "cache c k")
  case None
  with r show ?thesis by (simp add: dlru_Get_def lru_Get_def dlru_rel_def)
next
  case (Some e)
  with inv have e: "e \<in> set (ll c)" by (blast dest: lru_inv_cache_Some)
  from r have li: "dl_inv (d_ll d) (ll c)" by (simp add: dlru_rel_def)
  obtain l' where mv: "list_MoveToFront (d_ll d) e = Some l'"
    and li': "dl_inv l' (e # remove1 e (ll c))" and dv: "dval l' = dval (d_ll d)"
    and dn: "dnext l' = dnext (d_ll d)"
    using list_MoveToFront_inv [OF li e] by blast
  have "set (e # remove1 e (ll c)) \<subseteq> set (ll c)" using e set_remove1_subset [of e "ll c"] by auto
  then show ?thesis using Some r mv li' dv dn e
    by (auto simp: dlru_Get_def lru_Get_def dlru_rel_def)
qed

lemma dlru_upsert_sim:
  assumes inv: "lru_inv vlen c" and r: "dlru_rel c d"
  shows "\<exists>d'. dlru_upsert vlen d k v = Some d' \<and> dlru_rel (lru_upsert vlen c k v) d'"
proof (cases "cache c k")
  case None
  from r have li: "dl_inv (d_ll d) (ll c)" by (simp add: dlru_rel_def)
  obtain l' where ps: "list_PushFront (d_ll d) (Entry k v) = Some (dnext (d_ll d), l')"
    and li': "dl_inv l' (dnext (d_ll d) # ll c)"
    and dv: "dval l' = (dval (d_ll d))(dnext (d_ll d) := Entry k v)"
    and dn: "dnext l' = Suc (dnext (d_ll d))"
    using list_PushFront_inv [OF li] by blast
  show ?thesis using None r ps li' dv dn
    by (auto simp: dlru_upsert_def lru_upsert_def dlru_rel_def Let_def)
next
  case (Some e)
  with inv have e: "e \<in> set (ll c)" by (blast dest: lru_inv_cache_Some)
  from r have li: "dl_inv (d_ll d) (ll c)" by (simp add: dlru_rel_def)
  obtain l' where mv: "list_MoveToFront (d_ll d) e = Some l'"
    and li': "dl_inv l' (e # remove1 e (ll c))" and dv: "dval l' = dval (d_ll d)"
    and dn: "dnext l' = dnext (d_ll d)"
    using list_MoveToFront_inv [OF li e] by blast
  have "set (e # remove1 e (ll c)) \<subseteq> set (ll c)" using e set_remove1_subset [of e "ll c"] by auto
  then show ?thesis using Some r mv li' dv dn e
    by (auto simp: dlru_upsert_def lru_upsert_def dlru_rel_def Let_def)
qed

lemma dlru_RemoveOldest_sim:
  assumes inv: "lru_inv vlen c" and r: "dlru_rel c d"
  shows "\<exists>d'. dlru_RemoveOldest vlen d = Some d' \<and> dlru_rel (lru_RemoveOldest vlen c) d'"
proof (cases "ll c = []")
  case True
  from r have "list_Back (d_ll d) = None"
    using list_Back_inv [of "d_ll d" "ll c"] by (simp add: dlru_rel_def True)
  with True r show ?thesis by (simp add: dlru_RemoveOldest_def lru_RemoveOldest_def)
next
  case False
  let ?e = "last (ll c)"
  from r have li: "dl_inv (d_ll d) (ll c)" by (simp add: dlru_rel_def)
  have e: "?e \<in> set (ll c)" using False by simp
  have bk: "list_Back (d_ll d) = Some (El ?e)" using li False by (simp add: list_Back_inv)
  obtain l' where rm: "list_Remove (d_ll d) ?e = Some (dval (d_ll d) ?e, l')"
    and li': "dl_inv l' (remove1 ?e (ll c))" and dv: "dval l' = dval (d_ll d)"
    and dn: "dnext l' = dnext (d_ll d)"
    using list_Remove_inv [OF li e] by blast
  have "set (remove1 ?e (ll c)) \<subseteq> set (ll c)" by (rule set_remove1_subset)
  then show ?thesis using False r bk rm li' dv dn e
    by (auto simp: dlru_RemoveOldest_def lru_RemoveOldest_def dlru_rel_def Let_def)
qed

lemma dlru_rel_guard:
  "dlru_rel c d \<Longrightarrow>
   (d_maxBytes d \<noteq> 0 \<and> d_maxBytes d < d_nbytes d) = (maxBytes c \<noteq> 0 \<and> maxBytes c < nbytes c)"
  by (simp add: dlru_rel_def)

lemma dlru_evict_stop:
  "\<not> (d_maxBytes d \<noteq> 0 \<and> d_maxBytes d < d_nbytes d) \<Longrightarrow> dlru_evict vlen d = Some d"
  by (subst dlru_evict.simps) auto

lemma dlru_evict_step:
  "d_maxBytes d \<noteq> 0 \<and> d_maxBytes d < d_nbytes d \<Longrightarrow> dlru_RemoveOldest vlen d = Some d1 \<Longrightarrow>
   dlru_evict vlen d = dlru_evict vlen d1"
  by (subst dlru_evict.simps) simp

text \<open>The two eviction loops run in lock step: one returns exactly when the other
  does, with related results.\<close>

lemma dlru_evict_sim_Some:
  assumes ret: "lru_evict vlen c = Some c'"
  shows "lru_inv vlen c \<longrightarrow> (\<forall>d. dlru_rel c d \<longrightarrow>
           (\<exists>d'. dlru_evict vlen d = Some d' \<and> dlru_rel c' d'))"
proof (rule lru_evict.raw_induct [where P = "\<lambda>vlen c c'. lru_inv vlen c \<longrightarrow> (\<forall>d. dlru_rel c d \<longrightarrow>
           (\<exists>d'. dlru_evict vlen d = Some d' \<and> dlru_rel c' d'))", OF _ ret])
  fix ev :: "'a value_len \<Rightarrow> 'a lru_cache \<Rightarrow> 'a lru_cache option" and vlen c c'
  assume IH: "\<And>vlen c c'. ev vlen c = Some c' \<Longrightarrow> lru_inv vlen c \<longrightarrow> (\<forall>d. dlru_rel c d \<longrightarrow>
           (\<exists>d'. dlru_evict vlen d = Some d' \<and> dlru_rel c' d'))"
    and eq: "(if maxBytes c \<noteq> 0 \<and> maxBytes c < nbytes c
              then ev vlen (lru_RemoveOldest vlen c) else Some c) = Some c'"
  show "lru_inv vlen c \<longrightarrow> (\<forall>d. dlru_rel c d \<longrightarrow>
           (\<exists>d'. dlru_evict vlen d = Some d' \<and> dlru_rel c' d'))"
  proof (intro impI allI)
    fix d assume inv: "lru_inv vlen c" and r: "dlru_rel c d"
    show "\<exists>d'. dlru_evict vlen d = Some d' \<and> dlru_rel c' d'"
    proof (cases "maxBytes c \<noteq> 0 \<and> maxBytes c < nbytes c")
      case True
      with eq have e1: "ev vlen (lru_RemoveOldest vlen c) = Some c'" by simp
      obtain d1 where d1: "dlru_RemoveOldest vlen d = Some d1"
        and r1: "dlru_rel (lru_RemoveOldest vlen c) d1"
        using dlru_RemoveOldest_sim [OF inv r] by blast
      obtain d' where "dlru_evict vlen d1 = Some d'" and "dlru_rel c' d'"
        using IH [OF e1] lru_inv_RemoveOldest [OF inv] r1 by blast
      then show ?thesis using True d1 dlru_rel_guard [OF r] by (simp add: dlru_evict_step)
    next
      case False
      with eq have "c' = c" by (simp split: if_splits)
      then show ?thesis using False r dlru_rel_guard [OF r] by (simp add: dlru_evict_stop)
    qed
  qed
qed

lemma dlru_evict_sim_back:
  assumes ret: "dlru_evict vlen d = Some d'"
  shows "\<forall>c. lru_inv vlen c \<longrightarrow> dlru_rel c d \<longrightarrow> (\<exists>c'. lru_evict vlen c = Some c' \<and> dlru_rel c' d')"
proof (rule dlru_evict.raw_induct [where P = "\<lambda>vlen d d'. \<forall>c. lru_inv vlen c \<longrightarrow> dlru_rel c d \<longrightarrow>
           (\<exists>c'. lru_evict vlen c = Some c' \<and> dlru_rel c' d')", OF _ ret])
  fix ev :: "'a value_len \<Rightarrow> 'a dlru \<Rightarrow> 'a dlru option" and vlen d d'
  assume IH: "\<And>vlen d d'. ev vlen d = Some d' \<Longrightarrow> \<forall>c. lru_inv vlen c \<longrightarrow> dlru_rel c d \<longrightarrow>
           (\<exists>c'. lru_evict vlen c = Some c' \<and> dlru_rel c' d')"
    and eq: "(if d_maxBytes d \<noteq> 0 \<and> d_maxBytes d < d_nbytes d
              then dlru_RemoveOldest vlen d \<bind> ev vlen else Some d) = Some d'"
  show "\<forall>c. lru_inv vlen c \<longrightarrow> dlru_rel c d \<longrightarrow> (\<exists>c'. lru_evict vlen c = Some c' \<and> dlru_rel c' d')"
  proof (intro impI allI)
    fix c assume inv: "lru_inv vlen c" and r: "dlru_rel c d"
    show "\<exists>c'. lru_evict vlen c = Some c' \<and> dlru_rel c' d'"
    proof (cases "maxBytes c \<noteq> 0 \<and> maxBytes c < nbytes c")
      case True
      obtain d1 where d1: "dlru_RemoveOldest vlen d = Some d1"
        and r1: "dlru_rel (lru_RemoveOldest vlen c) d1"
        using dlru_RemoveOldest_sim [OF inv r] by blast
      from eq True d1 dlru_rel_guard [OF r] have e1: "ev vlen d1 = Some d'" by simp
      obtain c' where "lru_evict vlen (lru_RemoveOldest vlen c) = Some c'" and "dlru_rel c' d'"
        using IH [OF e1] lru_inv_RemoveOldest [OF inv] r1 by blast
      then show ?thesis using True by (simp add: lru_evict_step)
    next
      case False
      with eq dlru_rel_guard [OF r] have "d' = d" by (simp split: if_splits)
      then show ?thesis using False r by (simp add: lru_evict_stop)
    qed
  qed
qed

lemma dlru_evict_sim:
  assumes inv: "lru_inv vlen c" and r: "dlru_rel c d"
  shows "rel_option dlru_rel (lru_evict vlen c) (dlru_evict vlen d)"
proof (cases "dlru_evict vlen d")
  case None
  have "lru_evict vlen c = None"
  proof (rule ccontr)
    assume "lru_evict vlen c \<noteq> None"
    then obtain c' where "lru_evict vlen c = Some c'" by blast
    with dlru_evict_sim_Some inv r None show False by fastforce
  qed
  with None show ?thesis by simp
next
  case (Some d')
  then obtain c' where "lru_evict vlen c = Some c'" and "dlru_rel c' d'"
    using dlru_evict_sim_back [OF Some] inv r by blast
  with Some show ?thesis by simp
qed

lemma dlru_wf_rel: "dlru_wf vlen d \<Longrightarrow> dlru_rel (lru_of d) d"
  by (simp add: dlru_wf_def dlru_rel_def lru_of_def)

lemma lru_inv_cong:
  assumes "ll c' = ll c" and "\<forall>e\<in>set (ll c). elems c' e = elems c e"
    and "next_elem c' = next_elem c" and "cache c' = cache c" and "nbytes c' = nbytes c"
  shows "lru_inv vlen c' = lru_inv vlen c" and "lru_abs c' = lru_abs c"
proof -
  have m: "\<And>f. map (\<lambda>e. f e (elems c' e)) (ll c) = map (\<lambda>e. f e (elems c e)) (ll c)"
    using assms(2) by simp
  have i1: "lru_index c' = lru_index c" unfolding lru_index_def assms(1) by (rule m)
  have i2: "map (\<lambda>e. entry_key (elems c' e)) (ll c) = map (\<lambda>e. entry_key (elems c e)) (ll c)"
    by (rule m)
  have i3: "map (\<lambda>e. entry_size vlen (elems c' e)) (ll c) =
      map (\<lambda>e. entry_size vlen (elems c e)) (ll c)" by (rule m)
  show "lru_inv vlen c' = lru_inv vlen c"
    unfolding lru_inv_def by (simp only: i1 i2 i3 assms(1,3,4,5))
  show "lru_abs c' = lru_abs c" unfolding lru_abs_def assms(1) by (rule m)
qed

lemma dlru_rel_wf:
  assumes r: "dlru_rel c d" and inv: "lru_inv vlen c"
  shows "dlru_wf vlen d" and "dlru_abs d = lru_abs c"
proof -
  from r have li: "dl_inv (d_ll d) (ll c)" by (simp add: dlru_rel_def)
  have ll: "dl_abs (d_ll d) = ll c" using li by (rule dl_inv_abs)
  note cg = lru_inv_cong [of "lru_of d" c]
  have "ll (lru_of d) = ll c" and "\<forall>e\<in>set (ll c). elems (lru_of d) e = elems c e"
    and "next_elem (lru_of d) = next_elem c" and "cache (lru_of d) = cache c"
    and "nbytes (lru_of d) = nbytes c"
    using r ll by (simp_all add: lru_of_def dlru_rel_def)
  note eqs = cg [OF this]
  show "dlru_wf vlen d" using li ll inv eqs(1) by (simp add: dlru_wf_def)
  show "dlru_abs d = lru_abs c" using eqs(2) by (simp add: dlru_abs_def)
qed

lemma dlru_Add_sim:
  assumes inv: "lru_inv vlen c" and r: "dlru_rel c d"
  shows "rel_option dlru_rel (lru_Add vlen c k v) (dlru_Add vlen d k v)"
proof -
  obtain d1 where d1: "dlru_upsert vlen d k v = Some d1"
    and r1: "dlru_rel (lru_upsert vlen c k v) d1"
    using dlru_upsert_sim [OF inv r] by blast
  have "lru_inv vlen (lru_upsert vlen c k v)" using lru_upsert [OF inv] by blast
  from dlru_evict_sim [OF this r1] d1 show ?thesis by (simp add: lru_Add_def dlru_Add_def)
qed

lemma dlru_wf_New: "dlru_wf vlen (dlru_New mb cb)"
  using dlru_rel_wf(1) [OF dlru_rel_New lru_inv_New] .

lemma dlru_ex_AB_wf: "dlru_wf length dlru_ex_AB"
  by (simp add: dlru_wf_def dl_inv_def dl_abs_def ring_def lru_inv_def lru_of_def lru_index_def
      entry_size_def numeral_2_eq_2 fun_upd_twist)

lemma dlru_ex_AB_abs: "dlru_abs dlru_ex_AB = [(''A'', ''a''), (''B'', ''b'')]"
  by (simp add: dlru_abs_def lru_abs_def lru_of_def dl_abs_def numeral_2_eq_2)

section \<open>The pointer store refines the sequence model\<close>

text \<open>C37: Add on a well-formed pointer store with a non-negative bound returns (no
  nil dereference, no failed type assertion, the eviction loop ends), the store stays
  well formed, and the entries read off its ring are those the abstract Add
  promises: the pair first, the longest prefix that fits the bound.\<close>

theorem dlru_Add_refines:
  assumes wf: "dlru_wf vlen d" and nonneg: "0 \<le> d_maxBytes d"
  shows "\<exists>d'. dlru_Add vlen d k v = Some d' \<and> dlru_wf vlen d' \<and>
           dlru_abs d' = a_add vlen (d_maxBytes d) k v (dlru_abs d)"
proof -
  let ?c = "lru_of d"
  have r: "dlru_rel ?c d" using wf by (rule dlru_wf_rel)
  have inv: "lru_inv vlen ?c" using wf by (simp add: dlru_wf_def)
  obtain c' where c': "lru_Add vlen ?c k v = Some c'" and inv': "lru_inv vlen c'"
    and abs': "lru_abs c' = a_add vlen (maxBytes ?c) k v (lru_abs ?c)"
    using lru_Add_spec [OF inv] nonneg by (auto simp: lru_of_def)
  obtain d' where a: "dlru_Add vlen d k v = Some d'" and r': "dlru_rel c' d'"
    using dlru_Add_sim [OF inv r, of k v] c' by (cases "dlru_Add vlen d k v") auto
  have "maxBytes ?c = d_maxBytes d" by (simp add: lru_of_def)
  moreover have "dlru_abs d = lru_abs ?c" by (simp add: dlru_abs_def)
  ultimately show ?thesis using a abs' dlru_rel_wf [OF r' inv'] by auto
qed

theorem dlru_Add_refines_witness:
  "dlru_wf length dlru_ex_AB \<and> 0 \<le> d_maxBytes dlru_ex_AB \<and>
   (\<exists>d'. dlru_Add length dlru_ex_AB ''C'' ''c'' = Some d' \<and> dlru_wf length d' \<and>
         dlru_abs d' = [(''C'', ''c''), (''A'', ''a'')])"
proof -
  have A: "a_add length (d_maxBytes dlru_ex_AB) ''C'' ''c'' (dlru_abs dlru_ex_AB) =
      [(''C'', ''c''), (''A'', ''a'')]"
    unfolding dlru_ex_AB_abs by (simp add: a_add_def a_size_def)
  have nn: "0 \<le> d_maxBytes dlru_ex_AB" by simp
  show ?thesis
    using dlru_Add_refines [OF dlru_ex_AB_wf nn, of "''C''" "''c''", unfolded A]
      dlru_ex_AB_wf nn by blast
qed

text \<open>C40: Get on a well-formed pointer store never panics, returns what the
  abstract Get returns (the key's value, nothing on a miss), and leaves a
  well-formed store whose ring has the hit moved to the front.\<close>

theorem dlru_Get_refines:
  assumes wf: "dlru_wf vlen d"
  shows "\<exists>d'. dlru_Get d k = Some (fst (a_get k (dlru_abs d)), d') \<and> dlru_wf vlen d' \<and>
           dlru_abs d' = snd (a_get k (dlru_abs d))"
proof -
  let ?c = "lru_of d"
  have r: "dlru_rel ?c d" using wf by (rule dlru_wf_rel)
  have inv: "lru_inv vlen ?c" using wf by (simp add: dlru_wf_def)
  obtain d' where g: "dlru_Get d k = Some (fst (lru_Get ?c k), d')"
    and r': "dlru_rel (snd (lru_Get ?c k)) d'"
    using dlru_Get_sim [OF inv r] by blast
  have s: "lru_inv vlen (snd (lru_Get ?c k))"
    and a: "(fst (lru_Get ?c k), lru_abs (snd (lru_Get ?c k))) = a_get k (lru_abs ?c)"
    using lru_Get_spec [OF inv] by simp_all
  have "dlru_abs d = lru_abs ?c" by (simp add: dlru_abs_def)
  with g a dlru_rel_wf [OF r' s] show ?thesis by (metis fst_conv snd_conv)
qed

theorem dlru_Get_refines_witness:
  "dlru_wf length dlru_ex_AB \<and>
   (\<exists>d'. dlru_Get dlru_ex_AB ''B'' = Some (Some ''b'', d') \<and> dlru_wf length d' \<and>
         dlru_abs d' = [(''B'', ''b''), (''A'', ''a'')])"
proof -
  have A: "a_get ''B'' (dlru_abs dlru_ex_AB) = (Some ''b'', [(''B'', ''b''), (''A'', ''a'')])"
    unfolding dlru_ex_AB_abs by (simp add: a_get_def)
  show ?thesis
    using dlru_Get_refines [OF dlru_ex_AB_wf, of "''B''", unfolded A] dlru_ex_AB_wf by simp
qed

text \<open>C6: on a well-formed pointer store Add fails to return exactly when the bound
  is negative; it then spins in the eviction loop (every state stays over budget),
  and it never panics.\<close>

theorem dlru_Add_diverges_iff_negative:
  assumes wf: "dlru_wf vlen d"
  shows "dlru_Add vlen d k v = None \<longleftrightarrow> d_maxBytes d < 0"
proof -
  let ?c = "lru_of d"
  have r: "dlru_rel ?c d" using wf by (rule dlru_wf_rel)
  have inv: "lru_inv vlen ?c" using wf by (simp add: dlru_wf_def)
  have sim: "rel_option dlru_rel (lru_Add vlen ?c k v) (dlru_Add vlen d k v)"
    using inv r by (rule dlru_Add_sim)
  show ?thesis
  proof (cases "d_maxBytes d < 0")
    case True
    have "lru_inv vlen (lru_upsert vlen ?c k v)" using lru_upsert [OF inv] by blast
    moreover have "maxBytes (lru_upsert vlen ?c k v) < 0" using True by (simp add: lru_of_def)
    ultimately have "lru_Add vlen ?c k v = None" by (simp add: lru_Add_def lru_evict_negative)
    with sim True show ?thesis by (cases "dlru_Add vlen d k v") auto
  next
    case False
    then obtain c' where "lru_Add vlen ?c k v = Some c'"
      using lru_Add_spec [OF inv] by (auto simp: lru_of_def)
    with sim False show ?thesis by (cases "dlru_Add vlen d k v") auto
  qed
qed

theorem dlru_Add_diverges_iff_negative_witness:
  "dlru_wf length (dlru_New (-1) True :: string dlru) \<and>
   dlru_Add length (dlru_New (-1) True) ''A'' ''a'' = None"
  using dlru_Add_diverges_iff_negative [OF dlru_wf_New, of length "-1" True "''A''" "''a''"]
    dlru_wf_New [of length "-1" True]
  by (simp add: dlru_New_def)

section \<open>Reachable pointer stores\<close>

lemma dlru_rel_Len: "dlru_rel c d \<Longrightarrow> lru_inv vlen c \<Longrightarrow> dlru_Len d = card (dom (d_cache d))"
  using lru_card_dom [of vlen c]
  by (simp add: dlru_rel_def dlru_Len_def list_Len_inv lru_Len_def)

lemma dlru_reach_wf:
  assumes "dlru_reach vlen d"
  shows "dlru_wf vlen d \<and> 0 \<le> d_maxBytes d \<and> (0 < d_maxBytes d \<longrightarrow> d_nbytes d \<le> d_maxBytes d)"
  using assms
proof induction
  case (dreach_New mb cb)
  then show ?case using dlru_wf_New by (simp add: dlru_New_def)
next
  case (dreach_Get d k r d')
  let ?c = "lru_of d"
  have wf: "dlru_wf vlen d" using dreach_Get.IH by simp
  then have r: "dlru_rel ?c d" by (rule dlru_wf_rel)
  have inv: "lru_inv vlen ?c" using wf by (simp add: dlru_wf_def)
  obtain d'' where g: "dlru_Get d k = Some (fst (lru_Get ?c k), d'')"
    and r': "dlru_rel (snd (lru_Get ?c k)) d''"
    using dlru_Get_sim [OF inv r] by blast
  have "d' = d''" using g dreach_Get.hyps(2) by simp
  moreover have "lru_inv vlen (snd (lru_Get ?c k))" using lru_Get_spec [OF inv] by simp
  moreover have "d_maxBytes d'' = d_maxBytes d" "d_nbytes d'' = d_nbytes d"
    using r' r by (auto simp: dlru_rel_def lru_Get_def split: option.splits)
  ultimately show ?case using dlru_rel_wf(1) [OF r'] dreach_Get.IH by simp
next
  case (dreach_Add d k v d')
  let ?c = "lru_of d"
  have wf: "dlru_wf vlen d" using dreach_Add.IH by simp
  then have r: "dlru_rel ?c d" by (rule dlru_wf_rel)
  have inv: "lru_inv vlen ?c" using wf by (simp add: dlru_wf_def)
  have nn: "0 \<le> maxBytes ?c" using dreach_Add.IH by (simp add: lru_of_def)
  obtain c' where c': "lru_Add vlen ?c k v = Some c'" and inv': "lru_inv vlen c'"
    and mb: "maxBytes c' = maxBytes ?c" and bd: "0 < maxBytes ?c \<longrightarrow> nbytes c' \<le> maxBytes ?c"
    using lru_Add_keeps_bound [OF inv nn] by blast
  have "rel_option dlru_rel (lru_Add vlen ?c k v) (dlru_Add vlen d k v)" using inv r by (rule dlru_Add_sim)
  with c' dreach_Add.hyps(2) have r': "dlru_rel c' d'" by simp
  then have "d_maxBytes d' = d_maxBytes d" "d_nbytes d' = nbytes c'"
    using mb by (simp_all add: dlru_rel_def lru_of_def)
  with dlru_rel_wf(1) [OF r' inv'] bd dreach_Add.IH show ?case by (simp add: lru_of_def)
qed

lemmas dlru_ex_simps = dlru_Add_def dlru_upsert_def dlru_New_def list_PushFront_def
  list_insertValue_def list_insert_def lazyInit_def list_New_def list_Init_def Let_def
  dlru_evict.simps

lemma dlru_ex_run_reach: "dlru_reach length dlru_ex_run"
proof -
  let ?d1 = "the (dlru_Add length (dlru_New 4 True) ''A'' ''a'')"
  have "dlru_reach length (dlru_New 4 True)" by (rule dreach_New) simp
  moreover have "dlru_Add length (dlru_New 4 True) ''A'' ''a'' = Some ?d1"
    by (simp add: dlru_ex_simps)
  ultimately have "dlru_reach length ?d1" by (rule dreach_Add)
  moreover have "dlru_Add length ?d1 ''B'' ''b'' = Some dlru_ex_run"
    by (simp add: dlru_ex_simps)
  ultimately show ?thesis by (rule dreach_Add)
qed

text \<open>C5: every pointer store reachable from \<open>New\<close> with a non-negative bound by
  \<open>Get\<close> and \<open>Add\<close> is well formed (the \<open>next\<close> pointers form a ring from the
  sentinel whose reverse the \<open>prev\<close> pointers form, \<open>len\<close> and the elements'
  \<open>list\<close> fields match it, the map is exactly the index of the entries on the ring and
  \<open>nbytes\<close> the sum of their sizes), is within its bound when the bound is positive,
  and \<open>Len()\<close>, the list's length field, is the number of keys in the map.\<close>

theorem dlru_reachable_invariant:
  assumes "dlru_reach vlen d"
  shows "dlru_wf vlen d \<and> (0 < d_maxBytes d \<longrightarrow> d_nbytes d \<le> d_maxBytes d) \<and>
         dlru_Len d = card (dom (d_cache d))"
proof -
  have w: "dlru_wf vlen d \<and> 0 \<le> d_maxBytes d \<and> (0 < d_maxBytes d \<longrightarrow> d_nbytes d \<le> d_maxBytes d)"
    using assms by (rule dlru_reach_wf)
  then have wf: "dlru_wf vlen d" by simp
  then have "lru_inv vlen (lru_of d)" by (simp add: dlru_wf_def)
  with dlru_rel_Len [OF dlru_wf_rel [OF wf]] have "dlru_Len d = card (dom (d_cache d))" .
  with w show ?thesis by simp
qed

theorem dlru_reachable_invariant_witness:
  "dlru_reach length dlru_ex_run \<and> dlru_wf length dlru_ex_run \<and>
   d_nbytes dlru_ex_run \<le> d_maxBytes dlru_ex_run \<and>
   dlru_Len dlru_ex_run = card (dom (d_cache dlru_ex_run))"
proof -
  have "0 < d_maxBytes dlru_ex_run" by (simp add: dlru_ex_simps)
  with dlru_reachable_invariant [OF dlru_ex_run_reach] dlru_ex_run_reach show ?thesis by simp
qed

end
