(* ===== verification/ByteView.thy ===== *)
theory ByteView
  imports Prelude
begin

text \<open>
  \<open>src/byteview.go\<close>: the immutable cached value. A \<open>ByteView\<close> wraps a byte
  slice; \<open>Len\<close> reports its size (it implements the \<open>lru.Value\<close> interface),
  \<open>ByteSlice\<close> hands out a copy made by \<open>cloneBytes\<close>, \<open>String\<close> converts the
  bytes to a string. HOL values are immutable, so the copy is modelled by its
  contents: Go's \<open>copy(dst, src)\<close> into a fresh zeroed slice of the same length.
\<close>

datatype byteview = ByteView (view_bytes: bytes)

definition byteview_Len :: "byteview \<Rightarrow> nat" where
  "byteview_Len v = length (view_bytes v)"

text \<open>Go's built-in \<open>copy(dst, src)\<close>: copies \<open>min(len(dst), len(src))\<close> elements.\<close>

definition go_copy :: "'a list \<Rightarrow> 'a list \<Rightarrow> 'a list" where
  "go_copy dst src = take (length dst) src @ drop (length src) dst"

definition cloneBytes :: "bytes \<Rightarrow> bytes" where
  "cloneBytes b = go_copy (replicate (length b) 0) b"

definition byteview_ByteSlice :: "byteview \<Rightarrow> bytes" where
  "byteview_ByteSlice v = cloneBytes (view_bytes v)"

definition byteview_String :: "byteview \<Rightarrow> string" where
  "byteview_String v = string_of_bytes (view_bytes v)"

section \<open>Properties\<close>

lemma cloneBytes_id [simp]: "cloneBytes b = b"
  by (simp add: cloneBytes_def go_copy_def)

lemma byteview_ByteSlice_eq [simp]: "byteview_ByteSlice v = view_bytes v"
  by (simp add: byteview_ByteSlice_def)

lemma byteview_Len_String: "length (byteview_String v) = byteview_Len v"
  by (simp add: byteview_String_def byteview_Len_def)

end
