(* ===== verification/Cache.thy ===== *)
theory Cache
  imports LRU ByteView
begin

text \<open>
  \<open>src/cache.go\<close>: the \<open>cache\<close> a \<open>Group\<close> owns. It wraps an \<open>lru.Cache\<close> of
  \<open>ByteView\<close>s that is created lazily, on the first \<open>add\<close>, with bound
  \<open>cacheBytes\<close> and no eviction callback. The mutex \<open>mu\<close> makes every call
  atomic, so each call is one function on the state here. \<open>get\<close> before any
  \<open>add\<close> misses; \<open>add\<close> returns \<open>None\<close> exactly when the LRU's eviction loop
  does not end.
\<close>

record cache =
  lru :: "byteview lru_cache option"
  cacheBytes :: int

definition cache_add :: "cache \<Rightarrow> string \<Rightarrow> byteview \<Rightarrow> cache option" where
  "cache_add c key value =
     (let l = (case lru c of None \<Rightarrow> lru_New (cacheBytes c) False | Some l \<Rightarrow> l)
      in map_option (\<lambda>l'. c\<lparr>lru := Some l'\<rparr>) (lru_Add byteview_Len l key value))"

definition cache_get :: "cache \<Rightarrow> string \<Rightarrow> byteview option \<times> cache" where
  "cache_get c key =
     (case lru c of
        None \<Rightarrow> (None, c)
      | Some l \<Rightarrow> (case lru_Get l key of (r, l') \<Rightarrow> (r, c\<lparr>lru := Some l'\<rparr>)))"

text \<open>
  The store a \<open>cache\<close> stands for (empty before the LRU exists), and what the
  wrapper keeps true: the LRU, once created, is well formed, has the configured
  bound and no callback.
\<close>

definition cache_abs :: "cache \<Rightarrow> (string \<times> byteview) list" where
  "cache_abs c = (case lru c of None \<Rightarrow> [] | Some l \<Rightarrow> lru_abs l)"

definition cache_inv :: "cache \<Rightarrow> bool" where
  "cache_inv c \<longleftrightarrow>
     (case lru c of
        None \<Rightarrow> True
      | Some l \<Rightarrow> lru_inv byteview_Len l \<and> maxBytes l = cacheBytes c \<and> \<not> onEvicted l)"

section \<open>Lemmas\<close>

lemma cache_lru_of_inv:
  assumes "cache_inv c"
  defines "l \<equiv> (case lru c of None \<Rightarrow> lru_New (cacheBytes c) False | Some l \<Rightarrow> l)"
  shows "lru_inv byteview_Len l \<and> maxBytes l = cacheBytes c \<and> \<not> onEvicted l \<and>
         lru_abs l = cache_abs c"
  using assms lru_inv_New [of byteview_Len "cacheBytes c" False]
  by (auto simp: cache_inv_def cache_abs_def lru_New_def lru_abs_def split: option.splits)

lemma cache_add_spec:
  assumes inv: "cache_inv c" and nonneg: "0 \<le> cacheBytes c"
  shows "\<exists>c'. cache_add c key v = Some c' \<and> cache_inv c' \<and> cacheBytes c' = cacheBytes c \<and>
     cache_abs c' = a_add byteview_Len (cacheBytes c) key v (cache_abs c)"
proof -
  let ?l = "case lru c of None \<Rightarrow> lru_New (cacheBytes c) False | Some l \<Rightarrow> l"
  from cache_lru_of_inv [OF inv]
  have l: "lru_inv byteview_Len ?l" "maxBytes ?l = cacheBytes c" "\<not> onEvicted ?l"
    "lru_abs ?l = cache_abs c" by auto
  with nonneg lru_Add_spec [of byteview_Len ?l key v] obtain l' where
    r: "lru_Add byteview_Len ?l key v = Some l'" and inv': "lru_inv byteview_Len l'"
    and a: "lru_abs l' = a_add byteview_Len (cacheBytes c) key v (cache_abs c)"
    and m: "maxBytes l' = cacheBytes c"
    by auto
  have "onEvicted l' = onEvicted ?l"
    using r lru_evict_spec [of byteview_Len "lru_upsert byteview_Len ?l key v"] l nonneg
      lru_upsert [OF l(1), of key v]
    by (auto simp: lru_Add_def)
  with l(3) have "\<not> onEvicted l'" by simp
  with r inv' a m show ?thesis
    by (simp add: cache_add_def cache_inv_def cache_abs_def Let_def)
qed

lemma cache_get_spec:
  assumes inv: "cache_inv c"
  shows "cache_inv (snd (cache_get c key)) \<and> cacheBytes (snd (cache_get c key)) = cacheBytes c \<and>
     (fst (cache_get c key), cache_abs (snd (cache_get c key))) = a_get key (cache_abs c)"
proof (cases "lru c")
  case None
  then show ?thesis using inv by (simp add: cache_get_def cache_abs_def a_get_def)
next
  case (Some l)
  with inv have l: "lru_inv byteview_Len l" "maxBytes l = cacheBytes c" "\<not> onEvicted l"
    by (simp_all add: cache_inv_def)
  have fields: "maxBytes (snd (lru_Get l key)) = maxBytes l"
    "onEvicted (snd (lru_Get l key)) = onEvicted l"
    by (simp_all add: lru_Get_def split: option.splits)
  have g: "cache_get c key = (fst (lru_Get l key), c\<lparr>lru := Some (snd (lru_Get l key))\<rparr>)"
    using Some by (simp add: cache_get_def split: prod.splits)
  from lru_Get_spec [OF l(1), of key] l fields Some show ?thesis
    by (simp add: g cache_inv_def cache_abs_def)
qed

lemma a_add_fits:
  "cap = 0 \<or> a_size vlen [(k, v)] \<le> cap \<Longrightarrow> fst (a_get k (a_add vlen cap k v xs)) = Some v"
  by (auto simp: a_add_def a_get_def Let_def)

lemma a_add_oversized:
  "0 < cap \<Longrightarrow> cap < a_size vlen [(k, v)] \<Longrightarrow> a_add vlen cap k v xs = []"
  by (simp add: a_add_def Let_def)

section \<open>Properties of the cache wrapper\<close>

text \<open>
  C9: what \<open>add\<close> stores, \<open>get\<close> returns. On a well-formed cache with a
  non-negative budget, adding a value whose entry fits the budget (or with budget 0)
  returns, and an immediate \<open>get\<close> of the key hits with that value, whether or not
  the LRU existed before.
\<close>

theorem cache_add_get_roundtrip:
  assumes "cache_inv c" and "0 \<le> cacheBytes c"
    and "cacheBytes c = 0 \<or> int (length key) + int (byteview_Len v) \<le> cacheBytes c"
  shows "\<exists>c'. cache_add c key v = Some c' \<and> fst (cache_get c' key) = Some v"
proof -
  from cache_add_spec [OF assms(1,2), of key v] obtain c' where
    r: "cache_add c key v = Some c'" and inv: "cache_inv c'"
    and a: "cache_abs c' = a_add byteview_Len (cacheBytes c) key v (cache_abs c)"
    by blast
  from assms(3) have "fst (a_get key (a_add byteview_Len (cacheBytes c) key v (cache_abs c))) = Some v"
    by (intro a_add_fits) (simp add: a_size_def)
  with cache_get_spec [OF inv, of key] a have "fst (cache_get c' key) = Some v"
    by (metis fst_conv)
  with r show ?thesis by blast
qed

theorem cache_add_get_roundtrip_witness:
  "\<exists>c'. cache_add \<lparr>lru = None, cacheBytes = 2048\<rparr> ''Tom'' (ByteView (bytes_of_string ''630'')) = Some c' \<and>
     fst (cache_get c' ''Tom'') = Some (ByteView (bytes_of_string ''630''))"
  by (rule cache_add_get_roundtrip) (simp_all add: cache_inv_def byteview_Len_def)

text \<open>
  C10: an entry larger than the whole budget is not kept. With a positive budget
  smaller than the entry's size, \<open>add\<close> returns but evicts the entry it just
  inserted (together with everything else), so the next \<open>get\<close> misses.
\<close>

theorem cache_add_oversized_not_retained:
  assumes "cache_inv c" and "0 < cacheBytes c"
    and "cacheBytes c < int (length key) + int (byteview_Len v)"
  shows "\<exists>c'. cache_add c key v = Some c' \<and> fst (cache_get c' key) = None \<and> cache_abs c' = []"
proof -
  from assms(2) have "0 \<le> cacheBytes c" by simp
  from cache_add_spec [OF assms(1) this, of key v] obtain c' where
    r: "cache_add c key v = Some c'" and inv: "cache_inv c'"
    and a: "cache_abs c' = a_add byteview_Len (cacheBytes c) key v (cache_abs c)"
    by blast
  from assms(2,3) have e: "cache_abs c' = []"
    using a a_add_oversized [of "cacheBytes c" byteview_Len key v] by (simp add: a_size_def)
  with cache_get_spec [OF inv, of key] have "fst (cache_get c' key) = None"
    by (simp add: a_get_def)
  with r e show ?thesis by blast
qed

theorem cache_add_oversized_not_retained_witness:
  "\<exists>c'. cache_add \<lparr>lru = None, cacheBytes = 4\<rparr> ''Tom'' (ByteView (bytes_of_string ''630'')) = Some c' \<and>
     fst (cache_get c' ''Tom'') = None \<and> cache_abs c' = []"
  by (rule cache_add_oversized_not_retained) (simp_all add: cache_inv_def byteview_Len_def)

end
