(* ===== verification/ConsistentHash.thy ===== *)
theory ConsistentHash
  imports Prelude
begin

unbundle bit_operations_syntax

text \<open>
  \<open>src/consistenthash/consistenthash.go\<close>: the hash ring. A \<open>Map\<close> holds the
  injected hash function (\<open>Hash func([]byte) uint32\<close>, default
  \<open>crc32.ChecksumIEEE\<close>), the number of virtual points per peer, the sorted list
  \<open>keys\<close> of points and \<open>hashMap\<close> from a point to its peer. \<open>Add\<close> puts
  \<open>replicas\<close> points per peer, \<open>hash(strconv.Itoa(i) + peer)\<close>, then sorts;
  \<open>Get\<close> hashes the key and binary-searches (\<open>sort.Search\<close>) for the first point
  not below it, wrapping to the first point. The points are Go \<open>int\<close>s converted
  from \<open>uint32\<close>, so \<open>uint\<close> of a \<open>32 word\<close>. The library calls
  \<open>crc32.ChecksumIEEE\<close>, \<open>strconv.Itoa\<close>, \<open>sort.Ints\<close> and \<open>sort.Search\<close> are
  modelled by what they compute (bitwise CRC-32, decimal digits, \<open>sort\<close>, and the
  Go binary-search loop).
\<close>

section \<open>Library functions the ring calls\<close>

type_synonym hash_fn = "bytes \<Rightarrow> 32 word"

text \<open>\<open>hash/crc32\<close>: the reflected CRC-32 with polynomial \<open>0xEDB88320\<close>, bit by bit.\<close>

definition crc32_step :: "32 word \<Rightarrow> 32 word" where
  "crc32_step crc = (if crc AND 1 = 1 then drop_bit 1 crc XOR 0xEDB88320 else drop_bit 1 crc)"

definition crc32_byte :: "32 word \<Rightarrow> byte \<Rightarrow> 32 word" where
  "crc32_byte crc b = (crc32_step ^^ 8) (crc XOR ucast b)"

definition crc32_ieee :: hash_fn where
  "crc32_ieee data = NOT (foldl crc32_byte 0xFFFFFFFF data)"

text \<open>\<open>strconv.Itoa\<close> on the non-negative replica index.\<close>

fun itoa :: "nat \<Rightarrow> string" where
  "itoa n = (if n < 10 then [char_of (48 + n)] else itoa (n div 10) @ [char_of (48 + n mod 10)])"

text \<open>
  \<open>sort.Search(n, f)\<close>: \<open>i, j := 0, n; for i < j { h := (i+j)/2; if !f(h)
  { i = h + 1 } else { j = h } }; return i\<close>. The distance \<open>j - i\<close> shrinks.
\<close>

function search_loop :: "(nat \<Rightarrow> bool) \<Rightarrow> nat \<Rightarrow> nat \<Rightarrow> nat" where
  "search_loop f i j =
     (if i < j
      then (let h = (i + j) div 2 in if \<not> f h then search_loop f (Suc h) j else search_loop f i h)
      else i)"
  by pat_completeness auto
termination
  by (relation "measure (\<lambda>(f, i, j). j - i)") auto

definition sort_Search :: "nat \<Rightarrow> (nat \<Rightarrow> bool) \<Rightarrow> nat" where
  "sort_Search n f = search_loop f 0 n"

section \<open>The ring\<close>

record hmap =
  hash :: hash_fn
  replicas :: int
  keys :: "int list"
  hashMap :: "int \<rightharpoonup> string"

definition hm_New :: "int \<Rightarrow> hash_fn option \<Rightarrow> hmap" where
  "hm_New r fn =
     \<lparr>hash = (case fn of None \<Rightarrow> crc32_ieee | Some f \<Rightarrow> f), replicas = r, keys = [],
      hashMap = Map.empty\<rparr>"

text \<open>One round of the inner loop of \<open>Add\<close>: the \<open>i\<close>-th virtual point of a peer.\<close>

definition hm_add_point :: "hmap \<Rightarrow> string \<Rightarrow> nat \<Rightarrow> hmap" where
  "hm_add_point m key i =
     (let h = uint (hash m (bytes_of_string (itoa i @ key)))
      in m\<lparr>keys := keys m @ [h], hashMap := (hashMap m)(h \<mapsto> key)\<rparr>)"

definition hm_Add :: "hmap \<Rightarrow> string list \<Rightarrow> hmap" where
  "hm_Add m peers =
     (let m' = fold (\<lambda>key m. fold (\<lambda>i m. hm_add_point m key i) [0..<nat (replicas m)] m) peers m
      in m'\<lparr>keys := sort (keys m')\<rparr>)"

definition hm_Get :: "hmap \<Rightarrow> string \<Rightarrow> string" where
  "hm_Get m key =
     (if keys m = [] then ''''
      else
        let h = uint (hash m (bytes_of_string key));
            idx = sort_Search (length (keys m)) (\<lambda>i. h \<le> keys m ! i)
        in (case hashMap m (keys m ! (idx mod length (keys m))) of None \<Rightarrow> '''' | Some p \<Rightarrow> p))"

section \<open>What the ring promises\<close>

text \<open>
  The virtual points \<open>Add(peers)\<close> creates, in the order the loops create them:
  for each peer, for \<open>i\<close> from 0 to \<open>replicas - 1\<close>, the point
  \<open>hash(Itoa(i) + peer)\<close> owned by the peer.
\<close>

definition hm_point :: "hmap \<Rightarrow> string \<Rightarrow> nat \<Rightarrow> int" where
  "hm_point m key i = uint (hash m (bytes_of_string (itoa i @ key)))"

definition hm_points :: "hmap \<Rightarrow> string list \<Rightarrow> (int \<times> string) list" where
  "hm_points m peers =
     concat (map (\<lambda>key. map (\<lambda>i. (hm_point m key i, key)) [0..<nat (replicas m)]) peers)"

text \<open>
  The owner of a key: the first point clockwise from the key's hash, i.e. the least
  point not below it, or the first point of the ring when the hash is above all.
\<close>

definition ring_successor :: "int list \<Rightarrow> int \<Rightarrow> int" where
  "ring_successor ks h = (case find (\<lambda>k. h \<le> k) ks of None \<Rightarrow> hd ks | Some k \<Rightarrow> k)"

text \<open>
  A well-formed ring: points sorted, each owned by one of the peers \<open>P\<close>, each a
  value of a \<open>uint32\<close>.
\<close>

definition ring_wf :: "hmap \<Rightarrow> string set \<Rightarrow> bool" where
  "ring_wf m P \<longleftrightarrow> sorted (keys m) \<and>
     (\<forall>k\<in>set (keys m). (\<exists>p\<in>P. hashMap m k = Some p) \<and> 0 \<le> k \<and> k < 2 ^ 32)"

text \<open>Writing a list of points into the owner map, in order (the later point wins).\<close>

definition put_all :: "('a \<times> 'b) list \<Rightarrow> ('a \<rightharpoonup> 'b) \<Rightarrow> ('a \<rightharpoonup> 'b)" where
  "put_all ps f = fold (\<lambda>(h, p) f. f(h \<mapsto> p)) ps f"

section \<open>Binary search is the least index where the predicate holds\<close>

text \<open>The reference: the length of the prefix of \<open>[0..<n]\<close> where \<open>f\<close> fails.\<close>

lemma takeWhile_upt_props:
  fixes f :: "nat \<Rightarrow> bool" and n :: nat
  defines "t \<equiv> length (takeWhile (\<lambda>i. \<not> f i) [0..<n])"
  shows "t \<le> n" and "\<forall>k < t. \<not> f k" and "t < n \<Longrightarrow> f t"
proof -
  show "t \<le> n" unfolding t_def using length_takeWhile_le [of _ "[0..<n]"] by simp
  show "\<forall>k < t. \<not> f k"
  proof (intro allI impI)
    fix k assume "k < t"
    then have "takeWhile (\<lambda>i. \<not> f i) [0..<n] ! k \<in> set (takeWhile (\<lambda>i. \<not> f i) [0..<n])"
      unfolding t_def by (rule nth_mem)
    moreover have "takeWhile (\<lambda>i. \<not> f i) [0..<n] ! k = [0..<n] ! k"
      using \<open>k < t\<close> unfolding t_def by (rule takeWhile_nth)
    moreover have "k < n" using \<open>k < t\<close> \<open>t \<le> n\<close> by simp
    ultimately show "\<not> f k" by (auto dest: set_takeWhileD)
  qed
  assume "t < n"
  then have "length (takeWhile (\<lambda>i. \<not> f i) [0..<n]) < length [0..<n]" by (simp add: t_def)
  then have "\<not> \<not> f ([0..<n] ! t)" unfolding t_def by (rule nth_length_takeWhile)
  with \<open>t < n\<close> show "f t" by simp
qed

lemma search_loop_least:
  assumes mono: "\<And>a b. a \<le> b \<Longrightarrow> b < n \<Longrightarrow> f a \<Longrightarrow> f b"
    and below: "\<forall>k < t. \<not> f k" and at: "t < n \<Longrightarrow> f t"
  shows "i \<le> t \<Longrightarrow> t \<le> j \<Longrightarrow> j \<le> n \<Longrightarrow> search_loop f i j = t"
proof (induction "j - i" arbitrary: i j rule: less_induct)
  case less
  show ?case
  proof (cases "i < j")
    case False
    with less.prems show ?thesis by (simp add: search_loop.simps [of f i j])
  next
    case True
    note ij = True
    let ?h = "(i + j) div 2"
    have hj: "?h < j" and ih: "i \<le> ?h" using ij by auto
    show ?thesis
    proof (cases "f ?h")
      case False
      have "?h < t"
      proof (rule ccontr)
        assume "\<not> ?h < t"
        then have "t \<le> ?h" by simp
        moreover from this hj less.prems have "t < n" by simp
        ultimately have "f ?h" using mono at hj less.prems by (meson order.strict_trans2)
        with False show False by simp
      qed
      then have "search_loop f (Suc ?h) j = t"
        using less.hyps [of j "Suc ?h"] less.prems ij by simp
      with ij False show ?thesis by (simp add: search_loop.simps [of f i j] Let_def)
    next
      case True
      have "t \<le> ?h"
      proof (rule ccontr)
        assume "\<not> t \<le> ?h"
        with below True show False by simp
      qed
      then have "search_loop f i ?h = t"
        using less.hyps [of ?h i] less.prems hj ij by simp
      with ij True show ?thesis by (simp add: search_loop.simps [of f i j] Let_def)
    qed
  qed
qed

lemma sort_Search_takeWhile:
  assumes "\<And>a b. a \<le> b \<Longrightarrow> b < n \<Longrightarrow> f a \<Longrightarrow> f b"
  shows "sort_Search n f = length (takeWhile (\<lambda>i. \<not> f i) [0..<n])"
  unfolding sort_Search_def
  using takeWhile_upt_props [of f n] by (intro search_loop_least [OF assms]) auto

section \<open>The effect of Add\<close>

lemma put_all_simps [simp]:
  "put_all [] f = f" "put_all ((h, p) # ps) f = put_all ps (f(h \<mapsto> p))"
  "put_all (xs @ ys) f = put_all ys (put_all xs f)"
  by (simp_all add: put_all_def)

lemma put_all_lookup:
  "put_all ps f k = (case map_of (rev ps) k of None \<Rightarrow> f k | Some v \<Rightarrow> Some v)"
  by (induction ps arbitrary: f) (auto simp: map_of_append split: option.splits)

lemma hm_add_point_fields [simp]:
  "hash (hm_add_point m key i) = hash m" "replicas (hm_add_point m key i) = replicas m"
  "keys (hm_add_point m key i) = keys m @ [hm_point m key i]"
  "hashMap (hm_add_point m key i) = (hashMap m)(hm_point m key i \<mapsto> key)"
  by (simp_all add: hm_add_point_def hm_point_def Let_def)

lemma hm_point_cong: "hash m' = hash m \<Longrightarrow> hm_point m' = hm_point m"
  by (simp add: hm_point_def fun_eq_iff)

lemma fold_add_points:
  "hash (fold (\<lambda>i m. hm_add_point m key i) is m) = hash m \<and>
   replicas (fold (\<lambda>i m. hm_add_point m key i) is m) = replicas m \<and>
   keys (fold (\<lambda>i m. hm_add_point m key i) is m) = keys m @ map (hm_point m key) is \<and>
   hashMap (fold (\<lambda>i m. hm_add_point m key i) is m) =
     put_all (map (\<lambda>i. (hm_point m key i, key)) is) (hashMap m)"
proof (induction "is" arbitrary: m)
  case Nil
  then show ?case by simp
next
  case (Cons i "is")
  have "hm_point (hm_add_point m key i) = hm_point m" by (rule hm_point_cong) simp
  with Cons.IH [of "hm_add_point m key i"] show ?case by (simp add: fun_upd_def)
qed

lemma hm_points_Cons:
  "hm_points m (key # peers) = map (\<lambda>i. (hm_point m key i, key)) [0..<nat (replicas m)] @ hm_points m peers"
  by (simp add: hm_points_def)

lemma fold_add_peers:
  "hash (fold (\<lambda>key m. fold (\<lambda>i m. hm_add_point m key i) [0..<nat (replicas m)] m) peers m) = hash m \<and>
   replicas (fold (\<lambda>key m. fold (\<lambda>i m. hm_add_point m key i) [0..<nat (replicas m)] m) peers m) = replicas m \<and>
   keys (fold (\<lambda>key m. fold (\<lambda>i m. hm_add_point m key i) [0..<nat (replicas m)] m) peers m) =
     keys m @ map fst (hm_points m peers) \<and>
   hashMap (fold (\<lambda>key m. fold (\<lambda>i m. hm_add_point m key i) [0..<nat (replicas m)] m) peers m) =
     put_all (hm_points m peers) (hashMap m)"
proof (induction peers arbitrary: m)
  case Nil
  then show ?case by (simp add: hm_points_def)
next
  case (Cons key peers)
  let ?m1 = "fold (\<lambda>i m. hm_add_point m key i) [0..<nat (replicas m)] m"
  note f1 = fold_add_points [of key "[0..<nat (replicas m)]" m]
  have "hm_point ?m1 = hm_point m" by (rule hm_point_cong) (use f1 in simp)
  moreover have "replicas ?m1 = replicas m" using f1 by simp
  ultimately have pts: "hm_points ?m1 peers = hm_points m peers"
    by (simp add: hm_points_def)
  have k: "map fst (map (\<lambda>i. (hm_point m key i, key)) [0..<nat (replicas m)]) =
    map (hm_point m key) [0..<nat (replicas m)]" by simp
  show ?case
    using Cons.IH [of ?m1] f1 unfolding pts hm_points_Cons fold_append map_append k
    by simp
qed

lemma hm_Add_fields:
  "hash (hm_Add m peers) = hash m" "replicas (hm_Add m peers) = replicas m"
  "keys (hm_Add m peers) = sort (keys m @ map fst (hm_points m peers))"
  "hashMap (hm_Add m peers) = put_all (hm_points m peers) (hashMap m)"
  using fold_add_peers [of peers m] by (simp_all add: hm_Add_def Let_def)


lemma hm_Add_lookup:
  "hashMap (hm_Add m peers) k =
     (case map_of (rev (hm_points m peers)) k of None \<Rightarrow> hashMap m k | Some p \<Rightarrow> Some p)"
  by (simp add: hm_Add_fields put_all_lookup)

lemma hm_point_range: "0 \<le> hm_point m key i \<and> hm_point m key i < 2 ^ 32"
  using uint_lt2p [of "hash m (bytes_of_string (itoa i @ key))"] by (simp add: hm_point_def)

lemma hm_points_set:
  assumes "(k, p) \<in> set (hm_points m peers)"
  shows "p \<in> set peers \<and> 0 \<le> k \<and> k < 2 ^ 32"
proof -
  from assms obtain i where "p \<in> set peers" "k = hm_point m p i"
    by (auto simp: hm_points_def)
  with hm_point_range [of m p i] show ?thesis by simp
qed

lemma hm_Add_owner_new:
  assumes "k \<in> fst ` set (hm_points m peers)"
  shows "\<exists>p\<in>set peers. hashMap (hm_Add m peers) k = Some p"
proof -
  from assms obtain p where p: "map_of (rev (hm_points m peers)) k = Some p"
    by (metis map_of_eq_None_iff not_None_eq set_rev)
  then have "(k, p) \<in> set (hm_points m peers)" by (auto dest: map_of_SomeD)
  with p show ?thesis by (auto simp: hm_Add_lookup dest: hm_points_set)
qed

lemma hm_Add_owner_old:
  assumes "k \<notin> fst ` set (hm_points m peers)"
  shows "hashMap (hm_Add m peers) k = hashMap m k"
proof -
  from assms have "map_of (rev (hm_points m peers)) k = None"
    by (metis map_of_eq_None_iff set_rev)
  then show ?thesis by (simp add: hm_Add_lookup)
qed

lemma ring_wf_Add:
  assumes "ring_wf m P"
  shows "ring_wf (hm_Add m peers) (P \<union> set peers)"
  unfolding ring_wf_def
proof (intro conjI ballI)
  show "sorted (keys (hm_Add m peers))" by (simp add: hm_Add_fields)
next
  fix k assume k: "k \<in> set (keys (hm_Add m peers))"
  show "\<exists>p\<in>P \<union> set peers. hashMap (hm_Add m peers) k = Some p"
  proof (cases "k \<in> fst ` set (hm_points m peers)")
    case True
    then show ?thesis using hm_Add_owner_new by blast
  next
    case False
    with k have "k \<in> set (keys m)" by (auto simp: hm_Add_fields)
    with False assms show ?thesis by (auto simp: ring_wf_def hm_Add_owner_old)
  qed
  show "0 \<le> k" "k < 2 ^ 32"
    using k assms hm_points_set by (fastforce simp: hm_Add_fields ring_wf_def)+
qed

section \<open>Get is the owner of the successor point\<close>

lemma find_takeWhile:
  "find P xs = (if length (takeWhile (\<lambda>x. \<not> P x) xs) < length xs
                then Some (xs ! length (takeWhile (\<lambda>x. \<not> P x) xs)) else None)"
  by (induction xs) auto

lemma takeWhile_upt_nth:
  "length (takeWhile (\<lambda>i. \<not> P (xs ! i)) [0..<length xs]) = length (takeWhile (\<lambda>x. \<not> P x) xs)"
  using takeWhile_map [of "\<lambda>x. \<not> P x" "(!) xs" "[0..<length xs]"] by (simp add: map_nth comp_def)

lemma hm_Get_successor:
  assumes "sorted (keys m)" and "keys m \<noteq> []"
  shows "hm_Get m key =
    (case hashMap m (ring_successor (keys m) (uint (hash m (bytes_of_string key)))) of
       None \<Rightarrow> '''' | Some p \<Rightarrow> p)"
proof -
  let ?ks = "keys m" and ?h = "uint (hash m (bytes_of_string key))"
  let ?t = "length (takeWhile (\<lambda>k. \<not> ?h \<le> k) ?ks)"
  have mono: "\<And>a b. a \<le> b \<Longrightarrow> b < length ?ks \<Longrightarrow> ?h \<le> ?ks ! a \<Longrightarrow> ?h \<le> ?ks ! b"
    using assms(1) by (meson order_trans sorted_nth_mono)
  have idx: "sort_Search (length ?ks) (\<lambda>i. ?h \<le> ?ks ! i) = ?t"
    using sort_Search_takeWhile [OF mono] takeWhile_upt_nth [of "\<lambda>k. ?h \<le> k" ?ks] by simp
  have "?t \<le> length ?ks" by (rule length_takeWhile_le)
  then have "?ks ! (?t mod length ?ks) = ring_successor ?ks ?h"
    using assms(2) by (cases "?t < length ?ks") (auto simp: ring_successor_def find_takeWhile hd_conv_nth)
  with idx assms(2) show ?thesis by (simp add: hm_Get_def Let_def)
qed

lemma ring_successor_in: "ks \<noteq> [] \<Longrightarrow> ring_successor ks h \<in> set ks"
  by (auto simp: ring_successor_def find_Some_iff split: option.splits)

lemma sorted_hd_Min: "sorted ks \<Longrightarrow> ks \<noteq> [] \<Longrightarrow> hd ks = Min (set ks)"
  by (cases ks) (auto intro: Min_eqI [symmetric])

lemma ring_successor_Min:
  assumes "sorted ks" and "ks \<noteq> []"
  shows "ring_successor ks h =
    (if \<exists>k\<in>set ks. h \<le> k then Min {k \<in> set ks. h \<le> k} else Min (set ks))"
proof (cases "\<exists>k\<in>set ks. h \<le> k")
  case True
  then show ?thesis using sorted_find_Min [OF assms(1) True] by (simp add: ring_successor_def)
next
  case False
  then have "find (\<lambda>k. h \<le> k) ks = None" by (simp add: find_None_iff)
  with False sorted_hd_Min [OF assms] show ?thesis by (simp add: ring_successor_def)
qed


lemma ring_successor_union:
  assumes "sorted ks" and "ks \<noteq> []" and "sorted ks'" and "set ks' = set ks \<union> B"
  shows "ring_successor ks' h = ring_successor ks h \<or> ring_successor ks' h \<in> B"
proof (rule disjCI)
  let ?s = "ring_successor ks' h" and ?r = "ring_successor ks h"
  assume "?s \<notin> B"
  have ne': "ks' \<noteq> []" using assms(2,4) by auto
  from ring_successor_in [OF ne'] \<open>?s \<notin> B\<close> assms(4) have sA: "?s \<in> set ks" by auto
  show "?s = ?r"
  proof (cases "\<exists>k\<in>set ks'. h \<le> k")
    case True
    then have s: "?s = Min {k \<in> set ks'. h \<le> k}" by (simp add: ring_successor_Min [OF assms(3) ne'])
    have "Min {k \<in> set ks'. h \<le> k} \<in> {k \<in> set ks'. h \<le> k}" using True by (intro Min_in) auto
    with s sA have hs: "h \<le> ?s" "\<exists>k\<in>set ks. h \<le> k" by auto
    then have r: "?r = Min {k \<in> set ks. h \<le> k}" by (simp add: ring_successor_Min [OF assms(1,2)])
    have "Min {k \<in> set ks. h \<le> k} \<in> {k \<in> set ks. h \<le> k}" using hs(2) by (intro Min_in) auto
    then have "?r \<in> {k \<in> set ks'. h \<le> k}" using r assms(4) by auto
    then have "?s \<le> ?r" unfolding s by (rule Min_le [rotated]) simp
    moreover have "?r \<le> ?s" using r sA hs(1) by (auto intro: Min_le)
    ultimately show ?thesis by simp
  next
    case False
    then have s: "?s = Min (set ks')" by (simp add: ring_successor_Min [OF assms(3) ne'])
    from False assms(4) have "\<not> (\<exists>k\<in>set ks. h \<le> k)" by auto
    then have r: "?r = Min (set ks)" by (simp add: ring_successor_Min [OF assms(1,2)])
    have "?r \<in> set ks'" using r assms(2,4) by auto
    then have "?s \<le> ?r" unfolding s by (rule Min_le [rotated]) simp
    moreover have "?r \<le> ?s" using r sA by (auto intro: Min_le)
    ultimately show ?thesis by simp
  qed
qed

lemma hm_points_length: "length (hm_points m peers) = length peers * nat (replicas m)"
  by (induction peers) (simp_all add: hm_points_def)

lemma ring_wf_New: "ring_wf (hm_New r fn) {}"
  by (simp add: ring_wf_def hm_New_def)

lemma hm_Get_in_owners:
  assumes "ring_wf m P" and "keys m \<noteq> []"
  shows "hm_Get m key \<in> P"
proof -
  let ?s = "ring_successor (keys m) (uint (hash m (bytes_of_string key)))"
  from assms(1) have "sorted (keys m)" by (simp add: ring_wf_def)
  note g = hm_Get_successor [OF this assms(2), of key]
  from ring_successor_in [OF assms(2)] assms(1) obtain p where "p \<in> P" "hashMap m ?s = Some p"
    by (auto simp: ring_wf_def)
  with g show ?thesis by simp
qed


lemma hm_points_const:
  "hash m = (\<lambda>_. w) \<Longrightarrow> hm_points m peers = concat (map (\<lambda>p. replicate (nat (replicas m)) (uint w, p)) peers)"
  by (simp add: hm_points_def hm_point_def map_replicate_const)

lemma map_of_replicate: "map_of (replicate n (k, v)) = (if n = 0 then Map.empty else [k \<mapsto> v])"
  by (induction n) auto

section \<open>Properties of the ring\<close>

text \<open>
  C11: \<open>Get\<close> is the clockwise owner. On a ring whose points are sorted, \<open>Get\<close>
  returns the empty string when there are no points, and otherwise the owner of the
  least point not below the key's hash, or of the least point of all when the hash is
  above every point (the wrap-around). The binary search of \<open>sort.Search\<close> and the
  index \<open>idx mod len\<close> compute exactly this.
\<close>

theorem hm_Get_first_point_clockwise:
  assumes "sorted (keys m)"
  shows "hm_Get m key =
    (if keys m = [] then ''''
     else let h = uint (hash m (bytes_of_string key));
              k = (if \<exists>k\<in>set (keys m). h \<le> k then Min {k \<in> set (keys m). h \<le> k}
                   else Min (set (keys m)))
          in case hashMap m k of None \<Rightarrow> '''' | Some p \<Rightarrow> p)"
proof (cases "keys m = []")
  case True
  then show ?thesis by (simp add: hm_Get_def)
next
  case False
  with hm_Get_successor [OF assms False, of key] ring_successor_Min [OF assms False]
  show ?thesis by (simp add: Let_def)
qed

theorem hm_Get_first_point_clockwise_witness:
  "hm_Get \<lparr>hash = \<lambda>bs. of_nat (length bs), replicas = 1, keys = [2, 5],
           hashMap = [2 \<mapsto> ''A'', 5 \<mapsto> ''B'']\<rparr> ''abc'' = ''B'' \<and>
   hm_Get \<lparr>hash = \<lambda>bs. of_nat (length bs), replicas = 1, keys = [2, 5],
           hashMap = [2 \<mapsto> ''A'', 5 \<mapsto> ''B'']\<rparr> ''abcdef'' = ''A''"
proof -
  let ?m = "\<lparr>hash = \<lambda>bs. of_nat (length bs) :: 32 word, replicas = 1, keys = [2, 5],
            hashMap = [2 \<mapsto> ''A'', 5 \<mapsto> ''B'']\<rparr>"
  have s: "sorted (keys ?m)" by simp
  have "{k \<in> set [2, 5]. (3::int) \<le> k} = {5}" by auto
  then have a: "hm_Get ?m ''abc'' = ''B''"
    using hm_Get_first_point_clockwise [OF s, of "''abc''"] by (simp add: bytes_of_string_def)
  have b: "hm_Get ?m ''abcdef'' = ''A''"
    using hm_Get_first_point_clockwise [OF s, of "''abcdef''"] by (simp add: bytes_of_string_def)
  from a b show ?thesis by simp
qed


text \<open>
  C12: \<open>Add\<close> keeps the ring well formed and does not rebalance. If every point of
  the ring is sorted, owned by a peer of \<open>P\<close> and a \<open>uint32\<close> value, then after
  \<open>Add(peers)\<close> the same holds for the peers \<open>P \<union> peers\<close>, and the points are the
  old points plus the \<open>replicas\<close> new points of each added peer, none dropped.
\<close>

theorem hm_Add_preserves_ring_wf:
  assumes "ring_wf m P"
  shows "ring_wf (hm_Add m peers) (P \<union> set peers) \<and>
    mset (keys (hm_Add m peers)) = mset (keys m) + mset (map fst (hm_points m peers)) \<and>
    length (keys (hm_Add m peers)) = length (keys m) + length peers * nat (replicas m)"
  using ring_wf_Add [OF assms, of peers] hm_points_length [of m peers]
  by (simp add: hm_Add_fields)

theorem hm_Add_preserves_ring_wf_witness:
  "ring_wf (hm_Add (hm_New 2 (Some (\<lambda>bs. of_nat (length bs)))) [''A'']) ({} \<union> set [''A'']) \<and>
   mset (keys (hm_Add (hm_New 2 (Some (\<lambda>bs. of_nat (length bs)))) [''A''])) =
     mset (keys (hm_New 2 (Some (\<lambda>bs. of_nat (length bs))))) +
     mset (map fst (hm_points (hm_New 2 (Some (\<lambda>bs. of_nat (length bs)))) [''A''])) \<and>
   length (keys (hm_Add (hm_New 2 (Some (\<lambda>bs. of_nat (length bs)))) [''A''])) =
     length (keys (hm_New 2 (Some (\<lambda>bs. of_nat (length bs))))) +
     length [''A''] * nat (replicas (hm_New 2 (Some (\<lambda>bs. of_nat (length bs)))))"
  by (rule hm_Add_preserves_ring_wf [OF ring_wf_New])

text \<open>
  C13: coverage. A ring built by \<open>New(r, fn)\<close> and \<open>Add(peers)\<close> with \<open>r > 0\<close>
  replicas and at least one peer answers every key with one of the added peers, for
  any hash function.
\<close>

theorem hm_Get_coverage:
  assumes "0 < r" and "peers \<noteq> []"
  shows "hm_Get (hm_Add (hm_New r fn) peers) key \<in> set peers"
proof -
  have wf: "ring_wf (hm_Add (hm_New r fn) peers) ({} \<union> set peers)"
    by (rule ring_wf_Add [OF ring_wf_New])
  have "length (keys (hm_Add (hm_New r fn) peers)) = length peers * nat r"
    by (simp add: hm_Add_fields hm_points_length hm_New_def)
  with assms have "keys (hm_Add (hm_New r fn) peers) \<noteq> []" by auto
  from hm_Get_in_owners [OF wf this] show ?thesis by simp
qed

theorem hm_Get_coverage_witness:
  "hm_Get (hm_Add (hm_New 3 None) [''localhost:8001'', ''localhost:8002'']) ''Tom''
     \<in> set [''localhost:8001'', ''localhost:8002'']"
  by (rule hm_Get_coverage) simp_all

text \<open>
  C14: adding peers moves keys only to the new peers. On a non-empty sorted ring,
  after \<open>Add(peers)\<close> every key is owned by the peer that owned it before or by one
  of the added peers: a key never moves between two old peers. This holds also when
  a new point coincides with an old one (the new peer then takes the point over).
\<close>

theorem hm_Add_moves_keys_only_to_new_peers:
  assumes "sorted (keys m)" and "keys m \<noteq> []"
  shows "hm_Get (hm_Add m peers) key = hm_Get m key \<or> hm_Get (hm_Add m peers) key \<in> set peers"
proof -
  let ?m' = "hm_Add m peers" and ?h = "uint (hash m (bytes_of_string key))"
  let ?B = "fst ` set (hm_points m peers)"
  have set': "set (keys ?m') = set (keys m) \<union> ?B" by (auto simp: hm_Add_fields)
  with assms(2) have "keys ?m' \<noteq> []" by auto
  with set' have ks': "sorted (keys ?m')" "keys ?m' \<noteq> []" "set (keys ?m') = set (keys m) \<union> ?B"
    by (simp_all add: hm_Add_fields)
  have g': "hm_Get ?m' key =
      (case hashMap ?m' (ring_successor (keys ?m') ?h) of None \<Rightarrow> '''' | Some p \<Rightarrow> p)"
    using hm_Get_successor [OF ks'(1,2), of key] by (simp add: hm_Add_fields)
  note g = hm_Get_successor [OF assms, of key]
  consider (new) "ring_successor (keys ?m') ?h \<in> ?B"
    | (old) "ring_successor (keys ?m') ?h \<notin> ?B" "ring_successor (keys ?m') ?h = ring_successor (keys m) ?h"
    using ring_successor_union [OF assms ks'(1,3), of ?h] by blast
  then show ?thesis
  proof cases
    case new
    then obtain p where "p \<in> set peers" "hashMap ?m' (ring_successor (keys ?m') ?h) = Some p"
      using hm_Add_owner_new by blast
    with g' show ?thesis by simp
  next
    case old
    with g g' hm_Add_owner_old [OF old(1)] show ?thesis by simp
  qed
qed

theorem hm_Add_moves_keys_only_to_new_peers_witness:
  "hm_Get (hm_Add \<lparr>hash = \<lambda>bs. of_nat (length bs), replicas = 1, keys = [2, 5],
                    hashMap = [2 \<mapsto> ''A'', 5 \<mapsto> ''B'']\<rparr> [''C'']) ''abc'' =
     hm_Get \<lparr>hash = \<lambda>bs. of_nat (length bs), replicas = 1, keys = [2, 5],
             hashMap = [2 \<mapsto> ''A'', 5 \<mapsto> ''B'']\<rparr> ''abc'' \<or>
   hm_Get (hm_Add \<lparr>hash = \<lambda>bs. of_nat (length bs), replicas = 1, keys = [2, 5],
                    hashMap = [2 \<mapsto> ''A'', 5 \<mapsto> ''B'']\<rparr> [''C'']) ''abc'' \<in> set [''C'']"
  by (rule hm_Add_moves_keys_only_to_new_peers) simp_all


text \<open>
  The binary search of \<open>Get\<close> finds the first point not below the hash. On
  sorted points \<open>ks\<close>, \<open>sort.Search(len(ks), func(i) { return ks[i] >= h })\<close>
  returns the index \<open>i \<le> len(ks)\<close> such that all points before \<open>i\<close> are below
  \<open>h\<close> and, when \<open>i < len(ks)\<close>, the point at \<open>i\<close> is not; the loop terminates
  (its measure is \<open>j - i\<close>).
\<close>

theorem sort_Search_first_point:
  assumes "sorted ks"
  shows "sort_Search (length ks) (\<lambda>i. h \<le> ks ! i) \<le> length ks \<and>
    (\<forall>k < sort_Search (length ks) (\<lambda>i. h \<le> ks ! i). ks ! k < h) \<and>
    (sort_Search (length ks) (\<lambda>i. h \<le> ks ! i) < length ks \<longrightarrow>
       h \<le> ks ! sort_Search (length ks) (\<lambda>i. h \<le> ks ! i))"
proof -
  have mono: "\<And>a b. a \<le> b \<Longrightarrow> b < length ks \<Longrightarrow> h \<le> ks ! a \<Longrightarrow> h \<le> ks ! b"
    using assms by (meson order_trans sorted_nth_mono)
  show ?thesis
    using sort_Search_takeWhile [OF mono] takeWhile_upt_props [of "\<lambda>i. h \<le> ks ! i" "length ks"]
    by (simp add: not_le)
qed

theorem sort_Search_first_point_witness:
  "sort_Search (length [2, 5, 9 :: int]) (\<lambda>i. 3 \<le> [2, 5, 9 :: int] ! i) = 1"
proof -
  let ?s = "sort_Search (length [2, 5, 9 :: int]) (\<lambda>i. 3 \<le> [2, 5, 9 :: int] ! i)"
  have "sorted [2, 5, 9 :: int]" by simp
  from sort_Search_first_point [OF this, of 3]
  have le: "?s \<le> 3" and below: "\<forall>k < ?s. [2, 5, 9 :: int] ! k < 3"
    and at: "?s < 3 \<longrightarrow> 3 \<le> [2, 5, 9 :: int] ! ?s" by simp_all
  from below have "\<not> 1 < ?s" by (auto dest: spec [of _ 1])
  moreover have "?s \<noteq> 0"
  proof
    assume z: "?s = 0"
    from at show False unfolding z by simp
  qed
  ultimately show ?thesis by simp
qed

text \<open>
  The empty string is the "no peer" answer exactly for the empty ring, provided
  no peer is named by the empty string: on a well-formed ring whose peers are all
  non-empty names, \<open>Get\<close> returns \<open>""\<close> if and only if the ring has no points.
\<close>

theorem hm_Get_empty_iff_no_points:
  assumes "ring_wf m P" and "'''' \<notin> P"
  shows "hm_Get m key = '''' \<longleftrightarrow> keys m = []"
proof
  assume e: "hm_Get m key = ''''"
  show "keys m = []"
  proof (rule ccontr)
    assume "keys m \<noteq> []"
    from hm_Get_in_owners [OF assms(1) this, of key] e assms(2) show False by simp
  qed
next
  assume "keys m = []"
  then show "hm_Get m key = ''''" by (simp add: hm_Get_def)
qed

theorem hm_Get_empty_iff_no_points_witness:
  "hm_Get (hm_Add (hm_New 2 None) [''A'']) ''Tom'' = '''' \<longleftrightarrow>
   keys (hm_Add (hm_New 2 None) [''A'']) = []"
  by (rule hm_Get_empty_iff_no_points [OF ring_wf_Add [OF ring_wf_New]]) simp

text \<open>
  A peer named by the empty string is indistinguishable from an empty ring. With
  any hash function and \<open>r > 0\<close> replicas, the ring built from the single peer
  \<open>""\<close> has points, yet every \<open>Get\<close> returns \<open>""\<close>, the value \<open>Get\<close> uses to
  report that there is no peer.
\<close>

theorem hm_Get_empty_name_peer:
  assumes "0 < r"
  shows "keys (hm_Add (hm_New r fn) ['''']) \<noteq> [] \<and> hm_Get (hm_Add (hm_New r fn) ['''']) key = ''''"
proof -
  have wf: "ring_wf (hm_Add (hm_New r fn) ['''']) ({} \<union> set [''''])"
    by (rule ring_wf_Add [OF ring_wf_New])
  have "length (keys (hm_Add (hm_New r fn) [''''])) = nat r"
    by (simp add: hm_Add_fields hm_points_length hm_New_def)
  with assms have ne: "keys (hm_Add (hm_New r fn) ['''']) \<noteq> []" by auto
  from hm_Get_in_owners [OF wf ne] ne show ?thesis by simp
qed

theorem hm_Get_empty_name_peer_witness:
  "keys (hm_Add (hm_New 3 None) ['''']) \<noteq> [] \<and> hm_Get (hm_Add (hm_New 3 None) ['''']) ''Tom'' = ''''"
  by (rule hm_Get_empty_name_peer) simp


text \<open>
  C18: colliding points go to the peer added last. When all points collide (a hash
  function with one value \<open>w\<close>), the ring holds \<open>replicas\<close> copies of the point
  per peer, all the same number, and every key is owned by the last peer added: the
  earlier peers' points are still in \<open>keys\<close> but the map \<open>hashMap\<close> only keeps the
  last write.
\<close>

theorem hm_Add_collision_last_peer_wins:
  assumes "0 < r" and "peers \<noteq> []"
  shows "keys (hm_Add (hm_New r (Some (\<lambda>_. w))) peers) = replicate (length peers * nat r) (uint w) \<and>
    hm_Get (hm_Add (hm_New r (Some (\<lambda>_. w))) peers) key = last peers"
proof -
  let ?m = "hm_New r (Some (\<lambda>_. w))"
  let ?m' = "hm_Add ?m peers"
  have pts: "hm_points ?m peers = concat (map (\<lambda>p. replicate (nat r) (uint w, p)) peers)"
    using hm_points_const [of ?m w peers] by (simp add: hm_New_def)
  have "\<forall>y\<in>set (map fst (hm_points ?m peers)). y = uint w" unfolding pts by auto
  then have "replicate (length (map fst (hm_points ?m peers))) (uint w) = map fst (hm_points ?m peers)"
    by (rule replicate_length_same)
  then have f: "map fst (hm_points ?m peers) = replicate (length peers * nat r) (uint w)"
    using hm_points_length [of ?m peers] by (simp add: hm_New_def)
  have "keys ?m = []" by (simp add: hm_New_def)
  with f have k: "keys ?m' = replicate (length peers * nat r) (uint w)"
    by (simp add: hm_Add_fields sorted_sort_id)
  obtain ps q where pq: "peers = ps @ [q]" using assms(2) by (cases peers rule: rev_cases) auto
  obtain n where n: "nat r = Suc n" using assms(1) by (cases "nat r") auto
  have own: "hashMap ?m' (uint w) = Some (last peers)"
    unfolding hm_Add_lookup pts by (simp add: pq n map_of_replicate)
  have ne: "keys ?m' \<noteq> []" using k assms by simp
  from k ne have "ring_successor (keys ?m') (uint (hash ?m' (bytes_of_string key))) = uint w"
    using ring_successor_in [OF ne] by (auto simp: in_set_replicate)
  with hm_Get_successor [OF _ ne, of key] own k show ?thesis by simp
qed

theorem hm_Add_collision_last_peer_wins_witness:
  "keys (hm_Add (hm_New 1 (Some (\<lambda>_. 7))) [''a'', ''b'']) =
     replicate (length [''a'', ''b''] * nat 1) (uint (7 :: 32 word)) \<and>
   hm_Get (hm_Add (hm_New 1 (Some (\<lambda>_. 7))) [''a'', ''b'']) ''Tom'' = last [''a'', ''b'']"
  by (rule hm_Add_collision_last_peer_wins) simp_all


text \<open>
  C39: the order of the peers does not matter when no points collide. Two nodes that
  add the same peers in different orders (\<open>src/main/main.go\<close> collects them from a
  Go map, whose iteration order differs between processes) build the same ring, as
  long as the points of the peers are pairwise distinct.
\<close>

theorem hm_Add_peer_order_irrelevant:
  assumes "mset ps = mset qs" and "distinct (map fst (hm_points (hm_New r fn) ps))"
  shows "hm_Add (hm_New r fn) ps = hm_Add (hm_New r fn) qs"
proof -
  let ?m = "hm_New r fn"
  have pts: "mset (hm_points ?m ps) = mset (hm_points ?m qs)"
    using perm_sum_list_map [OF assms(1), of "\<lambda>key. mset (map (\<lambda>i. (hm_point ?m key i, key)) [0..<nat (replicas ?m)])"]
    by (simp add: hm_points_def mset_concat comp_def)
  then have fst_eq: "mset (map fst (hm_points ?m ps)) = mset (map fst (hm_points ?m qs))"
    by (metis mset_map)
  have k: "keys (hm_Add ?m ps) = keys (hm_Add ?m qs)"
    using fst_eq by (simp add: hm_Add_fields hm_New_def properties_for_sort [symmetric])
  have d2: "distinct (map fst (hm_points ?m qs))" using assms(2) mset_eq_imp_distinct_iff [OF fst_eq] by simp
  have "map_of (rev (hm_points ?m ps)) = map_of (rev (hm_points ?m qs))"
  proof (subst map_of_inject_set)
    show "distinct (map fst (rev (hm_points ?m ps)))" using assms(2) by (simp add: rev_map [symmetric])
    show "distinct (map fst (rev (hm_points ?m qs)))" using d2 by (simp add: rev_map [symmetric])
    show "set (rev (hm_points ?m ps)) = set (rev (hm_points ?m qs))" using pts by (metis set_mset_mset set_rev)
  qed
  then have h: "hashMap (hm_Add ?m ps) = hashMap (hm_Add ?m qs)"
    by (simp add: hm_Add_fields put_all_lookup fun_eq_iff hm_New_def)
  show ?thesis using k h by (intro hmap.equality) (simp_all add: hm_Add_fields)
qed

theorem hm_Add_peer_order_irrelevant_witness:
  "hm_Add (hm_New 1 (Some (\<lambda>bs. of_nat (length bs)))) [''a'', ''bb''] =
   hm_Add (hm_New 1 (Some (\<lambda>bs. of_nat (length bs)))) [''bb'', ''a'']"
  by (rule hm_Add_peer_order_irrelevant)
     (simp_all add: hm_points_def hm_point_def hm_New_def bytes_of_string_def)

end
