(* ===== verification/SingleFlight.thy ===== *)
theory SingleFlight
  imports Prelude
begin

text \<open>
  \<open>src/singleflight/singlefilight.go\<close>: the coalescer. \<open>Group.Do(key, fn)\<close> runs
  \<open>fn\<close> once per key at a time: under the mutex \<open>mu\<close> it looks the key up in
  \<open>m\<close> (created lazily); a caller that finds a \<open>call\<close> waits on its
  \<open>WaitGroup\<close> and returns its \<open>val, err\<close>; otherwise it allocates a \<open>call\<close>,
  sets its counter to 1, registers it, runs \<open>fn\<close> outside the lock, stores the result,
  calls \<open>Done\<close>, and deletes the key under the lock.

  The model is a step relation over threads, each executing one \<open>Do\<close>. A region
  executed under \<open>mu\<close> is one atomic step (lines 30--51 and 56--58): the mutex
  serialises them and nothing else touches \<open>m\<close>. The \<open>call\<close> objects live in a
  store \<open>sf_calls\<close> indexed by address, as several goroutines share one pointer; the
  result \<open>val, err\<close> is one value of type \<open>'r\<close>, \<open>None\<close> before \<open>fn\<close>
  returns (Go's zero values). Two ghost fields record what the proofs need and Go does
  not keep: the thread and key that created each call, and the trace of \<open>fn\<close> runs.
  A panicking \<open>fn\<close> is the step to \<open>Panicked\<close>: \<open>Do\<close> has no \<open>defer\<close>, so
  the panic unwinds past \<open>Done\<close> and the \<open>delete\<close>, and the thread takes no
  further step in \<open>Do\<close>.
\<close>

type_synonym cid = nat
type_synonym tid = nat

record 'r call =
  wg :: nat
  cval :: "'r option"

text \<open>Where a thread is in \<open>Do\<close>: the key it asked for and the call it uses.\<close>

datatype 'r thread =
    Idle
  | Calling string
  | Waiting string cid
  | Running string cid
  | Panicked string cid
  | Ran string cid
  | Deleting string cid
  | Returned string cid "'r option"

record 'r sf_state =
  sf_m :: "(string \<rightharpoonup> cid) option"
  sf_calls :: "cid \<Rightarrow> 'r call"
  sf_next :: cid
  sf_pc :: "tid \<Rightarrow> 'r thread"
  sf_owner :: "cid \<rightharpoonup> tid \<times> string"
  sf_runs :: "(cid \<times> 'r) list"

text \<open>\<open>if g.m == nil { g.m = make(map[string]*call) }\<close> (lines 33--35).\<close>

definition sf_gm :: "'r sf_state \<Rightarrow> string \<rightharpoonup> cid" where
  "sf_gm s = (case sf_m s of None \<Rightarrow> Map.empty | Some m \<Rightarrow> m)"

text \<open>
  Lines 30--51, under the lock: join the registered call (go on to \<open>Wait\<close>), or
  allocate a call with counter 1, register it and go on to run \<open>fn\<close>.
\<close>

definition sf_enter :: "tid \<Rightarrow> 'r sf_state \<Rightarrow> 'r sf_state option" where
  "sf_enter t s =
     (case sf_pc s t of
        Calling k \<Rightarrow>
          (let m = sf_gm s in
           case m k of
             Some c \<Rightarrow> Some (s\<lparr>sf_m := Some m, sf_pc := (sf_pc s)(t := Waiting k c)\<rparr>)
           | None \<Rightarrow>
               (let c = sf_next s in
                Some (s\<lparr>sf_m := Some (m(k \<mapsto> c)),
                        sf_calls := (sf_calls s)(c := \<lparr>wg = 1, cval = None\<rparr>),
                        sf_next := Suc c, sf_pc := (sf_pc s)(t := Running k c),
                        sf_owner := (sf_owner s)(c \<mapsto> (t, k))\<rparr>)))
      | _ \<Rightarrow> None)"

text \<open>Line 53: \<open>c.val, c.err = fn()\<close>; \<open>fn\<close> may return any result \<open>r\<close>.\<close>

definition sf_run :: "tid \<Rightarrow> 'r \<Rightarrow> 'r sf_state \<Rightarrow> 'r sf_state option" where
  "sf_run t r s =
     (case sf_pc s t of
        Running k c \<Rightarrow>
          Some (s\<lparr>sf_calls := (sf_calls s)(c := (sf_calls s c)\<lparr>cval := Some r\<rparr>),
                  sf_runs := sf_runs s @ [(c, r)], sf_pc := (sf_pc s)(t := Ran k c)\<rparr>)
      | _ \<Rightarrow> None)"

text \<open>
  Line 53 when \<open>fn\<close> panics: the panic unwinds out of \<open>Do\<close>. \<open>Do\<close> has no
  \<open>defer\<close>, so neither \<open>c.wg.Done()\<close> (line 54) nor the \<open>delete\<close> (lines 56--58)
  runs: the call stays registered with its counter at 1 and no result.
\<close>

definition sf_panic :: "tid \<Rightarrow> 'r sf_state \<Rightarrow> 'r sf_state option" where
  "sf_panic t s =
     (case sf_pc s t of
        Running k c \<Rightarrow> Some (s\<lparr>sf_pc := (sf_pc s)(t := Panicked k c)\<rparr>)
      | _ \<Rightarrow> None)"

text \<open>Line 54: \<open>c.wg.Done()\<close>.\<close>

definition sf_done :: "tid \<Rightarrow> 'r sf_state \<Rightarrow> 'r sf_state option" where
  "sf_done t s =
     (case sf_pc s t of
        Ran k c \<Rightarrow>
          Some (s\<lparr>sf_calls := (sf_calls s)(c := (sf_calls s c)\<lparr>wg := wg (sf_calls s c) - 1\<rparr>),
                  sf_pc := (sf_pc s)(t := Deleting k c)\<rparr>)
      | _ \<Rightarrow> None)"

text \<open>Lines 56--60: \<open>delete(g.m, key)\<close> under the lock, then return \<open>c.val, c.err\<close>.\<close>

definition sf_delete :: "tid \<Rightarrow> 'r sf_state \<Rightarrow> 'r sf_state option" where
  "sf_delete t s =
     (case sf_pc s t of
        Deleting k c \<Rightarrow>
          Some (s\<lparr>sf_m := map_option (\<lambda>m. m(k := None)) (sf_m s),
                  sf_pc := (sf_pc s)(t := Returned k c (cval (sf_calls s c)))\<rparr>)
      | _ \<Rightarrow> None)"

text \<open>Lines 41--43: \<open>c.wg.Wait()\<close> blocks until the counter is 0, then return.\<close>

definition sf_wake :: "tid \<Rightarrow> 'r sf_state \<Rightarrow> 'r sf_state option" where
  "sf_wake t s =
     (case sf_pc s t of
        Waiting k c \<Rightarrow>
          (if wg (sf_calls s c) = 0
           then Some (s\<lparr>sf_pc := (sf_pc s)(t := Returned k c (cval (sf_calls s c)))\<rparr>)
           else None)
      | _ \<Rightarrow> None)"

text \<open>One step of one thread; the interleaving of threads is any order of steps.\<close>

inductive sf_step :: "'r sf_state \<Rightarrow> 'r sf_state \<Rightarrow> bool" where
  step_enter: "sf_enter t s = Some s' \<Longrightarrow> sf_step s s'"
| step_run: "sf_run t r s = Some s' \<Longrightarrow> sf_step s s'"
| step_panic: "sf_panic t s = Some s' \<Longrightarrow> sf_step s s'"
| step_done: "sf_done t s = Some s' \<Longrightarrow> sf_step s s'"
| step_delete: "sf_delete t s = Some s' \<Longrightarrow> sf_step s s'"
| step_wake: "sf_wake t s = Some s' \<Longrightarrow> sf_step s s'"

text \<open>A zero \<open>Group\<close> and threads that each call \<open>Do\<close> with a key, or not at all.\<close>

definition sf_init :: "(tid \<Rightarrow> string option) \<Rightarrow> 'r sf_state" where
  "sf_init ks =
     \<lparr>sf_m = None, sf_calls = (\<lambda>_. \<lparr>wg = 0, cval = None\<rparr>), sf_next = 0,
      sf_pc = (\<lambda>t. case ks t of None \<Rightarrow> Idle | Some k \<Rightarrow> Calling k),
      sf_owner = Map.empty, sf_runs = []\<rparr>"

inductive sf_reach :: "(tid \<Rightarrow> string option) \<Rightarrow> 'r sf_state \<Rightarrow> bool" for ks where
  reach_init: "sf_reach ks (sf_init ks)"
| reach_step: "sf_reach ks s \<Longrightarrow> sf_step s s' \<Longrightarrow> sf_reach ks s'"

text \<open>
  A schedule: the steps of the threads in the order they interleave. \<open>sf_exec\<close>
  runs a schedule and fails when a step is not enabled.
\<close>

datatype 'r sf_action = Enter tid | Run tid 'r | Panic tid | Done tid | Delete tid | Wake tid

fun sf_act :: "'r sf_action \<Rightarrow> 'r sf_state \<Rightarrow> 'r sf_state option" where
  "sf_act (Enter t) = sf_enter t"
| "sf_act (Run t r) = sf_run t r"
| "sf_act (Panic t) = sf_panic t"
| "sf_act (Done t) = sf_done t"
| "sf_act (Delete t) = sf_delete t"
| "sf_act (Wake t) = sf_wake t"

fun sf_exec :: "'r sf_action list \<Rightarrow> 'r sf_state \<Rightarrow> 'r sf_state option" where
  "sf_exec [] s = Some s"
| "sf_exec (a # as) s = (case sf_act a s of None \<Rightarrow> None | Some s' \<Rightarrow> sf_exec as s')"

text \<open>
  The test of the spec: two threads ask for \<open>"Tom"\<close>; thread 0 registers the call,
  thread 1 joins it, thread 0 runs \<open>fn\<close> (which returns \<open>"630"\<close>), finishes and
  deletes the key, thread 1 wakes.
\<close>

abbreviation sf_two :: "tid \<Rightarrow> string option" where
  "sf_two \<equiv> (\<lambda>t. if t < 2 then Some ''Tom'' else None)"

abbreviation sf_demo :: "string sf_state option" where
  "sf_demo \<equiv> sf_exec [Enter 0, Enter 1, Run 0 ''630'', Done 0, Delete 0, Wake 1] (sf_init sf_two)"

text \<open>Two callers of one key whose \<open>fn\<close> panics while the second waits.\<close>

definition sf_panic_ex :: "string sf_state" where
  "sf_panic_ex = the (sf_exec [Enter 0, Enter 1, Panic 0] (sf_init sf_two))"

section \<open>The invariant\<close>

text \<open>The call a thread is running \<open>fn\<close> for (between registering and deleting it);
  a call whose \<open>fn\<close> panicked stays registered for ever.\<close>

fun inflight :: "'r thread \<Rightarrow> (string \<times> cid) option" where
  "inflight (Running k c) = Some (k, c)"
| "inflight (Panicked k c) = Some (k, c)"
| "inflight (Ran k c) = Some (k, c)"
| "inflight (Deleting k c) = Some (k, c)"
| "inflight _ = None"

text \<open>The call a thread has joined or created, once past the lookup.\<close>

fun joined :: "'r thread \<Rightarrow> (string \<times> cid) option" where
  "joined Idle = None"
| "joined (Calling _) = None"
| "joined (Waiting k c) = Some (k, c)"
| "joined (Running k c) = Some (k, c)"
| "joined (Panicked k c) = Some (k, c)"
| "joined (Ran k c) = Some (k, c)"
| "joined (Deleting k c) = Some (k, c)"
| "joined (Returned k c _) = Some (k, c)"

text \<open>The runs of \<open>fn\<close> recorded for call \<open>c\<close>.\<close>

definition runs_of :: "'r sf_state \<Rightarrow> cid \<Rightarrow> 'r list" where
  "runs_of s c = map snd (filter (\<lambda>x. fst x = c) (sf_runs s))"

text \<open>What the owner's position says about its call's counter, result and runs.\<close>

fun owner_phase :: "'r sf_state \<Rightarrow> cid \<Rightarrow> 'r thread \<Rightarrow> bool" where
  "owner_phase s c (Running k c') \<longleftrightarrow>
     c' = c \<and> wg (sf_calls s c) = 1 \<and> cval (sf_calls s c) = None \<and> runs_of s c = []"
| "owner_phase s c (Panicked k c') \<longleftrightarrow>
     c' = c \<and> wg (sf_calls s c) = 1 \<and> cval (sf_calls s c) = None \<and> runs_of s c = []"
| "owner_phase s c (Ran k c') \<longleftrightarrow>
     c' = c \<and> wg (sf_calls s c) = 1 \<and> (\<exists>v. cval (sf_calls s c) = Some v \<and> runs_of s c = [v])"
| "owner_phase s c (Deleting k c') \<longleftrightarrow>
     c' = c \<and> wg (sf_calls s c) = 0 \<and> (\<exists>v. cval (sf_calls s c) = Some v \<and> runs_of s c = [v])"
| "owner_phase s c (Returned k c' r) \<longleftrightarrow>
     c' = c \<and> wg (sf_calls s c) = 0 \<and> (\<exists>v. cval (sf_calls s c) = Some v \<and> runs_of s c = [v])"
| "owner_phase s c _ \<longleftrightarrow> False"

text \<open>
  The invariant, in five parts: the registry \<open>m\<close> holds exactly the calls whose
  owner is between registering and deleting; a thread that joined a call joined one
  created for its key; an owner's position fixes its call's counter, result and runs;
  calls nobody created have no runs; a returned thread returned its call's result after
  the counter reached 0.
\<close>

definition inv_reg :: "'r sf_state \<Rightarrow> bool" where
  "inv_reg s \<longleftrightarrow>
     (\<forall>t k c. inflight (sf_pc s t) = Some (k, c) \<longrightarrow>
        sf_owner s c = Some (t, k) \<and> sf_gm s k = Some c) \<and>
     (\<forall>k c. sf_gm s k = Some c \<longrightarrow>
        (\<exists>t. sf_owner s c = Some (t, k) \<and> inflight (sf_pc s t) = Some (k, c)))"

definition inv_joined :: "'r sf_state \<Rightarrow> bool" where
  "inv_joined s \<longleftrightarrow>
     (\<forall>t k c. joined (sf_pc s t) = Some (k, c) \<longrightarrow> (\<exists>t'. sf_owner s c = Some (t', k)))"

definition inv_owner :: "'r sf_state \<Rightarrow> bool" where
  "inv_owner s \<longleftrightarrow>
     (\<forall>c t k. sf_owner s c = Some (t, k) \<longrightarrow>
        c < sf_next s \<and> joined (sf_pc s t) = Some (k, c) \<and> owner_phase s c (sf_pc s t))"

definition inv_unowned :: "'r sf_state \<Rightarrow> bool" where
  "inv_unowned s \<longleftrightarrow> (\<forall>c. sf_owner s c = None \<longrightarrow> runs_of s c = [])"

definition inv_ret :: "'r sf_state \<Rightarrow> bool" where
  "inv_ret s \<longleftrightarrow>
     (\<forall>t k c r. sf_pc s t = Returned k c r \<longrightarrow> r = cval (sf_calls s c) \<and> wg (sf_calls s c) = 0)"

definition sf_inv :: "'r sf_state \<Rightarrow> bool" where
  "sf_inv s \<longleftrightarrow> inv_reg s \<and> inv_joined s \<and> inv_owner s \<and> inv_unowned s \<and> inv_ret s"

text \<open>How many steps a thread has left: the measure that every step decreases.\<close>

fun pc_weight :: "'r thread \<Rightarrow> nat" where
  "pc_weight Idle = 0"
| "pc_weight (Calling _) = 5"
| "pc_weight (Waiting _ _) = 1"
| "pc_weight (Running _ _) = 4"
| "pc_weight (Panicked _ _) = 0"
| "pc_weight (Ran _ _) = 3"
| "pc_weight (Deleting _ _) = 2"
| "pc_weight (Returned _ _ _) = 0"

section \<open>Each step keeps the invariant\<close>

lemma inv_reg_cong:
  "(\<And>t. inflight (sf_pc s' t) = inflight (sf_pc s t)) \<Longrightarrow> sf_gm s' = sf_gm s \<Longrightarrow>
   sf_owner s' = sf_owner s \<Longrightarrow> inv_reg s' = inv_reg s"
  by (simp add: inv_reg_def)

lemma inv_joined_cong:
  "(\<And>t. joined (sf_pc s' t) = joined (sf_pc s t)) \<Longrightarrow> sf_owner s' = sf_owner s \<Longrightarrow>
   inv_joined s' = inv_joined s"
  by (simp add: inv_joined_def)

lemma owner_phase_cong:
  "sf_calls s' c = sf_calls s c \<Longrightarrow> runs_of s' c = runs_of s c \<Longrightarrow>
   owner_phase s' c p = owner_phase s c p"
  by (cases p) simp_all

lemma owner_phase_joined: "owner_phase s c p \<Longrightarrow> \<exists>k. joined p = Some (k, c)"
  by (cases p) simp_all

lemma inv_ownerD:
  "inv_owner s \<Longrightarrow> sf_owner s c = Some (t, k) \<Longrightarrow>
   c < sf_next s \<and> joined (sf_pc s t) = Some (k, c) \<and> owner_phase s c (sf_pc s t)"
  by (simp add: inv_owner_def)

lemma inv_reg_inflight:
  "inv_reg s \<Longrightarrow> inflight (sf_pc s t) = Some (k, c) \<Longrightarrow> sf_owner s c = Some (t, k) \<and> sf_gm s k = Some c"
  by (simp add: inv_reg_def)

lemma sf_inv_joinedD:
  "sf_inv s \<Longrightarrow> joined (sf_pc s t) = Some (k, c) \<Longrightarrow> \<exists>t'. sf_owner s c = Some (t', k)"
  by (simp add: sf_inv_def inv_joined_def)

lemma runs_of_same: "sf_runs s' = sf_runs s \<Longrightarrow> runs_of s' = runs_of s"
  by (rule ext) (simp add: runs_of_def)

lemma sf_inv_run:
  assumes inv: "sf_inv s" and st: "sf_run t r s = Some s'"
  shows "sf_inv s'"
proof -
  from st obtain k c where pc: "sf_pc s t = Running k c" and
    s': "s' = s\<lparr>sf_calls := (sf_calls s)(c := (sf_calls s c)\<lparr>cval := Some r\<rparr>),
                  sf_runs := sf_runs s @ [(c, r)], sf_pc := (sf_pc s)(t := Ran k c)\<rparr>"
    by (auto simp: sf_run_def split: thread.splits)
  from pc have "inflight (sf_pc s t) = Some (k, c)" by simp
  with inv have own: "sf_owner s c = Some (t, k)" by (auto simp: sf_inv_def dest: inv_reg_inflight)
  with inv pc have ph: "wg (sf_calls s c) = 1" "cval (sf_calls s c) = None" "runs_of s c = []"
    by (auto simp: sf_inv_def dest: inv_ownerD)
  have runs: "runs_of s' c' = runs_of s c' @ (if c' = c then [r] else [])" for c'
    by (simp add: s' runs_of_def)
  have reg: "inv_reg s'" using inv pc
    by (subst inv_reg_cong [of s' s]) (auto simp: s' sf_gm_def sf_inv_def)
  have jn: "inv_joined s'" using inv pc
    by (subst inv_joined_cong [of s' s]) (auto simp: s' sf_inv_def)
  have ow: "inv_owner s'" unfolding inv_owner_def
  proof (intro allI impI)
    fix c' t' k' assume o': "sf_owner s' c' = Some (t', k')"
    then have o: "sf_owner s c' = Some (t', k')" by (simp add: s')
    from inv_ownerD [OF _ o] inv have d: "c' < sf_next s" "joined (sf_pc s t') = Some (k', c')"
      "owner_phase s c' (sf_pc s t')" by (auto simp: sf_inv_def)
    show "c' < sf_next s' \<and> joined (sf_pc s' t') = Some (k', c') \<and> owner_phase s' c' (sf_pc s' t')"
    proof (cases "c' = c")
      case True
      with o own have "t' = t" "k' = k" by simp_all
      with True d(1) ph runs [of c] show ?thesis by (simp add: s')
    next
      case False
      with d(2) pc have "t' \<noteq> t" by auto
      with False d runs [of c'] owner_phase_cong [of s' c' s] show ?thesis by (simp add: s')
    qed
  qed
  have un: "inv_unowned s'" using inv own runs
    by (auto simp: inv_unowned_def sf_inv_def s')
  have rt: "inv_ret s'" unfolding inv_ret_def
  proof (intro allI impI)
    fix t' k' c' r' assume "sf_pc s' t' = Returned k' c' r'"
    with pc have t': "t' \<noteq> t" "sf_pc s t' = Returned k' c' r'" by (auto simp: s' split: if_splits)
    with inv have "r' = cval (sf_calls s c') \<and> wg (sf_calls s c') = 0" by (simp add: sf_inv_def inv_ret_def)
    with ph show "r' = cval (sf_calls s' c') \<and> wg (sf_calls s' c') = 0" by (auto simp: s')
  qed
  from reg jn ow un rt show ?thesis by (simp add: sf_inv_def)
qed


lemma sf_inv_panic:
  assumes inv: "sf_inv s" and st: "sf_panic t s = Some s'"
  shows "sf_inv s'"
proof -
  from st obtain k c where pc: "sf_pc s t = Running k c"
    and s': "s' = s\<lparr>sf_pc := (sf_pc s)(t := Panicked k c)\<rparr>"
    by (auto simp: sf_panic_def split: thread.splits)
  have inf: "inflight (sf_pc s' u) = inflight (sf_pc s u)" for u using pc by (simp add: s')
  have jn: "joined (sf_pc s' u) = joined (sf_pc s u)" for u using pc by (simp add: s')
  have ph: "owner_phase s' c' (sf_pc s' u) = owner_phase s c' (sf_pc s u)" for c' u
  proof (cases "u = t")
    case True
    with pc show ?thesis by (simp add: s' runs_of_def)
  next
    case False
    with owner_phase_cong [of s' c' s] show ?thesis by (simp add: s' runs_of_def)
  qed
  have rt: "sf_pc s' u = Returned k' c' r' \<longleftrightarrow> sf_pc s u = Returned k' c' r'" for u k' c' r'
    using pc by (simp add: s')
  have "inv_reg s' = inv_reg s" by (rule inv_reg_cong [OF inf]) (simp_all add: s' sf_gm_def)
  moreover have "inv_joined s' = inv_joined s" by (rule inv_joined_cong [OF jn]) (simp add: s')
  moreover have "inv_owner s' = inv_owner s" by (simp only: inv_owner_def jn ph) (simp add: s')
  moreover have "inv_unowned s' = inv_unowned s" by (simp add: inv_unowned_def runs_of_def s')
  moreover have "inv_ret s' = inv_ret s" by (simp only: inv_ret_def rt) (simp add: s')
  ultimately show ?thesis using inv by (simp add: sf_inv_def)
qed

lemma sf_inv_done:
  assumes inv: "sf_inv s" and st: "sf_done t s = Some s'"
  shows "sf_inv s'"
proof -
  from st obtain k c where pc: "sf_pc s t = Ran k c" and
    s': "s' = s\<lparr>sf_calls := (sf_calls s)(c := (sf_calls s c)\<lparr>wg := wg (sf_calls s c) - 1\<rparr>),
                  sf_pc := (sf_pc s)(t := Deleting k c)\<rparr>"
    by (auto simp: sf_done_def split: thread.splits)
  from pc have "inflight (sf_pc s t) = Some (k, c)" by simp
  with inv have own: "sf_owner s c = Some (t, k)" by (auto simp: sf_inv_def dest: inv_reg_inflight)
  with inv pc have ph: "wg (sf_calls s c) = 1" "\<exists>v. cval (sf_calls s c) = Some v \<and> runs_of s c = [v]"
    by (auto simp: sf_inv_def dest: inv_ownerD)
  have runs: "runs_of s' = runs_of s" by (rule runs_of_same) (simp add: s')
  have reg: "inv_reg s'" using inv pc
    by (subst inv_reg_cong [of s' s]) (auto simp: s' sf_gm_def sf_inv_def)
  have jn: "inv_joined s'" using inv pc
    by (subst inv_joined_cong [of s' s]) (auto simp: s' sf_inv_def)
  have ow: "inv_owner s'" unfolding inv_owner_def
  proof (intro allI impI)
    fix c' t' k' assume o': "sf_owner s' c' = Some (t', k')"
    then have o: "sf_owner s c' = Some (t', k')" by (simp add: s')
    from inv_ownerD [OF _ o] inv have d: "c' < sf_next s" "joined (sf_pc s t') = Some (k', c')"
      "owner_phase s c' (sf_pc s t')" by (auto simp: sf_inv_def)
    show "c' < sf_next s' \<and> joined (sf_pc s' t') = Some (k', c') \<and> owner_phase s' c' (sf_pc s' t')"
    proof (cases "c' = c")
      case True
      with o own have "t' = t" "k' = k" by simp_all
      with True d(1) ph runs show ?thesis by (simp add: s')
    next
      case False
      with d(2) pc have "t' \<noteq> t" by auto
      with False d runs owner_phase_cong [of s' c' s] show ?thesis by (simp add: s')
    qed
  qed
  have un: "inv_unowned s'" using inv runs by (simp add: inv_unowned_def sf_inv_def s')
  have rt: "inv_ret s'" unfolding inv_ret_def
  proof (intro allI impI)
    fix t' k' c' r' assume "sf_pc s' t' = Returned k' c' r'"
    with pc have t': "t' \<noteq> t" "sf_pc s t' = Returned k' c' r'" by (auto simp: s' split: if_splits)
    with inv have "r' = cval (sf_calls s c') \<and> wg (sf_calls s c') = 0" by (simp add: sf_inv_def inv_ret_def)
    with ph show "r' = cval (sf_calls s' c') \<and> wg (sf_calls s' c') = 0" by (auto simp: s')
  qed
  from reg jn ow un rt show ?thesis by (simp add: sf_inv_def)
qed

lemma sf_gm_delete: "sf_gm (s\<lparr>sf_m := map_option (\<lambda>m. m(k := None)) (sf_m s), sf_pc := p\<rparr>) = (sf_gm s)(k := None)"
  by (auto simp: sf_gm_def split: option.splits)

lemma sf_inv_delete:
  assumes inv: "sf_inv s" and st: "sf_delete t s = Some s'"
  shows "sf_inv s'"
proof -
  from st obtain k c where pc: "sf_pc s t = Deleting k c" and
    s': "s' = s\<lparr>sf_m := map_option (\<lambda>m. m(k := None)) (sf_m s),
                  sf_pc := (sf_pc s)(t := Returned k c (cval (sf_calls s c)))\<rparr>"
    by (auto simp: sf_delete_def split: thread.splits)
  from pc have "inflight (sf_pc s t) = Some (k, c)" by simp
  with inv have own: "sf_owner s c = Some (t, k)" and gk: "sf_gm s k = Some c"
    by (auto simp: sf_inv_def dest: inv_reg_inflight)
  with inv pc have ph: "wg (sf_calls s c) = 0" "\<exists>v. cval (sf_calls s c) = Some v \<and> runs_of s c = [v]"
    by (auto simp: sf_inv_def dest: inv_ownerD)
  have runs: "runs_of s' = runs_of s" by (rule runs_of_same) (simp add: s')
  have gm: "sf_gm s' = (sf_gm s)(k := None)" unfolding s' by (rule sf_gm_delete)
  have reg: "inv_reg s'" unfolding inv_reg_def
  proof (rule conjI; intro allI impI)
    fix t' k' c' assume i': "inflight (sf_pc s' t') = Some (k', c')"
    then have tt: "t' \<noteq> t" and i: "inflight (sf_pc s t') = Some (k', c')" by (auto simp: s' split: if_splits)
    with inv have o: "sf_owner s c' = Some (t', k')" "sf_gm s k' = Some c'"
      by (auto simp: sf_inv_def dest: inv_reg_inflight)
    have "k' \<noteq> k"
    proof
      assume "k' = k"
      with o gk have "c' = c" by simp
      with o own tt show False by simp
    qed
    moreover have "sf_owner s' = sf_owner s" by (simp add: s')
    ultimately show "sf_owner s' c' = Some (t', k') \<and> sf_gm s' k' = Some c'" using o by (simp add: gm)
  next
    fix k' c' assume "sf_gm s' k' = Some c'"
    then have kk: "k' \<noteq> k" and g: "sf_gm s k' = Some c'" by (auto simp: gm split: if_splits)
    from inv g have "\<exists>t'. sf_owner s c' = Some (t', k') \<and> inflight (sf_pc s t') = Some (k', c')"
      by (simp add: sf_inv_def inv_reg_def)
    then obtain t' where o: "sf_owner s c' = Some (t', k')" "inflight (sf_pc s t') = Some (k', c')"
      by blast
    with pc kk have "t' \<noteq> t" by auto
    with o show "\<exists>t'. sf_owner s' c' = Some (t', k') \<and> inflight (sf_pc s' t') = Some (k', c')"
      by (auto simp: s')
  qed
  have jn: "inv_joined s'" using inv pc
    by (subst inv_joined_cong [of s' s]) (auto simp: s' sf_inv_def)
  have ow: "inv_owner s'" unfolding inv_owner_def
  proof (intro allI impI)
    fix c' t' k' assume o': "sf_owner s' c' = Some (t', k')"
    then have o: "sf_owner s c' = Some (t', k')" by (simp add: s')
    from inv_ownerD [OF _ o] inv have d: "c' < sf_next s" "joined (sf_pc s t') = Some (k', c')"
      "owner_phase s c' (sf_pc s t')" by (auto simp: sf_inv_def)
    show "c' < sf_next s' \<and> joined (sf_pc s' t') = Some (k', c') \<and> owner_phase s' c' (sf_pc s' t')"
    proof (cases "c' = c")
      case True
      with o own have "t' = t" "k' = k" by simp_all
      with True d(1) ph runs show ?thesis by (simp add: s')
    next
      case False
      with d(2) pc have "t' \<noteq> t" by auto
      with False d runs owner_phase_cong [of s' c' s] show ?thesis by (simp add: s')
    qed
  qed
  have un: "inv_unowned s'" using inv runs by (simp add: inv_unowned_def sf_inv_def s')
  have rt: "inv_ret s'" using inv ph(1) by (auto simp: inv_ret_def sf_inv_def s')
  from reg jn ow un rt show ?thesis by (simp add: sf_inv_def)
qed

lemma sf_inv_wake:
  assumes inv: "sf_inv s" and st: "sf_wake t s = Some s'"
  shows "sf_inv s'"
proof -
  from st obtain k c where pc: "sf_pc s t = Waiting k c" and z: "wg (sf_calls s c) = 0" and
    s': "s' = s\<lparr>sf_pc := (sf_pc s)(t := Returned k c (cval (sf_calls s c)))\<rparr>"
    by (auto simp: sf_wake_def split: thread.splits if_splits)
  have runs: "runs_of s' = runs_of s" by (rule runs_of_same) (simp add: s')
  have reg: "inv_reg s'" using inv pc
    by (subst inv_reg_cong [of s' s]) (auto simp: s' sf_gm_def sf_inv_def)
  have jn: "inv_joined s'" using inv pc
    by (subst inv_joined_cong [of s' s]) (auto simp: s' sf_inv_def)
  have ow: "inv_owner s'" unfolding inv_owner_def
  proof (intro allI impI)
    fix c' t' k' assume o': "sf_owner s' c' = Some (t', k')"
    then have o: "sf_owner s c' = Some (t', k')" by (simp add: s')
    from inv_ownerD [OF _ o] inv have d: "c' < sf_next s" "joined (sf_pc s t') = Some (k', c')"
      "owner_phase s c' (sf_pc s t')" by (auto simp: sf_inv_def)
    with pc have "t' \<noteq> t" by auto
    with d runs owner_phase_cong [of s' c' s] show
      "c' < sf_next s' \<and> joined (sf_pc s' t') = Some (k', c') \<and> owner_phase s' c' (sf_pc s' t')"
      by (simp add: s')
  qed
  have un: "inv_unowned s'" using inv runs by (simp add: inv_unowned_def sf_inv_def s')
  have rt: "inv_ret s'" using inv z by (auto simp: inv_ret_def sf_inv_def s')
  from reg jn ow un rt show ?thesis by (simp add: sf_inv_def)
qed


lemma sf_not_owner:
  "sf_inv s \<Longrightarrow> joined (sf_pc s t) = None \<Longrightarrow> sf_owner s c \<noteq> Some (t, k)"
  by (auto simp: sf_inv_def dest: inv_ownerD)

lemma sf_inv_enter_join:
  assumes inv: "sf_inv s" and pc: "sf_pc s t = Calling k" and g: "sf_gm s k = Some c"
    and s': "s' = s\<lparr>sf_m := Some (sf_gm s), sf_pc := (sf_pc s)(t := Waiting k c)\<rparr>"
  shows "sf_inv s'"
proof -
  have runs: "runs_of s' = runs_of s" by (rule runs_of_same) (simp add: s')
  have gm: "sf_gm s' = sf_gm s" by (simp add: s' sf_gm_def)
  have reg: "inv_reg s'" using inv pc gm
    by (subst inv_reg_cong [of s' s]) (auto simp: s' sf_inv_def)
  from inv g have "\<exists>t'. sf_owner s c = Some (t', k) \<and> inflight (sf_pc s t') = Some (k, c)"
    by (simp add: sf_inv_def inv_reg_def)
  then have "\<exists>t'. sf_owner s c = Some (t', k)" by blast
  then have jn: "inv_joined s'" using inv
    by (auto simp: s' inv_joined_def sf_inv_def)
  have ow: "inv_owner s'" unfolding inv_owner_def
  proof (intro allI impI)
    fix c' t' k' assume o': "sf_owner s' c' = Some (t', k')"
    then have o: "sf_owner s c' = Some (t', k')" by (simp add: s')
    from inv_ownerD [OF _ o] inv have d: "c' < sf_next s" "joined (sf_pc s t') = Some (k', c')"
      "owner_phase s c' (sf_pc s t')" by (auto simp: sf_inv_def)
    with pc have "t' \<noteq> t" by auto
    with d runs owner_phase_cong [of s' c' s] show
      "c' < sf_next s' \<and> joined (sf_pc s' t') = Some (k', c') \<and> owner_phase s' c' (sf_pc s' t')"
      by (simp add: s')
  qed
  have un: "inv_unowned s'" using inv runs by (simp add: inv_unowned_def sf_inv_def s')
  have rt: "inv_ret s'" using inv by (auto simp: inv_ret_def sf_inv_def s')
  from reg jn ow un rt show ?thesis by (simp add: sf_inv_def)
qed

lemma sf_inv_enter_new:
  assumes inv: "sf_inv s" and pc: "sf_pc s t = Calling k" and g: "sf_gm s k = None"
    and s': "s' = s\<lparr>sf_m := Some ((sf_gm s)(k \<mapsto> sf_next s)),
                    sf_calls := (sf_calls s)(sf_next s := \<lparr>wg = 1, cval = None\<rparr>),
                    sf_next := Suc (sf_next s), sf_pc := (sf_pc s)(t := Running k (sf_next s)),
                    sf_owner := (sf_owner s)(sf_next s \<mapsto> (t, k))\<rparr>"
  shows "sf_inv s'"
proof -
  let ?c = "sf_next s"
  have fresh: "sf_owner s ?c = None"
  proof (rule ccontr)
    assume "sf_owner s ?c \<noteq> None"
    then obtain t' k' where "sf_owner s ?c = Some (t', k')" by auto
    from inv_ownerD [OF _ this] inv show False by (simp add: sf_inv_def)
  qed
  with inv have r0: "runs_of s ?c = []" by (simp add: sf_inv_def inv_unowned_def)
  have runs: "runs_of s' = runs_of s" by (rule runs_of_same) (simp add: s')
  have gm: "sf_gm s' = (sf_gm s)(k \<mapsto> ?c)" by (simp add: s' sf_gm_def)
  have os: "sf_owner s' = (sf_owner s)(?c \<mapsto> (t, k))" and ps: "sf_pc s' = (sf_pc s)(t := Running k ?c)"
    by (simp_all add: s')
  have nt: "sf_owner s c \<noteq> Some (t, k')" for c k' using sf_not_owner [OF inv] pc by simp
  have reg: "inv_reg s'" unfolding inv_reg_def
  proof (rule conjI; intro allI impI)
    fix t' k' c' assume i': "inflight (sf_pc s' t') = Some (k', c')"
    show "sf_owner s' c' = Some (t', k') \<and> sf_gm s' k' = Some c'"
    proof (cases "t' = t")
      case True
      with i' show ?thesis by (simp add: os ps gm)
    next
      case False
      with i' have i: "inflight (sf_pc s t') = Some (k', c')" by (simp add: s')
      with inv have o: "sf_owner s c' = Some (t', k')" "sf_gm s k' = Some c'"
        by (auto simp: sf_inv_def dest: inv_reg_inflight)
      with fresh g have "c' \<noteq> ?c" "k' \<noteq> k" by auto
      with o show ?thesis by (simp add: os ps gm)
    qed
  next
    fix k' c' assume g': "sf_gm s' k' = Some c'"
    show "\<exists>t'. sf_owner s' c' = Some (t', k') \<and> inflight (sf_pc s' t') = Some (k', c')"
    proof (cases "k' = k")
      case True
      with g' show ?thesis by (simp add: os ps gm)
    next
      case False
      with g' have "sf_gm s k' = Some c'" by (simp add: gm)
      with inv have "\<exists>t'. sf_owner s c' = Some (t', k') \<and> inflight (sf_pc s t') = Some (k', c')"
        by (simp add: sf_inv_def inv_reg_def)
      then obtain t' where o: "sf_owner s c' = Some (t', k')" "inflight (sf_pc s t') = Some (k', c')"
        by blast
      with pc fresh have "t' \<noteq> t" "c' \<noteq> ?c" by auto
      with o show ?thesis by (auto simp: s')
    qed
  qed
  have jn: "inv_joined s'" unfolding inv_joined_def
  proof (intro allI impI)
    fix t' k' c' assume j: "joined (sf_pc s' t') = Some (k', c')"
    show "\<exists>t''. sf_owner s' c' = Some (t'', k')"
    proof (cases "t' = t")
      case True
      with j show ?thesis by (simp add: s')
    next
      case False
      with j have "joined (sf_pc s t') = Some (k', c')" by (simp add: ps)
      from sf_inv_joinedD [OF inv this] obtain t'' where "sf_owner s c' = Some (t'', k')" ..
      with fresh show ?thesis by (auto simp: s')
    qed
  qed
  have ow: "inv_owner s'" unfolding inv_owner_def
  proof (intro allI impI)
    fix c' t' k' assume o': "sf_owner s' c' = Some (t', k')"
    show "c' < sf_next s' \<and> joined (sf_pc s' t') = Some (k', c') \<and> owner_phase s' c' (sf_pc s' t')"
    proof (cases "c' = ?c")
      case True
      with o' have "t' = t" "k' = k" by (simp_all add: s')
      with True r0 runs show ?thesis by (simp add: s')
    next
      case False
      with o' have o: "sf_owner s c' = Some (t', k')" by (simp add: s')
      from inv_ownerD [OF _ o] inv have d: "c' < sf_next s" "joined (sf_pc s t') = Some (k', c')"
        "owner_phase s c' (sf_pc s t')" by (auto simp: sf_inv_def)
      with pc have "t' \<noteq> t" by auto
      with False d runs owner_phase_cong [of s' c' s] show ?thesis by (simp add: s')
    qed
  qed
  have un: "inv_unowned s'" using inv runs by (simp add: inv_unowned_def sf_inv_def s')
  have rt: "inv_ret s'" unfolding inv_ret_def
  proof (intro allI impI)
    fix t' k' c' r' assume "sf_pc s' t' = Returned k' c' r'"
    with pc have r: "sf_pc s t' = Returned k' c' r'" by (auto simp: s' split: if_splits)
    then have "joined (sf_pc s t') = Some (k', c')" by simp
    from sf_inv_joinedD [OF inv this] have "\<exists>t''. sf_owner s c' = Some (t'', k')" .
    with fresh have "c' \<noteq> ?c" by auto
    with r inv show "r' = cval (sf_calls s' c') \<and> wg (sf_calls s' c') = 0"
      by (simp add: s' sf_inv_def inv_ret_def)
  qed
  from reg jn ow un rt show ?thesis by (simp add: sf_inv_def)
qed

lemma sf_inv_enter:
  assumes inv: "sf_inv s" and st: "sf_enter t s = Some s'"
  shows "sf_inv s'"
proof -
  from st obtain k where pc: "sf_pc s t = Calling k" by (auto simp: sf_enter_def split: thread.splits)
  show ?thesis
  proof (cases "sf_gm s k")
    case None
    with st pc show ?thesis by (intro sf_inv_enter_new [OF inv pc None]) (simp add: sf_enter_def Let_def)
  next
    case (Some c)
    with st pc show ?thesis by (intro sf_inv_enter_join [OF inv pc Some]) (simp add: sf_enter_def)
  qed
qed

lemma sf_inv_init: "sf_inv (sf_init ks)"
  by (auto simp: sf_inv_def sf_init_def inv_reg_def inv_joined_def inv_owner_def inv_unowned_def
      inv_ret_def sf_gm_def runs_of_def split: option.splits)

lemma sf_inv_step: "sf_step s s' \<Longrightarrow> sf_inv s \<Longrightarrow> sf_inv s'"
  by (induction rule: sf_step.induct)
     (auto intro: sf_inv_enter sf_inv_run sf_inv_panic sf_inv_done sf_inv_delete sf_inv_wake)

lemma sf_reach_inv: "sf_reach ks s \<Longrightarrow> sf_inv s"
  by (induction rule: sf_reach.induct) (auto intro: sf_inv_init sf_inv_step)


lemma sf_act_step: "sf_act a s = Some s' \<Longrightarrow> sf_step s s'"
  by (cases a) (auto intro: sf_step.intros)

lemma sf_exec_reach: "sf_exec as s = Some s' \<Longrightarrow> sf_reach ks s \<Longrightarrow> sf_reach ks s'"
proof (induction as arbitrary: s)
  case Nil
  then show ?case by simp
next
  case (Cons a as)
  then obtain s1 where a: "sf_act a s = Some s1" and r: "sf_exec as s1 = Some s'"
    by (auto split: option.splits)
  from Cons.prems(2) sf_act_step [OF a] have "sf_reach ks s1" by (rule reach_step)
  with Cons.IH [OF r] show ?case .
qed

lemma sf_demo_state:
  "\<exists>s. sf_demo = Some s \<and> sf_pc s 0 = Returned ''Tom'' 0 (Some ''630'') \<and>
     sf_pc s 1 = Returned ''Tom'' 0 (Some ''630'') \<and> sf_runs s = [(0, ''630'')] \<and> sf_reach sf_two s"
proof -
  have "\<exists>s. sf_demo = Some s \<and> sf_pc s 0 = Returned ''Tom'' 0 (Some ''630'') \<and>
     sf_pc s 1 = Returned ''Tom'' 0 (Some ''630'') \<and> sf_runs s = [(0, ''630'')]"
    by (simp add: sf_init_def sf_enter_def sf_run_def sf_done_def sf_delete_def sf_wake_def sf_gm_def)
  then obtain s where "sf_demo = Some s" "sf_pc s 0 = Returned ''Tom'' 0 (Some ''630'')"
     "sf_pc s 1 = Returned ''Tom'' 0 (Some ''630'')" "sf_runs s = [(0, ''630'')]" by blast
  moreover from this(1) have "sf_reach sf_two s" by (rule sf_exec_reach) (rule reach_init)
  ultimately show ?thesis by blast
qed


section \<open>Lemmas for the properties\<close>

lemma owner_phase_done:
  "owner_phase s c p \<Longrightarrow> wg (sf_calls s c) = 0 \<Longrightarrow> \<exists>v. cval (sf_calls s c) = Some v \<and> runs_of s c = [v]"
  by (cases p) auto

lemma owner_phase_runs: "owner_phase s c p \<Longrightarrow> length (runs_of s c) \<le> 1"
  by (cases p) auto

lemma distinct_fst_filter:
  "(\<And>c. length (filter (\<lambda>x. fst x = c) xs) \<le> 1) \<Longrightarrow> distinct (map fst xs)"
proof (induction xs)
  case Nil
  then show ?case by simp
next
  case (Cons x xs)
  have "length (filter (\<lambda>y. fst y = c) xs) \<le> 1" for c
    using Cons.prems [of c] by (auto split: if_splits)
  moreover have "filter (\<lambda>y. fst y = fst x) xs = []"
    using Cons.prems [of "fst x"] by simp
  ultimately show ?case using Cons.IH by (auto simp: filter_empty_conv)
qed

lemma sf_step_pc:
  assumes "sf_step s s'"
  shows "\<exists>t p. sf_pc s' = (sf_pc s)(t := p) \<and> sf_pc s t \<noteq> Idle \<and> p \<noteq> Idle \<and>
    pc_weight p < pc_weight (sf_pc s t)"
  using assms
proof cases
  case (step_enter t)
  then show ?thesis
    by (auto simp: sf_enter_def Let_def split: thread.splits option.splits intro!: exI [of _ t])
next
  case (step_run t r)
  then show ?thesis by (auto simp: sf_run_def split: thread.splits intro!: exI [of _ t])
next
  case (step_panic t)
  then show ?thesis by (auto simp: sf_panic_def split: thread.splits intro!: exI [of _ t])
next
  case (step_done t)
  then show ?thesis by (auto simp: sf_done_def split: thread.splits intro!: exI [of _ t])
next
  case (step_delete t)
  then show ?thesis by (auto simp: sf_delete_def split: thread.splits intro!: exI [of _ t])
next
  case (step_wake t)
  then show ?thesis by (auto simp: sf_wake_def split: thread.splits if_splits intro!: exI [of _ t])
qed

lemma sf_reach_idle: "sf_reach ks s \<Longrightarrow> sf_pc s t = Idle \<longleftrightarrow> ks t = None"
proof (induction rule: sf_reach.induct)
  case reach_init
  then show ?case by (simp add: sf_init_def split: option.splits)
next
  case (reach_step s s')
  from sf_step_pc [OF reach_step.hyps(2)] obtain t' p where
    "sf_pc s' = (sf_pc s)(t' := p)" "sf_pc s t' \<noteq> Idle" "p \<noteq> Idle" by blast
  with reach_step.IH reach_step.hyps(1) show ?case by (cases "t = t'") (auto intro: sf_reach.intros)
qed

lemma sum_upd_less:
  assumes "finite T" "t \<in> T" "g' = g(t := y)" "y < g t"
  shows "sum g' T < sum (g :: 'a \<Rightarrow> nat) T"
proof -
  have "sum g' T = y + sum g' (T - {t})" and "sum g T = g t + sum g (T - {t})"
    using assms(1,2,3) by (simp_all add: sum.remove)
  moreover have "sum g' (T - {t}) = sum g (T - {t})" using assms(3) by (intro sum.cong) auto
  ultimately show ?thesis using assms(3,4) by simp
qed

lemma sf_enabled_enter:
  assumes "sf_pc s t = Calling k"
  shows "\<exists>s'. sf_step s s'"
proof -
  have "sf_enter t s \<noteq> None" using assms by (auto simp: sf_enter_def Let_def split: option.splits)
  then obtain s' where "sf_enter t s = Some s'" by auto
  then show ?thesis by (blast intro: step_enter)
qed

lemma sf_enabled_owner:
  assumes "inflight (sf_pc s t) \<noteq> None" and "\<forall>k c. sf_pc s t \<noteq> Panicked k c"
  shows "\<exists>s'. sf_step s s'"
proof (cases "sf_pc s t")
  case (Running k c)
  then show ?thesis by (intro exI step_run [of t undefined]) (simp add: sf_run_def)
next
  case (Ran k c)
  then show ?thesis by (intro exI step_done [of t]) (simp add: sf_done_def)
next
  case (Deleting k c)
  then show ?thesis by (intro exI step_delete [of t]) (simp add: sf_delete_def)
qed (use assms in simp_all)


text \<open>
  A \<open>Do\<close> that meets no call for its key (as in one goroutine's sequence of calls)
  registers a call, runs \<open>fn\<close> once, deletes the key and returns \<open>fn\<close>'s result:
  in a sequential caller \<open>Do(key, fn)\<close> is \<open>fn()\<close>.
\<close>

lemma sf_Do_alone:
  assumes "sf_pc s t = Calling k" and "sf_gm s k = None"
  shows "\<exists>s'. sf_exec [Enter t, Run t r, Done t, Delete t] s = Some s' \<and>
    sf_pc s' t = Returned k (sf_next s) (Some r) \<and> sf_gm s' k = None \<and>
    sf_runs s' = sf_runs s @ [(sf_next s, r)]"
  using assms
  by (simp add: sf_enter_def sf_run_def sf_done_def sf_delete_def sf_gm_def Let_def
      split: option.splits)

section \<open>Properties of the coalescer\<close>

text \<open>
  C19: at most one fill per key. In every reachable state, two threads that are
  between registering a call for the same key and deleting it are the same thread:
  \<open>fn\<close> never runs twice concurrently for one key.
\<close>

theorem sf_at_most_one_fill:
  assumes "sf_reach ks s"
    and "inflight (sf_pc s t1) = Some (k, c1)" and "inflight (sf_pc s t2) = Some (k, c2)"
  shows "t1 = t2 \<and> c1 = c2"
proof -
  have inv: "sf_inv s" using assms(1) by (rule sf_reach_inv)
  from inv_reg_inflight [OF _ assms(2)] inv_reg_inflight [OF _ assms(3)] inv
  have "sf_owner s c1 = Some (t1, k)" "sf_gm s k = Some c1"
    "sf_owner s c2 = Some (t2, k)" "sf_gm s k = Some c2" by (auto simp: sf_inv_def)
  then show ?thesis by simp
qed

theorem sf_at_most_one_fill_witness:
  "inflight (sf_pc (the (sf_exec [Enter 0, Enter 1] (sf_init sf_two))) 0) = Some (''Tom'', 0) \<and>
   (0::tid) = 0 \<and> (0::cid) = 0"
proof -
  let ?s = "the (sf_exec [Enter 0, Enter 1] (sf_init sf_two))"
  have e: "sf_exec [Enter 0, Enter 1] (sf_init sf_two) = Some ?s"
    by (simp add: sf_init_def sf_enter_def sf_gm_def)
  have r: "sf_reach sf_two ?s" using e by (rule sf_exec_reach) (rule reach_init)
  have i: "inflight (sf_pc ?s 0) = Some (''Tom'', 0)"
    by (simp add: sf_init_def sf_enter_def sf_gm_def)
  from sf_at_most_one_fill [OF r i i] i show ?thesis by simp
qed

text \<open>
  C20: every \<open>Do\<close> returns the result of the call it used. A thread that has
  returned from a call \<open>c\<close> for key \<open>k\<close>, as its creator or as a waiter, returned
  \<open>Some v\<close> (never the zero values), where \<open>c\<close> was created for \<open>k\<close> and \<open>v\<close> is the
  one result \<open>fn\<close> produced for \<open>c\<close>; so all threads that shared a call return the
  same value.
\<close>

theorem sf_Do_returns_call_result:
  assumes "sf_reach ks s" and "sf_pc s t = Returned k c r"
  shows "\<exists>t' v. r = Some v \<and> sf_owner s c = Some (t', k) \<and> runs_of s c = [v]"
proof -
  have inv: "sf_inv s" using assms(1) by (rule sf_reach_inv)
  with assms(2) have r: "r = cval (sf_calls s c)" and z: "wg (sf_calls s c) = 0"
    by (simp_all add: sf_inv_def inv_ret_def)
  from assms(2) have "joined (sf_pc s t) = Some (k, c)" by simp
  from sf_inv_joinedD [OF inv this] obtain t' where o: "sf_owner s c = Some (t', k)" ..
  from inv_ownerD [OF _ o] inv have "owner_phase s c (sf_pc s t')" by (simp add: sf_inv_def)
  from owner_phase_done [OF this z] r o show ?thesis by auto
qed

theorem sf_Do_returns_call_result_witness:
  "runs_of (the sf_demo) 0 = [''630''] \<and> sf_owner (the sf_demo) 0 = Some (0, ''Tom'')"
proof -
  from sf_demo_state obtain s where s: "sf_demo = Some s"
    "sf_pc s 1 = Returned ''Tom'' 0 (Some ''630'')" "sf_reach sf_two s" by blast
  from sf_Do_returns_call_result [OF s(3,2)] obtain t' where
    "runs_of s 0 = [''630'']" "sf_owner s 0 = Some (t', ''Tom'')" by auto
  moreover have "sf_owner s 0 = Some (0, ''Tom'')"
    using s(1) by (auto simp: sf_init_def sf_enter_def sf_run_def sf_done_def sf_delete_def
      sf_wake_def sf_gm_def)
  ultimately show ?thesis using s(1) by simp
qed

text \<open>
  C21: a late caller joins the call in flight. If some thread is running \<open>fn\<close> for
  key \<open>k\<close> (call \<open>c\<close>), a thread that now calls \<open>Do(k)\<close> takes the branch of
  lines 37--43: it only creates the map if needed and waits on \<open>c\<close>; it allocates
  no call and runs nothing.
\<close>

theorem sf_late_caller_joins:
  assumes "sf_reach ks s" and "inflight (sf_pc s t') = Some (k, c)" and "sf_pc s t = Calling k"
  shows "sf_enter t s = Some (s\<lparr>sf_m := Some (sf_gm s), sf_pc := (sf_pc s)(t := Waiting k c)\<rparr>)"
proof -
  have inv: "sf_inv s" using assms(1) by (rule sf_reach_inv)
  from inv_reg_inflight [OF _ assms(2)] inv have "sf_gm s k = Some c" by (simp add: sf_inv_def)
  with assms(3) show ?thesis by (simp add: sf_enter_def)
qed

theorem sf_late_caller_joins_witness:
  "sf_pc (the (sf_enter 1 (the (sf_exec [Enter 0] (sf_init sf_two))))) 1 = Waiting ''Tom'' 0"
proof -
  let ?s = "the (sf_exec [Enter 0] (sf_init sf_two))"
  have e: "sf_exec [Enter 0] (sf_init sf_two) = Some ?s"
    by (simp add: sf_init_def sf_enter_def sf_gm_def)
  have r: "sf_reach sf_two ?s" using e by (rule sf_exec_reach) (rule reach_init)
  have i: "inflight (sf_pc ?s 0) = Some (''Tom'', 0)" and c: "sf_pc ?s 1 = Calling ''Tom''"
    by (simp_all add: sf_init_def sf_enter_def sf_gm_def)
  show ?thesis by (subst sf_late_caller_joins [OF r i c]) simp
qed


text \<open>
  A panicked call stays as it was: its owner never moves again, and a waiter moves
  only by waking, which needs the call's counter at 0.
\<close>

lemma sf_step_panicked:
  "sf_step s s' \<Longrightarrow> sf_pc s u = Panicked k c \<Longrightarrow> sf_pc s' u = Panicked k c"
  by (induction rule: sf_step.induct)
     (auto simp: sf_enter_def sf_run_def sf_panic_def sf_done_def sf_delete_def sf_wake_def
           Let_def split: thread.splits option.splits if_splits)

lemma sf_step_waiting:
  "sf_step s s' \<Longrightarrow> sf_pc s u = Waiting k c \<Longrightarrow> wg (sf_calls s c) \<noteq> 0 \<Longrightarrow>
   sf_pc s' u = Waiting k c"
  by (induction rule: sf_step.induct)
     (auto simp: sf_enter_def sf_run_def sf_panic_def sf_done_def sf_delete_def sf_wake_def
           Let_def split: thread.splits option.splits if_splits)

lemma sf_panicked_registered:
  assumes "sf_inv s" and "sf_pc s t = Panicked k c"
  shows "sf_gm s k = Some c \<and> sf_owner s c = Some (t, k) \<and> wg (sf_calls s c) = 1"
proof -
  from assms(2) have "inflight (sf_pc s t) = Some (k, c)" by simp
  with assms(1) have "sf_owner s c = Some (t, k) \<and> sf_gm s k = Some c"
    by (simp add: sf_inv_def inv_reg_def)
  moreover from this inv_ownerD [of s c t k] assms have "owner_phase s c (sf_pc s t)"
    by (simp add: sf_inv_def)
  ultimately show ?thesis using assms(2) by simp
qed

lemma sf_reach_steps: "sf_step\<^sup>*\<^sup>* s s' \<Longrightarrow> sf_reach ks s \<Longrightarrow> sf_reach ks s'"
  by (induction rule: rtranclp_induct) (auto intro: reach_step)

text \<open>
  C22: no deadlock unless \<open>fn\<close> panics. In every reachable state where no \<open>fn\<close> has
  panicked, while some thread has started \<open>Do\<close> and not returned, some step is
  enabled: a waiter's call is either still owned by a thread that can proceed, or its
  counter is 0 and the waiter can wake. (C23 shows the hypothesis is needed.)
\<close>

theorem sf_no_deadlock:
  assumes "sf_reach ks s" and "sf_pc s t \<noteq> Idle" and "\<forall>k c r. sf_pc s t \<noteq> Returned k c r"
    and "\<forall>t' k c. sf_pc s t' \<noteq> Panicked k c"
  shows "\<exists>s'. sf_step s s'"
proof (cases "sf_pc s t")
  case (Calling k)
  then show ?thesis by (rule sf_enabled_enter)
next
  case (Waiting k c)
  have inv: "sf_inv s" using assms(1) by (rule sf_reach_inv)
  from Waiting have "joined (sf_pc s t) = Some (k, c)" by simp
  from sf_inv_joinedD [OF inv this] obtain t' where o: "sf_owner s c = Some (t', k)" ..
  from inv_ownerD [OF _ o] inv have ph: "owner_phase s c (sf_pc s t')" by (simp add: sf_inv_def)
  show ?thesis
  proof (cases "inflight (sf_pc s t') = None")
    case False
    with assms(4) show ?thesis by (intro sf_enabled_owner) auto
  next
    case True
    with ph have "wg (sf_calls s c) = 0" by (cases "sf_pc s t'") auto
    with Waiting have "sf_wake t s \<noteq> None" by (simp add: sf_wake_def)
    then show ?thesis by (blast intro: step_wake)
  qed
qed (use assms sf_enabled_owner [of s t] in auto)

theorem sf_no_deadlock_witness: "\<exists>s'. sf_step (sf_init sf_two :: string sf_state) s'"
  by (rule sf_no_deadlock [OF reach_init, of _ 0]) (simp_all add: sf_init_def)

text \<open>
  Termination. When finitely many threads call \<open>Do\<close>, there is no infinite
  execution: the reachable part of the step relation is well founded (every step moves
  one thread forward, and a thread takes at most five steps). With C22, every maximal
  interleaving without a panic ends with all threads returned.
\<close>

theorem sf_terminates:
  assumes "finite {t. ks t \<noteq> None}"
  shows "wf {(s', s :: 'r sf_state). sf_reach ks s \<and> sf_step s s'}"
proof (rule wf_subset [OF wf_measure])
  let ?T = "{t. ks t \<noteq> None}"
  show "{(s', s :: 'r sf_state). sf_reach ks s \<and> sf_step s s'} \<subseteq>
    measure (\<lambda>s. \<Sum>t\<in>?T. pc_weight (sf_pc s t))"
  proof clarify
    fix s' s :: "'r sf_state" assume r: "sf_reach ks s" and st: "sf_step s s'"
    from sf_step_pc [OF st] obtain t p where
      pc: "sf_pc s' = (sf_pc s)(t := p)" "sf_pc s t \<noteq> Idle" "pc_weight p < pc_weight (sf_pc s t)"
      by blast
    from pc(2) sf_reach_idle [OF r, of t] have "t \<in> ?T" by simp
    with assms pc(1,3) have "(\<Sum>t\<in>?T. pc_weight (sf_pc s' t)) < (\<Sum>t\<in>?T. pc_weight (sf_pc s t))"
      by (intro sum_upd_less [where t = t and y = "pc_weight p"]) auto
    then show "(s', s) \<in> measure (\<lambda>s. \<Sum>t\<in>?T. pc_weight (sf_pc s t))" by simp
  qed
qed

theorem sf_terminates_witness:
  "wf {(s', s :: string sf_state). sf_reach sf_two s \<and> sf_step s s'}"
proof (rule sf_terminates)
  have "{t. sf_two t \<noteq> None} = {..<2}" by auto
  then show "finite {t. sf_two t \<noteq> None}" by simp
qed

text \<open>
  \<open>fn\<close> runs at most once per call. In every reachable state the trace of
  \<open>fn\<close> runs names each call at most once, and only calls some thread created.
\<close>

text \<open>
  C23: a panicking \<open>fn\<close> blocks its key for ever. Once the owner's \<open>fn\<close> has
  panicked (\<open>Do\<close> has no \<open>defer\<close>), in every later state the call is still registered
  under its key with its counter at 1, so every later caller of the key joins it, and
  every thread that was waiting on it is still waiting: \<open>c.wg.Wait()\<close> never returns.
\<close>

theorem sf_panic_blocks_key:
  assumes "sf_reach ks s" and "sf_pc s t = Panicked k c" and "sf_step\<^sup>*\<^sup>* s s'"
  shows "sf_pc s' t = Panicked k c \<and> sf_gm s' k = Some c \<and> wg (sf_calls s' c) = 1 \<and>
         (\<forall>u. sf_pc s u = Waiting k c \<longrightarrow> sf_pc s' u = Waiting k c)"
proof -
  have "sf_reach ks s' \<and> sf_pc s' t = Panicked k c \<and>
        (\<forall>u. sf_pc s u = Waiting k c \<longrightarrow> sf_pc s' u = Waiting k c)"
    using assms(3)
  proof (induction rule: rtranclp_induct)
    case base
    with assms(1,2) show ?case by simp
  next
    case (step s1 s2)
    then have r: "sf_reach ks s1" and p: "sf_pc s1 t = Panicked k c" by simp_all
    from sf_panicked_registered [OF sf_reach_inv [OF r] p] have "wg (sf_calls s1 c) \<noteq> 0" by simp
    with step sf_step_waiting [OF step(2)] sf_step_panicked [OF step(2) p] show ?case
      by (auto intro: reach_step)
  qed
  with sf_panicked_registered [OF sf_reach_inv] show ?thesis by blast
qed

theorem sf_panic_blocks_key_witness:
  "sf_exec [Enter 0, Enter 1, Panic 0] (sf_init sf_two) = Some sf_panic_ex \<and>
   sf_pc sf_panic_ex 0 = Panicked ''Tom'' 0 \<and> sf_gm sf_panic_ex ''Tom'' = Some 0 \<and>
   wg (sf_calls sf_panic_ex 0) = 1 \<and> sf_pc sf_panic_ex 1 = Waiting ''Tom'' 0"
proof -
  have e: "sf_exec [Enter 0, Enter 1, Panic 0] (sf_init sf_two) = Some sf_panic_ex"
    by (simp add: sf_panic_ex_def sf_init_def sf_enter_def sf_panic_def sf_gm_def)
  have r: "sf_reach sf_two sf_panic_ex" using e by (rule sf_exec_reach) (rule reach_init)
  have p: "sf_pc sf_panic_ex 0 = Panicked ''Tom'' 0"
    and w: "sf_pc sf_panic_ex 1 = Waiting ''Tom'' 0"
    by (simp_all add: sf_panic_ex_def sf_init_def sf_enter_def sf_panic_def sf_gm_def)
  from sf_panic_blocks_key [OF r p rtranclp.rtrancl_refl] e w show ?thesis by simp
qed

theorem sf_fn_once_per_call:
  assumes "sf_reach ks s"
  shows "distinct (map fst (sf_runs s)) \<and> fst ` set (sf_runs s) \<subseteq> dom (sf_owner s)"
proof -
  have inv: "sf_inv s" using assms by (rule sf_reach_inv)
  have len: "length (runs_of s c) \<le> 1" for c
  proof (cases "sf_owner s c")
    case None
    with inv show ?thesis by (simp add: sf_inv_def inv_unowned_def)
  next
    case (Some ow)
    then obtain t k where "sf_owner s c = Some (t, k)" by (cases ow) auto
    from inv_ownerD [OF _ this] inv have "owner_phase s c (sf_pc s t)" by (simp add: sf_inv_def)
    then show ?thesis by (rule owner_phase_runs)
  qed
  then have "distinct (map fst (sf_runs s))"
    by (intro distinct_fst_filter) (simp add: runs_of_def)
  moreover have "fst ` set (sf_runs s) \<subseteq> dom (sf_owner s)"
  proof
    fix c assume "c \<in> fst ` set (sf_runs s)"
    then have "runs_of s c \<noteq> []" by (force simp: runs_of_def filter_empty_conv)
    with inv show "c \<in> dom (sf_owner s)" by (auto simp: sf_inv_def inv_unowned_def)
  qed
  ultimately show ?thesis ..
qed

theorem sf_fn_once_per_call_witness:
  "distinct (map fst (sf_runs (the sf_demo))) \<and>
   fst ` set (sf_runs (the sf_demo)) \<subseteq> dom (sf_owner (the sf_demo))"
proof -
  from sf_demo_state obtain s where s: "sf_demo = Some s" "sf_reach sf_two s" by blast
  from sf_fn_once_per_call [OF s(2)] s(1) show ?thesis by simp
qed

end
