(* ===== verification/GeeCache.thy ===== *)
theory GeeCache
  imports Cache
begin

text \<open>
  \<open>src/geecache.go\<close> and \<open>src/peers.go\<close>: the \<open>Group\<close>, a named namespace that
  answers \<open>Get(key)\<close> from its \<open>mainCache\<close>, else from the peer that owns the key,
  else from the user's \<open>Getter\<close>, filling the cache only with locally loaded values.
  The interfaces are parameters: \<open>Getter\<close> is a function of the key in the group
  (\<open>GetterFunc\<close>); \<open>PeerPicker\<close> is a function from keys to an optional peer
  (\<open>(peer, ok)\<close>), or to the panic of \<open>PickPeer\<close> as a left value;
  \<open>PeerGetter.Get\<close> is an environment function \<open>pget\<close> from a peer, a group name
  and a key to an error or the value bytes (the \<open>pb.Request\<close>/\<open>pb.Response\<close>
  fields). Every call of the loader and of a peer is recorded in the group's
  \<open>trace\<close>, so that a property can count them.

  \<open>load\<close> wraps its closure in \<open>loader.Do\<close>; in one thread's call sequence
  \<open>Do\<close> registers the key, runs the closure and deletes the key
  (\<open>SingleFlight.sf_Do_alone\<close>), so the closure's result is the result of
  \<open>load\<close>. Each operation returns \<open>None\<close> when the cache's eviction loop does not
  end (a negative \<open>cacheBytes\<close>), and errors and panics are the left values.
  \<open>group_Get\<close> is \<open>Get\<close> on a group whose loader holds no call for the key.

  The process-wide registry \<open>groups\<close> maps names to \<open>*Group\<close> pointers; it is a
  map from names to addresses in a store of groups, as a group stays reachable through
  the pointer \<open>NewGroup\<close> returned after its name is reused. Each group's
  \<open>loader\<close> is a pointer to its own \<open>singleflight.Group\<close>; between requests the only
  calls left in its map are those whose closure panicked (\<open>Do\<close> has no \<open>defer\<close>,
  \<open>SingleFlight.sf_panic_blocks_key\<close>), so the store keeps, for each group, the keys
  of those calls (\<open>loaders\<close>). \<open>world_Get\<close> is the whole \<open>g.Get(key)\<close>: a miss on
  such a key joins the leaked call and waits for ever (\<open>None\<close>).
\<close>

datatype gerr = KeyRequired | Err string | Panic string

datatype 'pg gevent = LoaderCall string | PeerCall 'pg string string

type_synonym getter = "string \<Rightarrow> gerr + bytes"
type_synonym 'pg picker = "string \<Rightarrow> gerr + 'pg option"
type_synonym 'pg peer_get = "'pg \<Rightarrow> string \<Rightarrow> string \<Rightarrow> gerr + bytes"

record 'pg group =
  gname :: string
  getter :: getter
  mainCache :: cache
  peers :: "'pg picker option"
  trace :: "'pg gevent list"

definition group_getFromPeer ::
  "'pg peer_get \<Rightarrow> 'pg group \<Rightarrow> 'pg \<Rightarrow> string \<Rightarrow> (gerr + byteview) \<times> 'pg group" where
  "group_getFromPeer pget g peer key =
     (let g' = g\<lparr>trace := trace g @ [PeerCall peer (gname g) key]\<rparr>
      in case pget peer (gname g) key of
           Inl e \<Rightarrow> (Inl e, g')
         | Inr bs \<Rightarrow> (Inr (ByteView bs), g'))"

definition group_populateCache :: "'pg group \<Rightarrow> string \<Rightarrow> byteview \<Rightarrow> 'pg group option" where
  "group_populateCache g key v = map_option (\<lambda>c. g\<lparr>mainCache := c\<rparr>) (cache_add (mainCache g) key v)"

definition group_getLocally :: "'pg group \<Rightarrow> string \<Rightarrow> ((gerr + byteview) \<times> 'pg group) option" where
  "group_getLocally g key =
     (let g1 = g\<lparr>trace := trace g @ [LoaderCall key]\<rparr>
      in case getter g key of
           Inl e \<Rightarrow> Some (Inl e, g1)
         | Inr bs \<Rightarrow>
             (let v = ByteView (cloneBytes bs)
              in map_option (\<lambda>g2. (Inr v, g2)) (group_populateCache g1 key v)))"

text \<open>
  The closure passed to \<open>loader.Do\<close> (lines 108--121). A failing peer call falls
  back to the loader (line 116); a panic of the \<open>PeerGetter\<close> is not an error
  value and unwinds out of the closure, so it is the result.
\<close>

definition group_load ::
  "'pg peer_get \<Rightarrow> 'pg group \<Rightarrow> string \<Rightarrow> ((gerr + byteview) \<times> 'pg group) option" where
  "group_load pget g key =
     (case peers g of
        None \<Rightarrow> group_getLocally g key
      | Some pick \<Rightarrow>
          (case pick key of
             Inl e \<Rightarrow> Some (Inl e, g)
           | Inr None \<Rightarrow> group_getLocally g key
           | Inr (Some peer) \<Rightarrow>
               (case group_getFromPeer pget g peer key of
                  (Inr v, g1) \<Rightarrow> Some (Inr v, g1)
                | (Inl (Panic m), g1) \<Rightarrow> Some (Inl (Panic m), g1)
                | (Inl e, g1) \<Rightarrow> group_getLocally g1 key)))"

definition group_Get ::
  "'pg peer_get \<Rightarrow> 'pg group \<Rightarrow> string \<Rightarrow> ((gerr + byteview) \<times> 'pg group) option" where
  "group_Get pget g key =
     (if key = '''' then Some (Inl KeyRequired, g)
      else
        (case cache_get (mainCache g) key of
           (Some v, c) \<Rightarrow> Some (Inr v, g\<lparr>mainCache := c\<rparr>)
         | (None, c) \<Rightarrow> group_load pget (g\<lparr>mainCache := c\<rparr>) key))"

definition group_RegisterPeers :: "'pg group \<Rightarrow> 'pg picker \<Rightarrow> gerr + 'pg group" where
  "group_RegisterPeers g p =
     (if peers g \<noteq> None then Inl (Panic ''RegisterPeerPicker called more than once'')
      else Inr (g\<lparr>peers := Some p\<rparr>))"

section \<open>The registry of groups\<close>

type_synonym gid = nat

record 'pg world =
  groups :: "string \<rightharpoonup> gid"
  gheap :: "gid \<Rightarrow> 'pg group"
  gnext :: gid
  loaders :: "gid \<Rightarrow> string list"

definition NewGroup ::
  "'pg world \<Rightarrow> string \<Rightarrow> int \<Rightarrow> getter option \<Rightarrow> gerr + (gid \<times> 'pg world)" where
  "NewGroup w name cb gf =
     (case gf of
        None \<Rightarrow> Inl (Panic ''nil Getter'')
      | Some f \<Rightarrow>
          (let g = \<lparr>gname = name, getter = f, mainCache = \<lparr>lru = None, cacheBytes = cb\<rparr>,
                    peers = None, trace = []\<rparr>;
               a = gnext w
           in Inr (a, w\<lparr>groups := (groups w)(name \<mapsto> a), gheap := (gheap w)(a := g),
                        gnext := Suc a, loaders := (loaders w)(a := [])\<rparr>)))"

definition GetGroup :: "'pg world \<Rightarrow> string \<Rightarrow> gid option" where
  "GetGroup w name = groups w name"

fun is_panic :: "gerr + 'a \<Rightarrow> bool" where
  "is_panic (Inl (Panic m)) = True"
| "is_panic _ = False"

text \<open>
  \<open>g.load(key)\<close> through the pointer \<open>g\<close> (lines 106--128 with \<open>Do\<close>): a key whose
  call is still registered in \<open>g.loader\<close> waits on it for ever (\<open>Do\<close>, lines 37--41);
  otherwise the closure runs, and a closure that panics leaves its call registered.
\<close>

definition world_load ::
  "'pg peer_get \<Rightarrow> 'pg world \<Rightarrow> gid \<Rightarrow> string \<Rightarrow> ((gerr + byteview) \<times> 'pg world) option" where
  "world_load pget w a key =
     (if key \<in> set (loaders w a) then None
      else map_option (\<lambda>(r, g'). (r, w\<lparr>gheap := (gheap w)(a := g'),
                loaders := (if is_panic r then (loaders w)(a := key # loaders w a) else loaders w)\<rparr>))
             (group_load pget (gheap w a) key))"

text \<open>\<open>g.Get(key)\<close> (lines 86--103) through the pointer \<open>g\<close>: the group in the store is updated.\<close>

definition world_Get ::
  "'pg peer_get \<Rightarrow> 'pg world \<Rightarrow> gid \<Rightarrow> string \<Rightarrow> ((gerr + byteview) \<times> 'pg world) option" where
  "world_Get pget w a key =
     (if key = '''' then Some (Inl KeyRequired, w)
      else
        (case cache_get (mainCache (gheap w a)) key of
           (Some v, c) \<Rightarrow> Some (Inr v, w\<lparr>gheap := (gheap w)(a := (gheap w a)\<lparr>mainCache := c\<rparr>)\<rparr>)
         | (None, c) \<Rightarrow> world_load pget (w\<lparr>gheap := (gheap w)(a := (gheap w a)\<lparr>mainCache := c\<rparr>)\<rparr>) a key))"

text \<open>What a group keeps true: its cache is well formed with a non-negative budget.\<close>

definition group_ok :: "'pg group \<Rightarrow> bool" where
  "group_ok g \<longleftrightarrow> cache_inv (mainCache g) \<and> 0 \<le> cacheBytes (mainCache g)"

text \<open>A registry only names allocated groups.\<close>

definition world_ok :: "'pg world \<Rightarrow> bool" where
  "world_ok w \<longleftrightarrow> (\<forall>n a. groups w n = Some a \<longrightarrow> a < gnext w)"

definition loader_calls :: "'pg group \<Rightarrow> string \<Rightarrow> nat" where
  "loader_calls g key = count_list (trace g) (LoaderCall key)"


definition same_config :: "'pg group \<Rightarrow> 'pg group \<Rightarrow> bool" where
  "same_config g g' \<longleftrightarrow> gname g' = gname g \<and> getter g' = getter g \<and> peers g' = peers g \<and>
     cacheBytes (mainCache g') = cacheBytes (mainCache g)"

text \<open>The answer of the loader or of a peer, as a \<open>Get\<close> result.\<close>

definition as_view :: "gerr + bytes \<Rightarrow> gerr + byteview" where
  "as_view r = (case r of Inl e \<Rightarrow> Inl e | Inr bs \<Rightarrow> Inr (ByteView bs))"

text \<open>
  The group of the spec's test: loader \<open>"Sam" \<mapsto> "570"\<close>, \<open>"Tom" \<mapsto> "630"\<close>,
  an error for any other key, no peers; and a peer transport that always fails.
\<close>

abbreviation demo_getter :: getter where
  "demo_getter \<equiv> (\<lambda>k. if k = ''Sam'' then Inr (bytes_of_string ''570'')
                       else if k = ''Tom'' then Inr (bytes_of_string ''630'')
                       else Inl (Err (k @ '' not exist'')))"

abbreviation demo_group :: "nat group" where
  "demo_group \<equiv> \<lparr>gname = ''scores'', getter = demo_getter,
                  mainCache = \<lparr>lru = None, cacheBytes = 2048\<rparr>, peers = None, trace = []\<rparr>"

abbreviation tom_lru :: "byteview lru_cache" where
  "tom_lru \<equiv> \<lparr>maxBytes = 2048, nbytes = 4, ll = [0], elems = (\<lambda>_. Entry ''Tom'' (ByteView [7])),
      cache = [''Tom'' \<mapsto> 0], onEvicted = False, evicted = [], next_elem = 1\<rparr>"

abbreviation no_peer :: "nat peer_get" where
  "no_peer \<equiv> (\<lambda>_ _ _. Inl (Err ''unreachable''))"

section \<open>Lemmas\<close>

lemma cache_get_miss:
  assumes "cache_inv c" and "map_of (cache_abs c) key = None"
  shows "fst (cache_get c key) = None \<and> cache_inv (snd (cache_get c key)) \<and>
    cacheBytes (snd (cache_get c key)) = cacheBytes c \<and> cache_abs (snd (cache_get c key)) = cache_abs c"
  using cache_get_spec [OF assms(1), of key] assms(2) by (simp add: a_get_def)

lemma cache_get_hit:
  assumes "cache_inv c" and "map_of (cache_abs c) key = Some v"
  shows "fst (cache_get c key) = Some v \<and> cache_inv (snd (cache_get c key)) \<and>
    cacheBytes (snd (cache_get c key)) = cacheBytes c \<and>
    cache_abs (snd (cache_get c key)) = (key, v) # filter (\<lambda>p. fst p \<noteq> key) (cache_abs c)"
  using cache_get_spec [OF assms(1), of key] assms(2) by (simp add: a_get_def)

lemma fst_a_get: "fst (a_get k xs) = map_of xs k"
  by (simp add: a_get_def split: option.splits)

lemma same_config_refl [simp]: "same_config g g"
  by (simp add: same_config_def)

lemma same_config_trans: "same_config g g1 \<Longrightarrow> same_config g1 g2 \<Longrightarrow> same_config g g2"
  by (simp add: same_config_def)

lemma group_getLocally_spec:
  assumes "group_ok g"
  shows "\<exists>g'. group_getLocally g key = Some (as_view (getter g key), g') \<and> group_ok g' \<and>
    same_config g g' \<and> trace g' = trace g @ [LoaderCall key] \<and>
    cache_abs (mainCache g') =
      (case getter g key of Inl e \<Rightarrow> cache_abs (mainCache g)
       | Inr bs \<Rightarrow> a_add byteview_Len (cacheBytes (mainCache g)) key (ByteView bs) (cache_abs (mainCache g)))"
proof (cases "getter g key")
  case (Inl e)
  with assms show ?thesis
    by (simp add: group_getLocally_def as_view_def group_ok_def same_config_def)
next
  case (Inr bs)
  from assms have "cache_inv (mainCache g)" "0 \<le> cacheBytes (mainCache g)" by (simp_all add: group_ok_def)
  from cache_add_spec [OF this, of key "ByteView bs"] obtain c' where
    c': "cache_add (mainCache g) key (ByteView bs) = Some c'" "cache_inv c'"
    "cacheBytes c' = cacheBytes (mainCache g)"
    "cache_abs c' = a_add byteview_Len (cacheBytes (mainCache g)) key (ByteView bs) (cache_abs (mainCache g))"
    by blast
  with Inr assms show ?thesis
    by (simp add: group_getLocally_def group_populateCache_def as_view_def group_ok_def same_config_def)
qed

lemma group_getFromPeer_eq:
  "group_getFromPeer pget g peer key =
     (as_view (pget peer (gname g) key), g\<lparr>trace := trace g @ [PeerCall peer (gname g) key]\<rparr>)"
  by (simp add: group_getFromPeer_def as_view_def split: sum.splits)

lemma group_ok_trace [simp]: "group_ok (g\<lparr>trace := t\<rparr>) = group_ok g"
  by (simp add: group_ok_def)

lemma same_config_trace [simp]: "same_config g (g\<lparr>trace := t\<rparr>)"
  by (simp add: same_config_def)

lemma group_load_total:
  assumes "group_ok g"
  shows "\<exists>r g'. group_load pget g key = Some (r, g') \<and> group_ok g' \<and> same_config g g'"
proof -
  have loc: "\<exists>r g'. group_getLocally g1 key = Some (r, g') \<and> group_ok g' \<and> same_config g1 g'"
    if "group_ok g1" for g1 :: "'a group"
    using group_getLocally_spec [OF that, of key] by blast
  show ?thesis
  proof (cases "peers g")
    case None
    with loc [OF assms] show ?thesis by (simp add: group_load_def)
  next
    case (Some pick)
    show ?thesis
    proof (cases "pick key" rule: sum_option_cases)
      case (Inl e)
      with Some assms show ?thesis by (simp add: group_load_def)
    next
      case Inr_None
      with Some loc [OF assms] show ?thesis by (simp add: group_load_def)
    next
      case (Inr_Some peer)
      let ?g1 = "g\<lparr>trace := trace g @ [PeerCall peer (gname g) key]\<rparr>"
      from assms have "group_ok ?g1" by simp
      from loc [OF this] obtain r g' where
        "group_getLocally ?g1 key = Some (r, g')" "group_ok g'" "same_config ?g1 g'" by blast
      with Inr_Some \<open>peers g = Some pick\<close> assms show ?thesis
        by (auto simp: group_load_def group_getFromPeer_eq as_view_def same_config_def
            split: sum.splits gerr.splits)
    qed
  qed
qed


lemma group_Get_miss_eq:
  assumes "group_ok g" and "key \<noteq> ''''" and "map_of (cache_abs (mainCache g)) key = None"
  shows "\<exists>c'. group_Get pget g key = group_load pget (g\<lparr>mainCache := c'\<rparr>) key \<and>
    group_ok (g\<lparr>mainCache := c'\<rparr>) \<and> same_config g (g\<lparr>mainCache := c'\<rparr>) \<and>
    cache_abs c' = cache_abs (mainCache g)"
proof -
  from assms(1) have inv: "cache_inv (mainCache g)" by (simp add: group_ok_def)
  obtain c' where m: "cache_get (mainCache g) key = (None, c')"
    using cache_get_miss [OF inv assms(3)] by (cases "cache_get (mainCache g) key") auto
  from cache_get_miss [OF inv assms(3)] assms(1) m assms(2) show ?thesis
    by (intro exI [of _ c']) (simp add: group_Get_def group_ok_def same_config_def)
qed

lemma group_Get_hit_eq:
  assumes "group_ok g" and "key \<noteq> ''''" and "map_of (cache_abs (mainCache g)) key = Some v"
  shows "\<exists>c'. group_Get pget g key = Some (Inr v, g\<lparr>mainCache := c'\<rparr>) \<and>
    group_ok (g\<lparr>mainCache := c'\<rparr>) \<and> same_config g (g\<lparr>mainCache := c'\<rparr>) \<and>
    cache_abs c' = (key, v) # filter (\<lambda>p. fst p \<noteq> key) (cache_abs (mainCache g))"
proof -
  from assms(1) have inv: "cache_inv (mainCache g)" by (simp add: group_ok_def)
  obtain c' where m: "cache_get (mainCache g) key = (Some v, c')"
    using cache_get_hit [OF inv assms(3)] by (cases "cache_get (mainCache g) key") auto
  from cache_get_hit [OF inv assms(3)] assms(1) m assms(2) show ?thesis
    by (intro exI [of _ c']) (simp add: group_Get_def group_ok_def same_config_def)
qed

lemma as_view_Inr [simp]: "as_view r = Inr v \<longleftrightarrow> r = Inr (view_bytes v)"
  by (cases r) (auto simp: as_view_def)

lemma group_load_sound:
  assumes "group_ok g" and "group_load pget g key = Some (Inr v, g')"
  shows "(\<exists>pick p. peers g = Some pick \<and> pick key = Inr (Some p) \<and> pget p (gname g) key = Inr (view_bytes v)) \<or>
    getter g key = Inr (view_bytes v)"
proof -
  have loc: "getter g1 key = Inr (view_bytes v)"
    if "group_ok g1" "group_getLocally g1 key = Some (Inr v, g')" for g1 :: "'a group"
  proof -
    from group_getLocally_spec [OF that(1), of key] obtain g'' where
      "group_getLocally g1 key = Some (as_view (getter g1 key), g'')" by blast
    with that(2) have "as_view (getter g1 key) = Inr v" by simp
    then show ?thesis by simp
  qed
  show ?thesis
  proof (cases "peers g")
    case None
    with assms loc show ?thesis by (simp add: group_load_def)
  next
    case (Some pick)
    show ?thesis
    proof (cases "pick key" rule: sum_option_cases)
      case (Inl e)
      with Some assms(2) show ?thesis by (simp add: group_load_def)
    next
      case Inr_None
      with Some assms loc show ?thesis by (simp add: group_load_def)
    next
      case (Inr_Some p)
      show ?thesis
      proof (cases "pget p (gname g) key")
        case (Inl e)
        let ?g1 = "g\<lparr>trace := trace g @ [PeerCall p (gname g) key]\<rparr>"
        from Inl Inr_Some \<open>peers g = Some pick\<close> assms(2)
        have "group_getLocally ?g1 key = Some (Inr v, g')"
          by (simp add: group_load_def group_getFromPeer_eq as_view_def split: gerr.splits)
        from loc [OF _ this] assms(1) show ?thesis by simp
      next
        case (Inr bs)
        with Inr_Some \<open>peers g = Some pick\<close> assms(2) show ?thesis
          by (auto simp: group_load_def group_getFromPeer_eq as_view_def)
      qed
    qed
  qed
qed

lemma demo_Get_Tom:
  "\<exists>g'. group_Get no_peer demo_group ''Tom'' = Some (Inr (ByteView (bytes_of_string ''630'')), g')"
proof -
  have ok: "group_ok demo_group" by (simp add: group_ok_def cache_inv_def)
  have m: "map_of (cache_abs (mainCache demo_group)) ''Tom'' = None" by (simp add: cache_abs_def)
  from group_Get_miss_eq [OF ok _ m, of no_peer] obtain c' where
    e: "group_Get no_peer demo_group ''Tom'' = group_load no_peer (demo_group\<lparr>mainCache := c'\<rparr>) ''Tom''"
    and ok': "group_ok (demo_group\<lparr>mainCache := c'\<rparr>)" by auto
  from group_getLocally_spec [OF ok', of "''Tom''"] e show ?thesis
    by (auto simp: group_load_def as_view_def bytes_of_string_def)
qed

section \<open>Properties of the Group\<close>

text \<open>
  \<open>Get\<close> always returns and keeps the group well formed. On a group whose cache
  is well formed with a non-negative budget, \<open>Get\<close> of any key returns (the eviction
  loop ends), the cache stays well formed, and the name, the loader, the peers and the
  budget are unchanged.
\<close>

lemma group_Get_total:
  assumes "group_ok g"
  shows "\<exists>r g'. group_Get pget g key = Some (r, g') \<and> group_ok g' \<and> same_config g g'"
proof (cases "key = ''''")
  case True
  with assms show ?thesis by (simp add: group_Get_def)
next
  case False
  show ?thesis
  proof (cases "map_of (cache_abs (mainCache g)) key")
    case None
    from group_Get_miss_eq [OF assms False None, of pget] obtain c' where
      e: "group_Get pget g key = group_load pget (g\<lparr>mainCache := c'\<rparr>) key"
      and ok: "group_ok (g\<lparr>mainCache := c'\<rparr>)" and sc: "same_config g (g\<lparr>mainCache := c'\<rparr>)" by blast
    from group_load_total [OF ok, of pget key] e sc show ?thesis by (auto intro: same_config_trans)
  next
    case (Some v)
    from group_Get_hit_eq [OF assms False Some, of pget] show ?thesis by blast
  qed
qed

text \<open>
  The whole \<open>Get\<close> through the store is \<open>group_Get\<close> on the stored group when the
  group's loader holds no call for the key; a \<open>Get\<close> that returns comes from
  \<open>group_Get\<close> in every case, and records the key when its closure panicked.
\<close>

lemma world_Get_group_Get:
  assumes "key \<notin> set (loaders w a)"
  shows "world_Get pget w a key =
    map_option (\<lambda>(r, g'). (r, w\<lparr>gheap := (gheap w)(a := g'),
        loaders := (if is_panic r then (loaders w)(a := key # loaders w a) else loaders w)\<rparr>))
      (group_Get pget (gheap w a) key)"
  using assms
  by (auto simp: world_Get_def world_load_def group_Get_def cong: if_cong split: prod.split option.split)

lemma world_Get_Some:
  assumes "world_Get pget w a key = Some (r, w')"
  shows "\<exists>g'. group_Get pget (gheap w a) key = Some (r, g') \<and>
    w' = w\<lparr>gheap := (gheap w)(a := g'),
      loaders := (if is_panic r then (loaders w)(a := key # loaders w a) else loaders w)\<rparr>"
proof (cases "key \<in> set (loaders w a)")
  case False
  with assms show ?thesis by (auto simp: world_Get_group_Get)
next
  case True
  with assms show ?thesis
    by (auto simp: world_Get_def world_load_def group_Get_def cong: if_cong
        split: prod.splits option.splits if_splits)
qed

lemma group_load_panic_cache:
  "group_load pget g key = Some (r, g') \<Longrightarrow> is_panic r \<Longrightarrow> mainCache g' = mainCache g"
  by (auto simp: group_load_def group_getLocally_def group_getFromPeer_def group_populateCache_def
      Let_def split: option.splits sum.splits gerr.splits)

text \<open>
  A panicking load blocks its key: after a \<open>Get\<close> whose closure panicked, the next
  \<open>Get\<close> of the key on the group misses the cache (the panic filled nothing), joins
  the call left in the loader and never returns.
\<close>

lemma world_Get_after_panic_hangs:
  assumes "group_ok (gheap w a)" and "world_Get pget w a key = Some (r, w')" and "is_panic r"
  shows "world_Get pget' w' a key = None"
proof -
  from world_Get_Some [OF assms(2)] assms(3) obtain g' where
    e: "group_Get pget (gheap w a) key = Some (r, g')"
    and w': "w' = w\<lparr>gheap := (gheap w)(a := g'), loaders := (loaders w)(a := key # loaders w a)\<rparr>"
    by auto
  have k: "key \<noteq> ''''" using e assms(3) by (auto simp: group_Get_def)
  have miss: "map_of (cache_abs (mainCache (gheap w a))) key = None"
  proof (rule ccontr)
    assume "map_of (cache_abs (mainCache (gheap w a))) key \<noteq> None"
    then obtain v where "map_of (cache_abs (mainCache (gheap w a))) key = Some v" by auto
    from group_Get_hit_eq [OF assms(1) k this, of pget] e assms(3) show False by auto
  qed
  from group_Get_miss_eq [OF assms(1) k miss, of pget] e obtain c' where
    l: "group_load pget ((gheap w a)\<lparr>mainCache := c'\<rparr>) key = Some (r, g')"
    and ok: "group_ok ((gheap w a)\<lparr>mainCache := c'\<rparr>)" and ab: "cache_abs c' = cache_abs (mainCache (gheap w a))"
    by auto
  from group_load_panic_cache [OF l assms(3)] have c: "mainCache g' = c'" by simp
  with ok have "cache_inv (mainCache g')" by (simp add: group_ok_def)
  moreover have "map_of (cache_abs (mainCache g')) key = None" using ab miss c by simp
  ultimately have "fst (cache_get (mainCache g') key) = None" by (rule cache_get_miss [THEN conjunct1])
  then obtain c'' where "cache_get (mainCache g') key = (None, c'')"
    by (cases "cache_get (mainCache g') key") auto
  with k w' show ?thesis by (simp add: world_Get_def world_load_def)
qed

lemma world_Get_eq:
  "key \<notin> set (loaders w a) \<Longrightarrow> group_Get pget (gheap w a) key = Some (r, g') \<Longrightarrow> \<not> is_panic r \<Longrightarrow>
   world_Get pget w a key = Some (r, w\<lparr>gheap := (gheap w)(a := g')\<rparr>)"
  by (simp add: world_Get_group_Get)

text \<open>
  C26: the fill protocol. With no peers, for a key that is not cached and whose loaded
  value fits the budget (or an unbounded cache), the first \<open>Get\<close> calls the loader
  once and returns its value, and a second \<open>Get\<close> returns the same value from the
  cache without calling the loader again.
\<close>

theorem group_fill_protocol:
  assumes "group_ok g" and "peers g = None" and "key \<noteq> ''''"
    and "map_of (cache_abs (mainCache g)) key = None" and "getter g key = Inr bs"
    and "cacheBytes (mainCache g) = 0 \<or> int (length key) + int (length bs) \<le> cacheBytes (mainCache g)"
  shows "\<exists>g1 g2. group_Get pget g key = Some (Inr (ByteView bs), g1) \<and>
    group_Get pget g1 key = Some (Inr (ByteView bs), g2) \<and>
    loader_calls g1 key = Suc (loader_calls g key) \<and> trace g2 = trace g1"
proof -
  from group_Get_miss_eq [OF assms(1,3,4), of pget] obtain c' where
    e: "group_Get pget g key = group_load pget (g\<lparr>mainCache := c'\<rparr>) key"
    and ok: "group_ok (g\<lparr>mainCache := c'\<rparr>)" and sc: "same_config g (g\<lparr>mainCache := c'\<rparr>)"
    and ab: "cache_abs c' = cache_abs (mainCache g)" by blast
  from sc have cb: "cacheBytes c' = cacheBytes (mainCache g)" by (simp add: same_config_def)
  from group_getLocally_spec [OF ok, of key] assms(5) obtain g1 where
    l: "group_getLocally (g\<lparr>mainCache := c'\<rparr>) key = Some (Inr (ByteView bs), g1)"
    and ok1: "group_ok g1" and sc1: "same_config (g\<lparr>mainCache := c'\<rparr>) g1"
    and tr1: "trace g1 = trace g @ [LoaderCall key]"
    and ab1: "cache_abs (mainCache g1) =
      a_add byteview_Len (cacheBytes (mainCache g)) key (ByteView bs) (cache_abs (mainCache g))"
    by (auto simp: as_view_def ab cb)
  have g1: "group_Get pget g key = Some (Inr (ByteView bs), g1)"
    using e l assms(2) by (simp add: group_load_def)
  from assms(6) have "cacheBytes (mainCache g) = 0 \<or>
      a_size byteview_Len [(key, ByteView bs)] \<le> cacheBytes (mainCache g)"
    by (simp add: a_size_def byteview_Len_def)
  from a_add_fits [OF this, of "cache_abs (mainCache g)"] ab1
  have "map_of (cache_abs (mainCache g1)) key = Some (ByteView bs)" by (simp add: fst_a_get)
  from group_Get_hit_eq [OF ok1 assms(3) this, of pget] obtain c2 where
    "group_Get pget g1 key = Some (Inr (ByteView bs), g1\<lparr>mainCache := c2\<rparr>)" by blast
  with g1 tr1 show ?thesis by (auto simp: loader_calls_def)
qed

theorem group_fill_protocol_witness:
  "\<exists>g1 g2. group_Get no_peer demo_group ''Sam'' = Some (Inr (ByteView (bytes_of_string ''570'')), g1) \<and>
     group_Get no_peer g1 ''Sam'' = Some (Inr (ByteView (bytes_of_string ''570'')), g2) \<and>
     loader_calls g1 ''Sam'' = Suc (loader_calls demo_group ''Sam'') \<and> trace g2 = trace g1"
  by (rule group_fill_protocol) (simp_all add: group_ok_def cache_inv_def cache_abs_def bytes_of_string_def)


text \<open>
  C27: a cache hit calls nobody. For a non-empty key that the cache holds, \<open>Get\<close>
  returns the cached value, calls neither a peer nor the loader, and the key becomes
  the most recently used entry.
\<close>

theorem group_Get_hit_no_load:
  assumes "group_ok g" and "key \<noteq> ''''" and "map_of (cache_abs (mainCache g)) key = Some v"
  shows "\<exists>g'. group_Get pget g key = Some (Inr v, g') \<and> trace g' = trace g \<and>
    cache_abs (mainCache g') = (key, v) # filter (\<lambda>p. fst p \<noteq> key) (cache_abs (mainCache g))"
  using group_Get_hit_eq [OF assms, of pget] by fastforce

theorem group_Get_hit_no_load_witness:
  "\<exists>g'. group_Get no_peer (demo_group\<lparr>mainCache := \<lparr>lru = Some tom_lru, cacheBytes = 2048\<rparr>\<rparr>) ''Tom'' =
     Some (Inr (ByteView [7]), g') \<and> trace g' = [] \<and>
     cache_abs (mainCache g') = (''Tom'', ByteView [7]) # filter (\<lambda>p. fst p \<noteq> ''Tom'') [(''Tom'', ByteView [7])]"
proof -
  let ?g = "demo_group\<lparr>mainCache := \<lparr>lru = Some tom_lru, cacheBytes = 2048\<rparr>\<rparr>"
  have ok: "group_ok ?g" by (simp add: group_ok_def cache_inv_def lru_inv_def lru_index_def entry_size_def byteview_Len_def fun_eq_iff)
  have m: "map_of (cache_abs (mainCache ?g)) ''Tom'' = Some (ByteView [7])"
    by (simp add: cache_abs_def lru_abs_def)
  from group_Get_hit_no_load [OF ok _ m, of no_peer] show ?thesis by (simp add: cache_abs_def lru_abs_def)
qed


text \<open>
  C28: loader errors are returned and not cached. With no peer for the key (no picker,
  or the picker names none), a miss whose loader call fails returns that error after
  exactly one loader call and leaves the cache's contents unchanged. An empty key is
  rejected before the cache and the loader are consulted.
\<close>

theorem group_Get_loader_error:
  assumes "group_ok g" and "key \<noteq> ''''" and "map_of (cache_abs (mainCache g)) key = None"
    and "case peers g of None \<Rightarrow> True | Some pick \<Rightarrow> pick key = Inr None"
    and "getter g key = Inl e"
  shows "(\<exists>g'. group_Get pget g key = Some (Inl e, g') \<and>
      cache_abs (mainCache g') = cache_abs (mainCache g) \<and> trace g' = trace g @ [LoaderCall key]) \<and>
    group_Get pget g '''' = Some (Inl KeyRequired, g)"
proof -
  from group_Get_miss_eq [OF assms(1-3), of pget] obtain c' where
    e: "group_Get pget g key = group_load pget (g\<lparr>mainCache := c'\<rparr>) key"
    and ok: "group_ok (g\<lparr>mainCache := c'\<rparr>)" and ab: "cache_abs c' = cache_abs (mainCache g)" by blast
  from group_getLocally_spec [OF ok, of key] assms(5) obtain g' where
    l: "group_getLocally (g\<lparr>mainCache := c'\<rparr>) key = Some (Inl e, g')"
    and t: "trace g' = trace g @ [LoaderCall key]" and a: "cache_abs (mainCache g') = cache_abs c'"
    by (auto simp: as_view_def)
  have "group_load pget (g\<lparr>mainCache := c'\<rparr>) key = group_getLocally (g\<lparr>mainCache := c'\<rparr>) key"
    using assms(4) by (auto simp: group_load_def split: option.splits)
  with e l t a ab show ?thesis by (simp add: group_Get_def)
qed

theorem group_Get_loader_error_witness:
  "(\<exists>g'. group_Get no_peer demo_group ''Bob'' = Some (Inl (Err ''Bob not exist''), g') \<and>
      cache_abs (mainCache g') = cache_abs (mainCache demo_group) \<and>
      trace g' = trace demo_group @ [LoaderCall ''Bob'']) \<and>
   group_Get no_peer demo_group '''' = Some (Inl KeyRequired, demo_group)"
  by (rule group_Get_loader_error) (simp_all add: group_ok_def cache_inv_def cache_abs_def)

text \<open>
  C29: values from a peer are returned but not cached locally. On a miss for a key the
  picker assigns to a peer that answers with bytes, \<open>Get\<close> returns those bytes,
  calls that peer once with the group's name and the key, never calls the loader, and
  leaves the cache's contents unchanged.
\<close>

theorem group_Get_remote_not_cached:
  assumes "group_ok g" and "key \<noteq> ''''" and "map_of (cache_abs (mainCache g)) key = None"
    and "peers g = Some pick" and "pick key = Inr (Some p)" and "pget p (gname g) key = Inr bs"
  shows "\<exists>g'. group_Get pget g key = Some (Inr (ByteView bs), g') \<and>
    cache_abs (mainCache g') = cache_abs (mainCache g) \<and> trace g' = trace g @ [PeerCall p (gname g) key]"
proof -
  from group_Get_miss_eq [OF assms(1-3), of pget] obtain c' where
    e: "group_Get pget g key = group_load pget (g\<lparr>mainCache := c'\<rparr>) key"
    and ab: "cache_abs c' = cache_abs (mainCache g)" by blast
  with assms(4-6) show ?thesis
    by (simp add: group_load_def group_getFromPeer_eq as_view_def)
qed

theorem group_Get_remote_not_cached_witness:
  "\<exists>g'. group_Get (\<lambda>p gn k. Inr (bytes_of_string ''589''))
      (demo_group\<lparr>peers := Some (\<lambda>k. Inr (Some 8001))\<rparr>) ''Jack'' = Some (Inr (ByteView (bytes_of_string ''589'')), g') \<and>
    cache_abs (mainCache g') = cache_abs (mainCache (demo_group\<lparr>peers := Some (\<lambda>k. Inr (Some 8001))\<rparr>)) \<and>
    trace g' = trace (demo_group\<lparr>peers := Some (\<lambda>k. Inr (Some 8001))\<rparr>) @
      [PeerCall 8001 (gname (demo_group\<lparr>peers := Some (\<lambda>k. Inr (Some 8001))\<rparr>)) ''Jack'']"
  by (rule group_Get_remote_not_cached) (simp_all add: group_ok_def cache_inv_def cache_abs_def)

text \<open>
  C30: a failing peer falls back to the loader. On a miss for a key the picker assigns
  to a peer whose call returns an error (not a panic), \<open>Get\<close> returns what the loader
  returns (its value or its error), after calling the peer and then the loader; the
  peer's error is dropped.
\<close>

theorem group_Get_remote_failure_falls_back:
  assumes "group_ok g" and "key \<noteq> ''''" and "map_of (cache_abs (mainCache g)) key = None"
    and "peers g = Some pick" and "pick key = Inr (Some p)" and "pget p (gname g) key = Inl e"
    and "\<forall>m. e \<noteq> Panic m"
  shows "\<exists>g'. group_Get pget g key = Some (as_view (getter g key), g') \<and>
    trace g' = trace g @ [PeerCall p (gname g) key, LoaderCall key]"
proof -
  from group_Get_miss_eq [OF assms(1-3), of pget] obtain c' where
    e: "group_Get pget g key = group_load pget (g\<lparr>mainCache := c'\<rparr>) key"
    and ok: "group_ok (g\<lparr>mainCache := c'\<rparr>)" by blast
  let ?g1 = "g\<lparr>mainCache := c', trace := trace g @ [PeerCall p (gname g) key]\<rparr>"
  from ok have "group_ok ?g1" by (simp add: group_ok_def)
  from group_getLocally_spec [OF this, of key] obtain g' where
    "group_getLocally ?g1 key = Some (as_view (getter g key), g')"
    "trace g' = trace g @ [PeerCall p (gname g) key, LoaderCall key]" by auto
  with e assms(4-7) show ?thesis
    by (simp add: group_load_def group_getFromPeer_eq as_view_def split: gerr.splits)
qed

theorem group_Get_remote_failure_falls_back_witness:
  "\<exists>g'. group_Get no_peer (demo_group\<lparr>peers := Some (\<lambda>k. Inr (Some 8001))\<rparr>) ''Tom'' =
      Some (as_view (getter (demo_group\<lparr>peers := Some (\<lambda>k. Inr (Some 8001))\<rparr>) ''Tom''), g') \<and>
    trace g' = trace (demo_group\<lparr>peers := Some (\<lambda>k. Inr (Some 8001))\<rparr>) @
      [PeerCall 8001 (gname (demo_group\<lparr>peers := Some (\<lambda>k. Inr (Some 8001))\<rparr>)) ''Tom'', LoaderCall ''Tom'']"
  by (rule group_Get_remote_failure_falls_back [where e = "Err ''unreachable''"]) (simp_all add: group_ok_def cache_inv_def cache_abs_def)


text \<open>
  C31: every value \<open>Get\<close> returns has a source. On a well-formed group, a value
  returned by \<open>Get(key)\<close> was the cached value of the key, or the bytes the peer the
  picker chose for the key sent back, or the bytes the loader returned for the key.
\<close>

theorem group_Get_result_sound:
  assumes "group_ok g" and "group_Get pget g key = Some (Inr v, g')"
  shows "map_of (cache_abs (mainCache g)) key = Some v \<or>
    (\<exists>pick p. peers g = Some pick \<and> pick key = Inr (Some p) \<and> pget p (gname g) key = Inr (view_bytes v)) \<or>
    getter g key = Inr (view_bytes v)"
proof (cases "key = ''''")
  case True
  with assms(2) show ?thesis by (simp add: group_Get_def)
next
  case False
  show ?thesis
  proof (cases "map_of (cache_abs (mainCache g)) key")
    case None
    from group_Get_miss_eq [OF assms(1) False None, of pget] obtain c' where
      e: "group_Get pget g key = group_load pget (g\<lparr>mainCache := c'\<rparr>) key"
      and ok: "group_ok (g\<lparr>mainCache := c'\<rparr>)" by blast
    from e assms(2) have "group_load pget (g\<lparr>mainCache := c'\<rparr>) key = Some (Inr v, g')" by simp
    from group_load_sound [OF ok this] show ?thesis by simp
  next
    case (Some w)
    from group_Get_hit_eq [OF assms(1) False Some, of pget] assms(2) Some show ?thesis by auto
  qed
qed

theorem group_Get_result_sound_witness:
  "map_of (cache_abs (mainCache demo_group)) ''Tom'' = Some (ByteView (bytes_of_string ''630'')) \<or>
   (\<exists>pick p. peers demo_group = Some pick \<and> pick ''Tom'' = Inr (Some p) \<and>
      no_peer p (gname demo_group) ''Tom'' = Inr (view_bytes (ByteView (bytes_of_string ''630'')))) \<or>
   getter demo_group ''Tom'' = Inr (view_bytes (ByteView (bytes_of_string ''630'')))"
proof -
  from demo_Get_Tom
  obtain g1 where "group_Get no_peer demo_group ''Tom'' = Some (Inr (ByteView (bytes_of_string ''630'')), g1)" ..
  with group_Get_result_sound [of demo_group no_peer "''Tom''"] show ?thesis
    by (simp add: group_ok_def cache_inv_def)
qed

text \<open>
  Peers are registered at most once. On a group made by \<open>NewGroup\<close>, the first
  \<open>RegisterPeers\<close> installs the picker; a second one panics.
\<close>

theorem group_RegisterPeers_once:
  assumes "NewGroup w name cb (Some f) = Inr (a, w')"
  shows "\<exists>g1. group_RegisterPeers (gheap w' a) p = Inr g1 \<and> peers g1 = Some p \<and>
    group_RegisterPeers g1 q = Inl (Panic ''RegisterPeerPicker called more than once'')"
  using assms by (auto simp: NewGroup_def group_RegisterPeers_def Let_def)

theorem group_RegisterPeers_once_witness:
  "\<exists>g1. group_RegisterPeers (gheap (snd (projr (NewGroup (\<lparr>groups = Map.empty, gheap = (\<lambda>_. demo_group), gnext = 0, loaders = (\<lambda>_. [])\<rparr> :: nat world) ''scores'' 2048 (Some demo_getter)))) 0)
      (\<lambda>k. Inr (Some 8001)) = Inr g1 \<and> peers g1 = Some (\<lambda>k. Inr (Some 8001)) \<and>
    group_RegisterPeers g1 (\<lambda>k. Inr None) = Inl (Panic ''RegisterPeerPicker called more than once'')"
  by (rule group_RegisterPeers_once [where w = "\<lparr>groups = Map.empty, gheap = (\<lambda>_. demo_group), gnext = 0, loaders = (\<lambda>_. [])\<rparr>"
      and name = "''scores''" and cb = 2048 and f = demo_getter])
     (simp add: NewGroup_def)

text \<open>
  C33: reusing a group name replaces the registered group. \<open>NewGroup\<close> with the name
  of a registered group registers a new, distinct group under that name; the old
  group is unchanged and still reachable through its pointer, but \<open>GetGroup\<close> no
  longer finds it.
\<close>

theorem NewGroup_name_reuse_replaces:
  assumes "world_ok w" and "GetGroup w name = Some a0"
    and "NewGroup w name cb (Some f) = Inr (a, w')"
  shows "GetGroup w' name = Some a \<and> a \<noteq> a0 \<and> gheap w' a0 = gheap w a0 \<and> world_ok w'"
proof -
  from assms(1,2) have "a0 < gnext w" by (simp add: world_ok_def GetGroup_def)
  with assms(1,3) show ?thesis
    by (auto simp: NewGroup_def GetGroup_def world_ok_def Let_def less_Suc_eq split: if_splits)
qed

theorem NewGroup_name_reuse_replaces_witness:
  "GetGroup (snd (projr (NewGroup (\<lparr>groups = [''scores'' \<mapsto> 0], gheap = (\<lambda>_. demo_group), gnext = 1, loaders = (\<lambda>_. [])\<rparr> :: nat world)
      ''scores'' 64 (Some demo_getter)))) ''scores'' = Some 1 \<and> (1::nat) \<noteq> 0 \<and>
   gheap (snd (projr (NewGroup (\<lparr>groups = [''scores'' \<mapsto> 0], gheap = (\<lambda>_. demo_group), gnext = 1, loaders = (\<lambda>_. [])\<rparr> :: nat world)
      ''scores'' 64 (Some demo_getter)))) 0 = demo_group \<and>
   world_ok (snd (projr (NewGroup (\<lparr>groups = [''scores'' \<mapsto> 0], gheap = (\<lambda>_. demo_group), gnext = 1, loaders = (\<lambda>_. [])\<rparr> :: nat world)
      ''scores'' 64 (Some demo_getter))))"
proof -
  let ?w = "\<lparr>groups = [''scores'' \<mapsto> 0], gheap = (\<lambda>_. demo_group), gnext = 1, loaders = (\<lambda>_. [])\<rparr> :: nat world"
  have n: "NewGroup ?w ''scores'' 64 (Some demo_getter) =
    Inr (1, snd (projr (NewGroup ?w ''scores'' 64 (Some demo_getter))))"
    by (simp add: NewGroup_def)
  have "world_ok ?w" by (simp add: world_ok_def)
  from NewGroup_name_reuse_replaces [OF this _ n] show ?thesis by (simp add: GetGroup_def)
qed

end
