(* ===== verification/Protobuf.thy ===== *)
theory Protobuf
  imports Prelude
begin

text \<open>
  The peer messages of \<open>geecachepb\<close> (generated code, not in \<open>src/\<close>) and the
  proto3 wire format \<open>proto.Marshal\<close>/\<open>proto.Unmarshal\<close> give them, as
  \<open>google.golang.org/protobuf\<close> computes it: \<open>pb.Response\<close> has the one field
  \<open>bytes value = 1\<close>. A varint is a little-endian sequence of 7-bit groups with the
  high bit set on every byte but the last, at most ten bytes for a \<open>uint64\<close>
  (\<open>protowire.ConsumeVarint\<close>: the tenth byte must be 0 or 1). \<open>Marshal\<close> omits a
  zero-length value (proto3 implicit presence) and writes tag \<open>0x0A\<close> (field 1,
  wire type 2), the length and the bytes otherwise. \<open>Unmarshal\<close> resets the message,
  then reads fields until the input ends: the last \<open>value\<close> field wins, a field of
  another number or wire type is skipped by its wire type, and a malformed input is the
  error \<open>None\<close> (every decoding error of the library has the one text
  \<open>proto: cannot parse invalid wire-format data\<close>). Groups (wire types 3 and 4), which
  no proto3 message has, are rejected rather than skipped.
\<close>

datatype pb_response = PbResponse (pb_value: bytes)

section \<open>Varints\<close>

text \<open>\<open>protowire.AppendVarint\<close>: \<open>byte(v&0x7f|0x80)\<close> while \<open>v >= 0x80\<close>, then \<open>byte(v)\<close>.\<close>

fun EncodeVarint :: "nat \<Rightarrow> bytes" where
  "EncodeVarint v =
     (if v < 128 then [of_nat v] else of_nat (v mod 128 + 128) # EncodeVarint (v div 128))"

text \<open>
  \<open>protowire.ConsumeVarint\<close>, with \<open>i\<close> the number of bytes already read: \<open>None\<close>
  is \<open>errCodeTruncated\<close> (the input ends) or \<open>errCodeOverflow\<close> (a tenth byte above 1).
\<close>

fun ConsumeVarint :: "nat \<Rightarrow> bytes \<Rightarrow> (nat \<times> bytes) option" where
  "ConsumeVarint i [] = None"
| "ConsumeVarint i (b # bs) =
     (if 9 \<le> i then (if unat b < 2 then Some (unat b, bs) else None)
      else if unat b < 128 then Some (unat b, bs)
      else map_option (\<lambda>(v, r). (unat b - 128 + 128 * v, r)) (ConsumeVarint (Suc i) bs))"

definition MaxValidNumber :: nat where
  "MaxValidNumber = 2 ^ 29 - 1"

text \<open>The tag of a field: its number (\<open>tag >> 3\<close>, from 1 to \<open>MaxValidNumber\<close>) and wire type.\<close>

definition ConsumeTag :: "bytes \<Rightarrow> (nat \<times> nat \<times> bytes) option" where
  "ConsumeTag bs =
     (case ConsumeVarint 0 bs of
        None \<Rightarrow> None
      | Some (t, r) \<Rightarrow>
          if t div 8 < 1 \<or> MaxValidNumber < t div 8 then None else Some (t div 8, t mod 8, r))"

text \<open>\<open>protowire.ConsumeBytes\<close>: a varint length, then that many bytes.\<close>

definition ConsumeBytes :: "bytes \<Rightarrow> (bytes \<times> bytes) option" where
  "ConsumeBytes bs =
     (case ConsumeVarint 0 bs of
        None \<Rightarrow> None
      | Some (m, r) \<Rightarrow> if length r < m then None else Some (take m r, drop m r))"

text \<open>\<open>protowire.ConsumeFieldValue\<close> for the non-group wire types.\<close>

definition ConsumeFieldValue :: "nat \<Rightarrow> bytes \<Rightarrow> bytes option" where
  "ConsumeFieldValue typ bs =
     (if typ = 0 then map_option snd (ConsumeVarint 0 bs)
      else if typ = 1 then (if length bs < 8 then None else Some (drop 8 bs))
      else if typ = 2 then map_option snd (ConsumeBytes bs)
      else if typ = 5 then (if length bs < 4 then None else Some (drop 4 bs))
      else None)"

section \<open>The \<open>Response\<close> message\<close>

definition proto_Marshal :: "pb_response \<Rightarrow> bytes" where
  "proto_Marshal m =
     (if pb_value m = [] then []
      else 0x0A # EncodeVarint (length (pb_value m)) @ pb_value m)"

text \<open>The field loop of \<open>Unmarshal\<close>, with \<open>v\<close> the value read so far.\<close>

function unmarshal_fields :: "bytes \<Rightarrow> bytes \<Rightarrow> bytes option" where
  "unmarshal_fields v bs =
     (if bs = [] then Some v
      else (case ConsumeTag bs of
              None \<Rightarrow> None
            | Some (num, typ, r) \<Rightarrow>
                if num = 1 \<and> typ = 2
                then (case ConsumeBytes r of
                        None \<Rightarrow> None
                      | Some (x, r') \<Rightarrow> unmarshal_fields x r')
                else (case ConsumeFieldValue typ r of
                        None \<Rightarrow> None
                      | Some r' \<Rightarrow> unmarshal_fields v r')))"
  by pat_completeness auto
termination
proof (relation "measure (length \<circ> snd)", goal_cases)
  have varint: "length r < length bs" if "ConsumeVarint i bs = Some (v, r)" for i bs v r
    using that by (induction i bs arbitrary: v rule: ConsumeVarint.induct) (auto split: if_splits)
  have tag: "length r < length bs" if "ConsumeTag bs = Some (n, t, r)" for bs n t r
    using that by (auto simp: ConsumeTag_def split: option.splits if_splits dest: varint)
  have bytes: "length r < length bs" if "ConsumeBytes bs = Some (x, r)" for bs x r
    using that by (auto simp: ConsumeBytes_def split: option.splits if_splits dest!: varint)
  have field: "length r \<le> length bs" if "ConsumeFieldValue t bs = Some r" for t bs r
    using that by (auto simp: ConsumeFieldValue_def split: if_splits dest!: varint bytes)
  {
    case 1
    show ?case by simp
  }
  {
    case 2
    then show ?case by (auto dest!: tag bytes)
  }
  {
    case 3
    then show ?case by (auto dest!: tag field)
  }
qed

declare unmarshal_fields.simps [simp del]

definition proto_Unmarshal :: "bytes \<Rightarrow> pb_response option" where
  "proto_Unmarshal bs = map_option PbResponse (unmarshal_fields [] bs)"

definition decode_error_text :: string where
  "decode_error_text = ''proto: cannot parse invalid wire-format data''"

section \<open>Lemmas\<close>

declare EncodeVarint.simps [simp del]

lemma EncodeVarint_small: "v < 128 \<Longrightarrow> EncodeVarint v = [of_nat v]"
  by (simp add: EncodeVarint.simps)

lemma EncodeVarint_big:
  "\<not> v < 128 \<Longrightarrow> EncodeVarint v = of_nat (v mod 128 + 128) # EncodeVarint (v div 128)"
  by (subst EncodeVarint.simps) simp

lemma unat_byte_of_nat: "n < 256 \<Longrightarrow> unat (of_nat n :: byte) = n"
  by (simp add: unat_of_nat)

text \<open>A varint of at most \<open>10 - i\<close> bytes, the last at most 1 when it is the tenth, reads back.\<close>

lemma ConsumeVarint_EncodeVarint:
  "i \<le> 9 \<Longrightarrow> v < 2 * 128 ^ (9 - i) \<Longrightarrow> ConsumeVarint i (EncodeVarint v @ r) = Some (v, r)"
proof (induction v arbitrary: i rule: EncodeVarint.induct)
  case (1 v)
  show ?case
  proof (cases "v < 128")
    case True
    then show ?thesis using 1(2,3)
      by (cases "i = 9") (simp_all add: unat_byte_of_nat EncodeVarint_small)
  next
    case False
    with 1(2,3) have i: "i < 9" by (cases "i = 9") auto
    then have "(128::nat) ^ (9 - i) = 128 * 128 ^ (9 - Suc i)"
      by (metis Suc_diff_Suc power_Suc)
    with 1(3) have "v div 128 < 2 * 128 ^ (9 - Suc i)" by simp
    moreover have "unat (of_nat (v mod 128 + 128) :: byte) = v mod 128 + 128"
      by (rule unat_byte_of_nat) simp
    ultimately show ?thesis using 1(1) [OF False, of "Suc i"] i False
      by (simp add: EncodeVarint_big del: of_nat_add)
  qed
qed

lemma EncodeVarint_length: "v < 2 * 128 ^ k \<Longrightarrow> length (EncodeVarint v) \<le> Suc k"
proof (induction v arbitrary: k rule: EncodeVarint.induct)
  case (1 v)
  show ?case
  proof (cases "v < 128")
    case False
    then obtain k' where k: "k = Suc k'" using 1(2) by (cases k) auto
    with 1(2) have "v div 128 < 2 * 128 ^ k'" by simp
    with 1(1) [OF False] False k show ?thesis by (simp add: EncodeVarint_big)
  qed (simp add: EncodeVarint_small)
qed

lemma ConsumeVarint_len: "n < 2 ^ 64 \<Longrightarrow> ConsumeVarint 0 (EncodeVarint n @ r) = Some (n, r)"
  by (rule ConsumeVarint_EncodeVarint) simp_all

lemma unmarshal_fields_Nil [simp]: "unmarshal_fields v [] = Some v"
  by (simp add: unmarshal_fields.simps)

text \<open>A \<open>value\<close> field read from the front of the input replaces the value read so far.\<close>

lemma unmarshal_fields_value_field:
  assumes "length v < 2 ^ 64" and "v \<noteq> []"
  shows "unmarshal_fields v0 (proto_Marshal (PbResponse v) @ rest) = unmarshal_fields v rest"
proof -
  have "ConsumeTag (0x0A # EncodeVarint (length v) @ v @ rest) =
      Some (1, 2, EncodeVarint (length v) @ v @ rest)"
    by (simp add: ConsumeTag_def MaxValidNumber_def)
  moreover have "ConsumeBytes (EncodeVarint (length v) @ v @ rest) = Some (v, rest)"
    using ConsumeVarint_len [OF assms(1), of "v @ rest"] by (simp add: ConsumeBytes_def)
  ultimately show ?thesis using assms(2)
    by (simp add: proto_Marshal_def unmarshal_fields.simps [of v0])
qed

lemma ConsumeVarint_continuation: "\<forall>b\<in>set bs. 128 \<le> unat b \<Longrightarrow> ConsumeVarint i bs = None"
  by (induction i bs rule: ConsumeVarint.induct) auto

lemma EncodeVarint_butlast: "\<forall>b\<in>set (butlast (EncodeVarint v)). 128 \<le> unat b"
proof (induction v rule: EncodeVarint.induct)
  case (1 v)
  show ?case
  proof (cases "v < 128")
    case False
    have "unat (of_nat (v mod 128 + 128) :: byte) = v mod 128 + 128"
      by (rule unat_byte_of_nat) simp
    moreover have "EncodeVarint (v div 128) \<noteq> []"
      by (cases "v div 128 < 128") (simp_all add: EncodeVarint_small EncodeVarint_big)
    ultimately show ?thesis using 1 [OF False] False
      by (simp add: EncodeVarint_big del: of_nat_add)
  qed (simp add: EncodeVarint_small)
qed

text \<open>A proper prefix of a varint is truncated.\<close>

lemma ConsumeVarint_prefix:
  "j < length (EncodeVarint v) \<Longrightarrow> ConsumeVarint i (take j (EncodeVarint v)) = None"
proof -
  assume "j < length (EncodeVarint v)"
  then have "take j (EncodeVarint v) = take j (butlast (EncodeVarint v))"
    by (simp add: take_butlast)
  then have "set (take j (EncodeVarint v)) \<subseteq> set (butlast (EncodeVarint v))"
    by (metis set_take_subset)
  with EncodeVarint_butlast [of v] show ?thesis
    by (blast intro: ConsumeVarint_continuation)
qed

section \<open>Decoding an encoded response\<close>

text \<open>
  \<open>Unmarshal\<close> inverts \<open>Marshal\<close> for every value shorter than \<open>2^64\<close> bytes
  (every Go slice), the empty value included (it is encoded as no bytes at all).
\<close>

lemma proto_roundtrip:
  "length (pb_value m) < 2 ^ 64 \<Longrightarrow> proto_Unmarshal (proto_Marshal m) = Some m"
  using unmarshal_fields_value_field [of "pb_value m" "[]" "[]"]
  by (cases m) (auto simp: proto_Unmarshal_def proto_Marshal_def)

text \<open>
  Every proper non-empty prefix of an encoded \<open>Response\<close> fails to decode: the
  value's length or the value is cut short.
\<close>

lemma proto_Unmarshal_truncated:
  assumes "length (pb_value m) < 2 ^ 64" and "0 < n" and "n < length (proto_Marshal m)"
  shows "proto_Unmarshal (take n (proto_Marshal m)) = None"
proof -
  obtain v where m: "m = PbResponse v" by (cases m)
  with assms(2,3) have v: "v \<noteq> []" by (auto simp: proto_Marshal_def)
  let ?e = "EncodeVarint (length v)"
  have t: "take n (proto_Marshal m) = 0x0A # take (n - 1) (?e @ v)"
    using assms(2) v m by (cases n) (simp_all add: proto_Marshal_def)
  have tag: "ConsumeTag (0x0A # take (n - 1) (?e @ v)) = Some (1, 2, take (n - 1) (?e @ v))"
    by (simp add: ConsumeTag_def MaxValidNumber_def)
  have "ConsumeBytes (take (n - 1) (?e @ v)) = None"
  proof (cases "n - 1 < length ?e")
    case True
    then show ?thesis by (simp add: ConsumeBytes_def ConsumeVarint_prefix)
  next
    case False
    then have "take (n - 1) (?e @ v) = ?e @ take (n - 1 - length ?e) v" by simp
    moreover have "n - 1 - length ?e < length v"
      using assms(2,3) False m v by (auto simp: proto_Marshal_def)
    ultimately show ?thesis
      using ConsumeVarint_len [OF assms(1)[unfolded m pb_response.sel]] by (simp add: ConsumeBytes_def)
  qed
  with t tag show ?thesis by (simp add: proto_Unmarshal_def unmarshal_fields.simps)
qed

end
