(* ===== verification/HTTP.thy ===== *)
theory HTTP
  imports ConsistentHash GeeCache Protobuf
begin

text \<open>
  \<open>src/http.go\<close>: the peer transport. An \<open>HTTPPool\<close> is both the server of a node
  (\<open>ServeHTTP\<close> answers \<open>GET <basePath><group>/<key>\<close>) and its \<open>PeerPicker\<close>
  (\<open>Set\<close> builds a consistent-hash ring of the peer addresses with 50 replicas and
  the default hash, and one \<open>httpGetter\<close> per peer; \<open>PickPeer\<close> returns the getter
  of the key's owner unless the owner is the node itself). \<open>httpGetter.Get\<close> builds
  the URL \<open>baseURL + QueryEscape(group) + "/" + QueryEscape(key)\<close>, fetches it and
  decodes the body as a \<open>pb.Response\<close>; it is the \<open>PeerGetter\<close> of the group
  (\<open>GeeCache.peer_get\<close> with the receiver pointer as the peer).

  The server receives \<open>r.URL.Path\<close>, which \<open>net/http\<close> has already decoded with
  the path rules of \<open>net/url\<close> (\<open>%XX\<close> is a byte, \<open>+\<close> stays \<open>+\<close>): the
  library functions \<open>url.QueryEscape\<close> and that decoding are modelled by what they
  compute (\<open>query_escape\<close>, \<open>path_unescape\<close>). \<open>http.Error\<close> is the outcome
  \<open>HttpError\<close> with the status and message; a handler that writes the value and then
  reaches \<open>log.Fatal\<close> is the outcome \<open>WroteThenFatal\<close> (the process exits); a
  panic is \<open>ServePanic\<close>. The body written is \<open>Protobuf.proto_Marshal\<close> of the
  response. An \<open>httpGetter\<close> is its \<open>baseURL\<close>; a missing map entry is Go's nil
  pointer, \<open>None\<close>. What \<open>http.Get\<close> gives the client is the environment
  (\<open>net_reply\<close>); \<open>transport\<close> and \<open>serve_url\<close> say what \<open>net/http\<close>
  delivers of a server's outcome, with \<open>flushed\<close> telling whether a body written just
  before \<open>log.Fatal\<close> reaches the client before the process exits.
\<close>

section \<open>Library functions\<close>

text \<open>\<open>net/url\<close>: query escaping of one byte string, as \<open>url.QueryEscape\<close>.\<close>

definition hex_upper :: "nat \<Rightarrow> char" where
  "hex_upper n = (if n < 10 then char_of (48 + n) else char_of (55 + n))"

definition unreserved :: "char \<Rightarrow> bool" where
  "unreserved c \<longleftrightarrow>
     (let n = of_char c :: nat
      in (48 \<le> n \<and> n \<le> 57) \<or> (65 \<le> n \<and> n \<le> 90) \<or> (97 \<le> n \<and> n \<le> 122) \<or>
         c = CHR ''-'' \<or> c = CHR ''_'' \<or> c = CHR ''.'' \<or> c = CHR ''~'')"

fun query_escape :: "string \<Rightarrow> string" where
  "query_escape [] = []"
| "query_escape (c # cs) =
     (if c = CHR '' '' then CHR ''+'' # query_escape cs
      else if unreserved c then c # query_escape cs
      else [CHR ''%'', hex_upper (of_char c div 16), hex_upper (of_char c mod 16)] @ query_escape cs)"

text \<open>\<open>net/url\<close>: \<open>unhex\<close> and the path decoding of \<open>unescape(s, encodePath)\<close>.\<close>

definition unhex :: "char \<Rightarrow> nat option" where
  "unhex c =
     (let n = of_char c :: nat
      in if 48 \<le> n \<and> n \<le> 57 then Some (n - 48)
         else if 97 \<le> n \<and> n \<le> 102 then Some (n - 87)
         else if 65 \<le> n \<and> n \<le> 70 then Some (n - 55)
         else None)"

fun path_unescape :: "string \<Rightarrow> string option" where
  "path_unescape [] = Some []"
| "path_unescape (c # cs) =
     (if c = CHR ''%''
      then (case cs of
              a # b # rest \<Rightarrow>
                (case (unhex a, unhex b) of
                   (Some x, Some y) \<Rightarrow> map_option (Cons (char_of (16 * x + y))) (path_unescape rest)
                 | _ \<Rightarrow> None)
            | _ \<Rightarrow> None)
      else map_option (Cons c) (path_unescape cs))"

text \<open>\<open>strings.SplitN(s, "/", 2)\<close>.\<close>

definition splitN2 :: "string \<Rightarrow> string list" where
  "splitN2 s =
     (if CHR ''/'' \<in> set s
      then [takeWhile (\<lambda>c. c \<noteq> CHR ''/'') s, tl (dropWhile (\<lambda>c. c \<noteq> CHR ''/'') s)]
      else [s])"

section \<open>The pool\<close>

definition defaultBasePath :: string where
  "defaultBasePath = ''/_geecache/''"

definition defaultReplicas :: int where
  "defaultReplicas = 50"

record httppool =
  self :: string
  basePath :: string
  ring :: "hmap option"
  httpGetters :: "string \<rightharpoonup> string"

definition NewHTTPPool :: "string \<Rightarrow> httppool" where
  "NewHTTPPool s = \<lparr>self = s, basePath = defaultBasePath, ring = None, httpGetters = Map.empty\<rparr>"

definition pool_Set :: "httppool \<Rightarrow> string list \<Rightarrow> httppool" where
  "pool_Set p ps =
     p\<lparr>ring := Some (hm_Add (hm_New defaultReplicas None) ps),
       httpGetters := fold (\<lambda>peer m. m(peer \<mapsto> peer @ basePath p)) ps Map.empty\<rparr>"

text \<open>
  \<open>PickPeer\<close>: \<open>Inl\<close> is the nil-pointer panic before \<open>Set\<close>; \<open>Inr None\<close> is
  \<open>(nil, false)\<close>; \<open>Inr (Some g)\<close> is \<open>(p.httpGetters[peer], true)\<close>.
\<close>

definition PickPeer :: "httppool \<Rightarrow> string \<Rightarrow> gerr + string option option" where
  "PickPeer p key =
     (case ring p of
        None \<Rightarrow> Inl (Panic ''invalid memory address or nil pointer dereference'')
      | Some m \<Rightarrow>
          (let peer = hm_Get m key
           in if peer \<noteq> '''' \<and> peer \<noteq> self p then Inr (Some (httpGetters p peer)) else Inr None))"

text \<open>The URL \<open>httpGetter.Get\<close> requests for a group and a key.\<close>

definition httpGetter_url :: "string \<Rightarrow> string \<Rightarrow> string \<Rightarrow> string" where
  "httpGetter_url baseURL grp key = baseURL @ query_escape grp @ ''/'' @ query_escape key"

section \<open>The server\<close>


datatype serve_result =
    HttpError nat string
  | WroteThenFatal bytes
  | WriteFailed bytes
  | ServePanic string

primrec err_text :: "gerr \<Rightarrow> string" where
  "err_text KeyRequired = ''key is required''"
| "err_text (Err s) = s"
| "err_text (Panic s) = s"

text \<open>
  Lines 83--108: look the group up, get the value, write it. A panic of
  \<open>group.Get\<close> (a panicking \<open>Getter\<close>, \<open>PickPeer\<close> or \<open>PeerGetter\<close>) is not an
  error value: it unwinds out of the handler. \<open>write_ok\<close> is whether \<open>w.Write\<close>
  returned no error: then \<open>log.Fatal\<close> runs (the test at line 105 is inverted);
  otherwise the handler returns and the server goes on.
\<close>

definition serve_group ::
  "bool \<Rightarrow> 'pg peer_get \<Rightarrow> 'pg world \<Rightarrow> string \<Rightarrow> string \<Rightarrow> (serve_result \<times> 'pg world) option" where
  "serve_group write_ok pget w groupName key =
     (case GetGroup w groupName of
        None \<Rightarrow> Some (HttpError 404 (''no such group: '' @ groupName), w)
      | Some a \<Rightarrow>
          (case world_Get pget w a key of
             None \<Rightarrow> None
           | Some (Inl (Panic m), w') \<Rightarrow> Some (ServePanic m, w')
           | Some (Inl e, w') \<Rightarrow> Some (HttpError 500 (err_text e), w')
           | Some (Inr v, w') \<Rightarrow>
               (let body = proto_Marshal (PbResponse (byteview_ByteSlice v))
                in Some (if write_ok then WroteThenFatal body else WriteFailed body, w'))))"

definition ServeHTTP ::
  "bool \<Rightarrow> 'pg peer_get \<Rightarrow> 'pg world \<Rightarrow> httppool \<Rightarrow> string \<Rightarrow> (serve_result \<times> 'pg world) option" where
  "ServeHTTP write_ok pget w p path =
     (if \<not> (length (basePath p) \<le> length path \<and> take (length (basePath p)) path = basePath p)
      then Some (ServePanic (''HTTPPool serving unexpected path: '' @ path), w)
      else
        (let parts = splitN2 (drop (length (basePath p)) path)
         in if length parts \<noteq> 2 then Some (HttpError 400 ''bad request'', w)
            else serve_group write_ok pget w (parts ! 0) (parts ! 1)))"


section \<open>The client\<close>

text \<open>
  What \<open>http.Get\<close> gives back: a transport error, or a response with its status code,
  its status line \<open>res.Status\<close> and the result of \<open>ioutil.ReadAll(res.Body)\<close>.
\<close>

datatype net_reply = NetError string | HttpReply nat string "string + bytes"

text \<open>
  \<open>httpGetter.Get\<close> (lines 171--199) on the receiver pointer \<open>h\<close>, with the value
  \<open>getFromPeer\<close> then reads from \<open>res.Value\<close>: the request, then the status, the
  body and the decoding checks in the code's order, each failure an error with the
  code's text. A nil receiver panics when \<open>h.baseURL\<close> is read.
\<close>

definition httpGetter_Get :: "(string \<Rightarrow> net_reply) \<Rightarrow> string option peer_get" where
  "httpGetter_Get fetch h grp key =
     (case h of
        None \<Rightarrow> Inl (Panic ''invalid memory address or nil pointer dereference'')
      | Some baseURL \<Rightarrow>
          (case fetch (httpGetter_url baseURL grp key) of
             NetError e \<Rightarrow> Inl (Err e)
           | HttpReply code status body \<Rightarrow>
               if code \<noteq> 200 then Inl (Err (''server returned: '' @ status))
               else
                 (case body of
                    Inl e \<Rightarrow> Inl (Err (''reading response body: '' @ e))
                  | Inr bs \<Rightarrow>
                      (case proto_Unmarshal bs of
                         None \<Rightarrow> Inl (Err (''decoding response body: '' @ decode_error_text))
                       | Some out \<Rightarrow> Inr (pb_value out)))))"

section \<open>What the network delivers\<close>




text \<open>A space becomes \<open>+\<close>: what the path decoding gives back for a query-escaped string.\<close>

definition plus_for_space :: "string \<Rightarrow> string" where
  "plus_for_space s = map (\<lambda>c. if c = CHR '' '' then CHR ''+'' else c) s"

section \<open>Lemmas\<close>

lemma unhex_hex_upper: "n < 16 \<Longrightarrow> unhex (hex_upper n) = Some n"
  by (auto simp: unhex_def hex_upper_def Let_def)

lemma char_of_div_mod: "char_of (16 * (of_char c div 16) + of_char c mod 16 :: nat) = c"
  by simp

lemma unreserved_not_percent: "unreserved c \<Longrightarrow> c \<noteq> CHR ''%''"
  by (auto simp: unreserved_def)

lemma path_unescape_query_escape:
  "path_unescape (query_escape s @ t) = map_option ((@) (plus_for_space s)) (path_unescape t)"
proof (induction s)
  case Nil
  then show ?case by (simp add: plus_for_space_def option.map_ident)
next
  case (Cons c cs)
  have hx: "unhex (hex_upper (of_char c div 16)) = Some (of_char c div 16)"
    "unhex (hex_upper (of_char c mod 16)) = Some (of_char c mod 16)"
    using nat_of_char_less_256 [of c] by (simp_all add: unhex_hex_upper less_mult_imp_div_less)
  show ?case
  proof (cases "c = CHR '' ''")
    case True
    with Cons.IH show ?thesis by (simp add: plus_for_space_def option.map_comp comp_def)
  next
    case False
    show ?thesis
    proof (cases "unreserved c")
      case True
      with False Cons.IH unreserved_not_percent [OF True] show ?thesis
        by (simp add: plus_for_space_def option.map_comp comp_def)
    next
      case nr: False
      with False Cons.IH hx show ?thesis
        by (simp add: plus_for_space_def option.map_comp comp_def)
    qed
  qed
qed

lemma path_unescape_plain:
  "CHR ''%'' \<notin> set s \<Longrightarrow> path_unescape (s @ t) = map_option (\<lambda>x. s @ x) (path_unescape t)"
proof (induction s)
  case Nil
  show ?case by (cases "path_unescape t") simp_all
next
  case (Cons a s)
  then have "a \<noteq> CHR ''%''" "CHR ''%'' \<notin> set s" by auto
  with Cons.IH show ?case by (cases "path_unescape t") simp_all
qed

lemma splitN2_sep: "CHR ''/'' \<notin> set g \<Longrightarrow> splitN2 (g @ CHR ''/'' # k) = [g, k]"
  by (induction g) (auto simp: splitN2_def)

lemma plus_for_space_slash: "CHR ''/'' \<in> set (plus_for_space g) \<longleftrightarrow> CHR ''/'' \<in> set g"
  by (auto simp: plus_for_space_def)

lemma fold_getters:
  "fold (\<lambda>peer m. m(peer \<mapsto> f peer)) ps m0 x = (if x \<in> set ps then Some (f x) else m0 x)"
  by (induction ps arbitrary: m0) auto


lemma plus_for_space_id: "plus_for_space s = s \<longleftrightarrow> CHR '' '' \<notin> set s"
  by (induction s) (auto simp: plus_for_space_def)

lemma pool_Set_ring_owner:
  assumes "ps \<noteq> []"
  shows "hm_Get (hm_Add (hm_New defaultReplicas None) ps) key \<in> set ps"
proof -
  have wf: "ring_wf (hm_Add (hm_New defaultReplicas None) ps) ({} \<union> set ps)"
    by (rule ring_wf_Add [OF ring_wf_New])
  have "length (keys (hm_Add (hm_New defaultReplicas None) ps)) = length ps * 50"
    by (simp add: hm_Add_fields hm_points_length hm_New_def defaultReplicas_def)
  with assms have "keys (hm_Add (hm_New defaultReplicas None) ps) \<noteq> []" by auto
  from hm_Get_in_owners [OF wf this] show ?thesis by simp
qed

lemma PickPeer_Set:
  "PickPeer (pool_Set p ps) key =
     (let own = hm_Get (hm_Add (hm_New defaultReplicas None) ps) key
      in if own \<noteq> '''' \<and> own \<noteq> self p
         then Inr (Some (if own \<in> set ps then Some (own @ basePath p) else None)) else Inr None)"
  by (simp add: PickPeer_def pool_Set_def fold_getters Let_def)

lemma path_unescape_request:
  "path_unescape (defaultBasePath @ query_escape g @ CHR ''/'' # query_escape k) =
     Some (defaultBasePath @ plus_for_space g @ CHR ''/'' # plus_for_space k)"
proof -
  have d: "CHR ''%'' \<notin> set defaultBasePath" by (simp add: defaultBasePath_def)
  show ?thesis
    by (simp add: path_unescape_plain [OF d] path_unescape_query_escape
        path_unescape_query_escape [of k "[]", simplified])
qed

lemma ServeHTTP_request_path:
  assumes "basePath p = defaultBasePath" and "CHR ''/'' \<notin> set g"
  shows "ServeHTTP write_ok pget w p (defaultBasePath @ plus_for_space g @ CHR ''/'' # plus_for_space k) =
    serve_group write_ok pget w (plus_for_space g) (plus_for_space k)"
proof -
  have "CHR ''/'' \<notin> set (plus_for_space g)" using assms(2) by (simp add: plus_for_space_slash)
  then have "splitN2 (plus_for_space g @ CHR ''/'' # plus_for_space k) = [plus_for_space g, plus_for_space k]"
    by (rule splitN2_sep)
  then show ?thesis using assms(1) by (simp add: ServeHTTP_def)
qed



section \<open>Properties of the transport\<close>

text \<open>
  The request URL does not round-trip keys with spaces. Decoding, with the path
  rules the server applies, the part of \<open>httpGetter.Get\<close>'s URL after the base URL
  always succeeds and gives the group and the key with every space replaced by \<open>+\<close>:
  it gives back \<open>group/key\<close> exactly when neither contains a space.
\<close>

lemma httpGetter_url_roundtrip:
  "path_unescape (drop (length b) (httpGetter_url b g k)) =
     Some (plus_for_space g @ ''/'' @ plus_for_space k) \<and>
   (path_unescape (drop (length b) (httpGetter_url b g k)) = Some (g @ ''/'' @ k) \<longleftrightarrow>
     CHR '' '' \<notin> set g \<and> CHR '' '' \<notin> set k)"
proof -
  have r: "path_unescape (drop (length b) (httpGetter_url b g k)) =
      Some (plus_for_space g @ ''/'' @ plus_for_space k)"
    by (simp add: httpGetter_url_def path_unescape_query_escape
        path_unescape_query_escape [of k "[]", simplified])
  have "length (plus_for_space g) = length g" by (simp add: plus_for_space_def)
  then have "plus_for_space g @ ''/'' @ plus_for_space k = g @ ''/'' @ k \<longleftrightarrow>
      plus_for_space g = g \<and> plus_for_space k = k" by simp
  with r show ?thesis by (simp add: plus_for_space_id)
qed

text \<open>
  What the serving peer looks up. When \<open>httpGetter.Get\<close> asks the node at
  \<open>baseURL = peer + "/_geecache/"\<close> for a group whose name has no \<open>/\<close>, the path
  the server receives decodes, and \<open>ServeHTTP\<close> answers for that group, with spaces
  turned into \<open>+\<close>, and for the key with its spaces turned into \<open>+\<close>. A key with a
  space is looked up under another key.
\<close>

theorem ServeHTTP_receives_request:
  assumes "basePath p = defaultBasePath" and "CHR ''/'' \<notin> set g"
  shows "\<exists>path. path_unescape (defaultBasePath @ query_escape g @ ''/'' @ query_escape k) = Some path \<and>
    ServeHTTP write_ok pget w p path = serve_group write_ok pget w (plus_for_space g) (plus_for_space k)"
  using path_unescape_request [of g k] ServeHTTP_request_path [OF assms, of write_ok pget w k] by simp

theorem ServeHTTP_receives_request_witness:
  "\<exists>path. path_unescape (defaultBasePath @ query_escape ''scores'' @ ''/'' @ query_escape ''Tom Cat'') = Some path \<and>
    ServeHTTP True no_peer (\<lparr>groups = Map.empty, gheap = (\<lambda>_. demo_group), gnext = 0, loaders = (\<lambda>_. [])\<rparr> :: nat world)
      (NewHTTPPool ''http://localhost:8001'') path =
    serve_group True no_peer \<lparr>groups = Map.empty, gheap = (\<lambda>_. demo_group), gnext = 0, loaders = (\<lambda>_. [])\<rparr>
      (plus_for_space ''scores'') (plus_for_space ''Tom Cat'')"
  by (rule ServeHTTP_receives_request) (simp_all add: NewHTTPPool_def)

text \<open>
  Every successful answer ends the server process. When the group exists and its
  \<open>Get\<close> returns a value, \<open>ServeHTTP\<close> writes the encoded value and then, when
  \<open>w.Write\<close> returned no error, reaches \<open>log.Fatal\<close> (line 105--106): the node exits
  after its first successfully written peer response; a failed write returns.
\<close>

lemma serve_group_success_is_fatal:
  assumes "GetGroup w gn = Some a" and "world_Get pget w a key = Some (Inr v, w')"
  shows "serve_group write_ok pget w gn key =
    Some (if write_ok then WroteThenFatal (proto_Marshal (PbResponse (view_bytes v)))
          else WriteFailed (proto_Marshal (PbResponse (view_bytes v))), w')"
  using assms by (simp add: serve_group_def)

text \<open>
  The error answers of \<open>ServeHTTP\<close>. Under the base path, a request with no
  \<open>/\<close> after the group name is answered 400 \<open>bad request\<close>, a request for an
  unknown group 404 \<open>no such group\<close>, and a request with an empty key for a known,
  well-formed group 500 with the text \<open>key is required\<close>; none changes any group.
\<close>

theorem ServeHTTP_error_statuses:
  assumes "basePath p = defaultBasePath" and "CHR ''/'' \<notin> set g1" and "CHR ''/'' \<notin> set g2"
    and "GetGroup w g1 = None" and "GetGroup w g2 = Some a"
  shows "ServeHTTP write_ok pget w p (defaultBasePath @ g1) = Some (HttpError 400 ''bad request'', w) \<and>
    ServeHTTP write_ok pget w p (defaultBasePath @ g1 @ ''/'' @ k) =
      Some (HttpError 404 (''no such group: '' @ g1), w) \<and>
    ServeHTTP write_ok pget w p (defaultBasePath @ g2 @ ''/'') = Some (HttpError 500 ''key is required'', w)"
proof -
  have "splitN2 g1 = [g1]" using assms(2) by (simp add: splitN2_def)
  moreover have "splitN2 (g1 @ CHR ''/'' # k) = [g1, k]" using assms(2) by (rule splitN2_sep)
  moreover have "splitN2 (g2 @ [CHR ''/'']) = [g2, []]" using splitN2_sep [OF assms(3), of "[]"] by simp
  moreover have "world_Get pget w a [] = Some (Inl KeyRequired, w)"
    by (simp add: world_Get_def group_Get_def)
  ultimately show ?thesis using assms(1,4,5)
    by (simp add: ServeHTTP_def serve_group_def defaultBasePath_def)
qed

theorem ServeHTTP_error_statuses_witness:
  "ServeHTTP True no_peer (\<lparr>groups = [''scores'' \<mapsto> 0], gheap = (\<lambda>_. demo_group), gnext = 1, loaders = (\<lambda>_. [])\<rparr> :: nat world) (NewHTTPPool ''http://localhost:8001'') (defaultBasePath @ ''nope'') =
     Some (HttpError 400 ''bad request'', \<lparr>groups = [''scores'' \<mapsto> 0], gheap = (\<lambda>_. demo_group), gnext = 1, loaders = (\<lambda>_. [])\<rparr>) \<and>
   ServeHTTP True no_peer (\<lparr>groups = [''scores'' \<mapsto> 0], gheap = (\<lambda>_. demo_group), gnext = 1, loaders = (\<lambda>_. [])\<rparr> :: nat world) (NewHTTPPool ''http://localhost:8001'') (defaultBasePath @ ''nope'' @ ''/'' @ ''Tom'') =
     Some (HttpError 404 (''no such group: '' @ ''nope''), \<lparr>groups = [''scores'' \<mapsto> 0], gheap = (\<lambda>_. demo_group), gnext = 1, loaders = (\<lambda>_. [])\<rparr>) \<and>
   ServeHTTP True no_peer (\<lparr>groups = [''scores'' \<mapsto> 0], gheap = (\<lambda>_. demo_group), gnext = 1, loaders = (\<lambda>_. [])\<rparr> :: nat world) (NewHTTPPool ''http://localhost:8001'') (defaultBasePath @ ''scores'' @ ''/'') =
     Some (HttpError 500 ''key is required'', \<lparr>groups = [''scores'' \<mapsto> 0], gheap = (\<lambda>_. demo_group), gnext = 1, loaders = (\<lambda>_. [])\<rparr>)"
  by (rule ServeHTTP_error_statuses) (simp_all add: NewHTTPPool_def GetGroup_def)

text \<open>
  \<open>PickPeer\<close> after \<open>Set\<close>. Once \<open>Set(peers)\<close> has run, \<open>PickPeer\<close> never
  panics, and it either declines (the key is the node's own, or the ring has no owner
  for it) or returns the \<open>httpGetter\<close> of the ring's owner of the key, an added peer
  other than the node itself, with base URL \<open>peer + basePath\<close>.
\<close>

theorem PickPeer_after_Set:
  "\<exists>r. PickPeer (pool_Set p ps) key = Inr r \<and>
     (r = None \<or>
      (\<exists>peer. r = Some (Some (peer @ basePath p)) \<and> peer \<in> set ps \<and> peer \<noteq> self p \<and>
         peer = hm_Get (hm_Add (hm_New defaultReplicas None) ps) key))"
proof (cases "ps = []")
  case True
  then have "hm_Get (hm_Add (hm_New defaultReplicas None) ps) key = ''''"
    by (simp add: hm_Get_def hm_Add_fields hm_points_def hm_New_def)
  then show ?thesis by (simp add: PickPeer_Set)
next
  case False
  from pool_Set_ring_owner [OF False, of key] show ?thesis by (auto simp: PickPeer_Set Let_def)
qed

theorem PickPeer_after_Set_witness:
  "\<exists>r. PickPeer (pool_Set (NewHTTPPool ''http://localhost:8001'') [''http://localhost:8001'', ''http://localhost:8002'']) ''Tom'' = Inr r \<and>
     (r = None \<or>
      (\<exists>peer. r = Some (Some (peer @ basePath (NewHTTPPool ''http://localhost:8001''))) \<and>
         peer \<in> set [''http://localhost:8001'', ''http://localhost:8002''] \<and>
         peer \<noteq> self (NewHTTPPool ''http://localhost:8001'') \<and>
         peer = hm_Get (hm_Add (hm_New defaultReplicas None) [''http://localhost:8001'', ''http://localhost:8002'']) ''Tom''))"
  by (rule PickPeer_after_Set)

text \<open>
  One node per key loads locally. For a fleet whose nodes all \<open>Set\<close> the same
  list of peer addresses (none empty) and each is one of them, the key's owner on the
  ring is one of the nodes, and a node's \<open>PickPeer\<close> declines the key exactly when the
  node is that owner: every other node forwards the key to it.
\<close>

theorem PickPeer_declines_only_at_owner:
  assumes "ps \<noteq> []" and "'''' \<notin> set ps" and "s \<in> set ps"
  shows "hm_Get (hm_Add (hm_New defaultReplicas None) ps) key \<in> set ps \<and>
    (PickPeer (pool_Set (NewHTTPPool s) ps) key = Inr None \<longleftrightarrow>
     s = hm_Get (hm_Add (hm_New defaultReplicas None) ps) key)"
proof -
  from pool_Set_ring_owner [OF assms(1), of key]
  have own: "hm_Get (hm_Add (hm_New defaultReplicas None) ps) key \<in> set ps" .
  with assms(2) have "hm_Get (hm_Add (hm_New defaultReplicas None) ps) key \<noteq> ''''" by auto
  with own show ?thesis by (auto simp: PickPeer_Set NewHTTPPool_def Let_def)
qed

theorem PickPeer_declines_only_at_owner_witness:
  "hm_Get (hm_Add (hm_New defaultReplicas None) [''http://localhost:8001'', ''http://localhost:8002'']) ''Tom''
     \<in> set [''http://localhost:8001'', ''http://localhost:8002''] \<and>
   (PickPeer (pool_Set (NewHTTPPool ''http://localhost:8001'') [''http://localhost:8001'', ''http://localhost:8002''])
      ''Tom'' = Inr None \<longleftrightarrow>
    ''http://localhost:8001'' =
      hm_Get (hm_Add (hm_New defaultReplicas None) [''http://localhost:8001'', ''http://localhost:8002'']) ''Tom'')"
  by (rule PickPeer_declines_only_at_owner) simp_all

text \<open>
  C15: \<open>httpGetter.Get\<close> decodes what the server encodes. A 200 response whose body
  is \<open>proto.Marshal\<close> of a \<open>Response\<close> with value \<open>v\<close> (any Go slice) makes
  \<open>httpGetter.Get\<close> return exactly \<open>v\<close>, the empty value included.
\<close>

theorem httpGetter_Get_decodes_value:
  "length v < 2 ^ 64 \<Longrightarrow>
    httpGetter_Get (\<lambda>u. HttpReply 200 st (Inr (proto_Marshal (PbResponse v)))) (Some b) g k = Inr v"
  by (simp add: httpGetter_Get_def proto_roundtrip)

theorem httpGetter_Get_decodes_value_witness:
  "httpGetter_Get (\<lambda>u. HttpReply 200 ''200 OK'' (Inr (proto_Marshal (PbResponse (bytes_of_string ''630'')))))
     (Some ''http://localhost:8002/_geecache/'') ''scores'' ''Tom'' = Inr (bytes_of_string ''630'')"
  by (rule httpGetter_Get_decodes_value) (simp add: bytes_of_string_def)

text \<open>
  C16: a truncated body is a decoding error, an empty body the empty value. When a 200
  response carries a proper non-empty prefix of an encoded \<open>Response\<close>,
  \<open>httpGetter.Get\<close> fails with \<open>decoding response body: ...\<close>; a 200 response
  with no body at all is not an error: it decodes to the empty value.
\<close>

theorem httpGetter_Get_truncated_body:
  assumes "length v < 2 ^ 64" and "0 < n" and "n < length (proto_Marshal (PbResponse v))"
  shows "httpGetter_Get (\<lambda>u. HttpReply 200 st (Inr (take n (proto_Marshal (PbResponse v))))) (Some b) g k =
      Inl (Err (''decoding response body: '' @ decode_error_text)) \<and>
    httpGetter_Get (\<lambda>u. HttpReply 200 st (Inr [])) (Some b) g k = Inr []"
  using proto_Unmarshal_truncated [of "PbResponse v" n] assms
  by (simp add: httpGetter_Get_def proto_Unmarshal_def)

theorem httpGetter_Get_truncated_body_witness:
  "httpGetter_Get (\<lambda>u. HttpReply 200 ''200 OK'' (Inr (take 3 (proto_Marshal (PbResponse (bytes_of_string ''630''))))))
      (Some ''http://localhost:8002/_geecache/'') ''scores'' ''Tom'' =
     Inl (Err (''decoding response body: '' @ decode_error_text)) \<and>
   httpGetter_Get (\<lambda>u. HttpReply 200 ''200 OK'' (Inr [])) (Some ''http://localhost:8002/_geecache/'') ''scores'' ''Tom'' = Inr []"
  by (rule httpGetter_Get_truncated_body)
     (simp_all add: bytes_of_string_def proto_Marshal_def EncodeVarint_small)


end
