(* ===== verification/Flags.thy ===== *)
theory Flags
  imports ConsistentHash
begin

text \<open>
  The command-line parsing \<open>main\<close> relies on (Go standard library, modelled from
  its source): \<open>strconv.ParseBool\<close>, \<open>strconv.ParseInt(s, 0, 64)\<close> (the call
  behind \<open>flag.IntVar\<close> on a 64-bit platform) with \<open>ParseUint\<close> and
  \<open>underscoreOK\<close>, and the \<open>flag\<close> package: a \<open>FlagSet\<close> with \<open>Var\<close>,
  \<open>IntVar\<close>, \<open>BoolVar\<close>, \<open>parseOne\<close> and \<open>Parse\<close> under \<open>ExitOnError\<close>
  (the mode of \<open>flag.CommandLine\<close>). The \<open>uint64\<close> accumulator of \<open>ParseUint\<close> is a
  \<open>nat\<close>: the code checks \<open>n >= cutoff\<close> and \<open>n1 > maxVal\<close> before any
  wrap-around, so the unbounded value never exceeds what Go computes.
\<close>

unbundle bit_operations_syntax

datatype numerr = ErrSyntax | ErrRange

text \<open>\<open>lower(c) = c | ('x' - 'X')\<close>, as a byte value; characters are compared by
  their codes, as Go compares bytes.\<close>

definition lower :: "char \<Rightarrow> nat" where
  "lower c = of_char c OR 32"

definition ParseBool :: "string \<Rightarrow> numerr + bool" where
  "ParseBool s =
     (if s \<in> set [''1'', ''t'', ''T'', ''true'', ''TRUE'', ''True''] then Inr True
      else if s \<in> set [''0'', ''f'', ''F'', ''false'', ''FALSE'', ''False''] then Inr False
      else Inl ErrSyntax)"

definition is_digit :: "char \<Rightarrow> bool" where
  "is_digit c \<longleftrightarrow> of_char (CHR ''0'') \<le> (of_char c :: nat) \<and> (of_char c :: nat) \<le> of_char (CHR ''9'')"

text \<open>The loop of \<open>underscoreOK\<close>; \<open>saw\<close> is the class of the last character
  (\<open>'^'\<close> the start, \<open>'0'\<close> a digit or base prefix, \<open>'_'\<close>, \<open>'!'\<close> anything else).\<close>

datatype saw = SawStart | SawDigit | SawUnderscore | SawOther

fun us_loop :: "bool \<Rightarrow> saw \<Rightarrow> string \<Rightarrow> bool" where
  "us_loop hex saw [] = (saw \<noteq> SawUnderscore)"
| "us_loop hex saw (c # cs) =
     (if is_digit c \<or> hex \<and> of_char (CHR ''a'') \<le> lower c \<and> lower c \<le> of_char (CHR ''f'')
      then us_loop hex SawDigit cs
      else if c = CHR ''_''
      then (if saw \<noteq> SawDigit then False else us_loop hex SawUnderscore cs)
      else if saw = SawUnderscore then False
      else us_loop hex SawOther cs)"

definition underscoreOK :: "string \<Rightarrow> bool" where
  "underscoreOK s0 =
     (let s = (if 1 \<le> length s0 \<and> (s0 ! 0 = CHR ''-'' \<or> s0 ! 0 = CHR ''+'') then tl s0 else s0)
      in if 2 \<le> length s \<and> s ! 0 = CHR ''0'' \<and> lower (s ! 1) \<in> of_char ` {CHR ''b'', CHR ''o'', CHR ''x''}
         then us_loop (lower (s ! 1) = of_char (CHR ''x'')) SawDigit (drop 2 s)
         else us_loop False SawStart s)"

definition maxUint64 :: nat where
  "maxUint64 = 2 ^ 64 - 1"

definition digit_val :: "char \<Rightarrow> nat option" where
  "digit_val c =
     (if is_digit c then Some (of_char c - of_char (CHR ''0''))
      else if of_char (CHR ''a'') \<le> lower c \<and> lower c \<le> of_char (CHR ''z'')
      then Some (lower c - of_char (CHR ''a'') + 10)
      else None)"

text \<open>The digit loop of \<open>ParseUint\<close> with \<open>base0\<close> set (underscores are skipped and
  remembered), returning whether it saw an underscore.\<close>

fun pu_loop :: "nat \<Rightarrow> bool \<Rightarrow> nat \<Rightarrow> string \<Rightarrow> numerr + bool \<times> nat" where
  "pu_loop base us n [] = Inr (us, n)"
| "pu_loop base us n (c # cs) =
     (if c = CHR ''_'' then pu_loop base True n cs
      else case digit_val c of
        None \<Rightarrow> Inl ErrSyntax
      | Some d \<Rightarrow>
          if base \<le> d then Inl ErrSyntax
          else if maxUint64 div base + 1 \<le> n then Inl ErrRange
          else let n1 = n * base + d
               in if maxUint64 < n1 then Inl ErrRange else pu_loop base us n1 cs)"

text \<open>\<open>ParseUint(s, 0, 64)\<close>: the base from the prefix (\<open>0b\<close>, \<open>0o\<close>, \<open>0x\<close>, a
  leading \<open>0\<close> for octal, else decimal).\<close>

definition ParseUint0 :: "string \<Rightarrow> numerr + nat" where
  "ParseUint0 s0 =
     (if s0 = [] then Inl ErrSyntax
      else
        let (base, s) =
          (if s0 ! 0 = CHR ''0'' then
             (if 3 \<le> length s0 \<and> lower (s0 ! 1) = of_char (CHR ''b'') then (2, drop 2 s0)
              else if 3 \<le> length s0 \<and> lower (s0 ! 1) = of_char (CHR ''o'') then (8, drop 2 s0)
              else if 3 \<le> length s0 \<and> lower (s0 ! 1) = of_char (CHR ''x'') then (16, drop 2 s0)
              else (8, drop 1 s0))
           else (10, s0))
        in case pu_loop base False 0 s of
             Inl e \<Rightarrow> Inl e
           | Inr (us, n) \<Rightarrow> if us \<and> \<not> underscoreOK s0 then Inl ErrSyntax else Inr n)"

text \<open>\<open>ParseInt(s, 0, 64)\<close>. On a range error of \<open>ParseUint\<close> the code goes on with
  \<open>maxUint64\<close>, which fails the range check of either sign: a range error.\<close>

definition ParseInt0 :: "string \<Rightarrow> numerr + int" where
  "ParseInt0 s =
     (if s = [] then Inl ErrSyntax
      else
        let (neg, s') =
          (if s ! 0 = CHR ''+'' then (False, tl s)
           else if s ! 0 = CHR ''-'' then (True, tl s) else (False, s))
        in case ParseUint0 s' of
             Inl ErrSyntax \<Rightarrow> Inl ErrSyntax
           | Inl ErrRange \<Rightarrow> Inl ErrRange
           | Inr un \<Rightarrow>
               if \<not> neg \<and> 2 ^ 63 \<le> un then Inl ErrRange
               else if neg \<and> 2 ^ 63 < un then Inl ErrRange
               else Inr (if neg then - int un else int un))"

section \<open>The flag package\<close>

datatype fvalue = IntValue int | BoolValue bool

text \<open>\<open>Value.Set\<close> of \<open>intValue\<close> and \<open>boolValue\<close>.\<close>

definition fvalue_Set :: "fvalue \<Rightarrow> string \<Rightarrow> numerr + fvalue" where
  "fvalue_Set v s =
     (case v of
        IntValue _ \<Rightarrow> map_sum id IntValue (ParseInt0 s)
      | BoolValue _ \<Rightarrow> map_sum id BoolValue (ParseBool s))"

record flagset =
  formal :: "string \<rightharpoonup> fvalue"
  actual :: "string set"
  fs_args :: "string list"
  parsed :: bool

definition flag_CommandLine :: flagset where
  "flag_CommandLine = \<lparr>formal = Map.empty, actual = {}, fs_args = [], parsed = False\<rparr>"

text \<open>\<open>FlagSet.Var\<close>: a name beginning with \<open>-\<close>, containing \<open>=\<close> or already
  defined panics (\<open>None\<close>).\<close>

definition flag_Var :: "flagset \<Rightarrow> fvalue \<Rightarrow> string \<Rightarrow> flagset option" where
  "flag_Var f v name =
     (if take 1 name = ''-'' \<or> CHR ''='' \<in> set name \<or> name \<in> dom (formal f) then None
      else Some (f\<lparr>formal := (formal f)(name \<mapsto> v)\<rparr>))"

definition flag_IntVar :: "flagset \<Rightarrow> string \<Rightarrow> int \<Rightarrow> flagset option" where
  "flag_IntVar f name d = flag_Var f (IntValue d) name"

definition flag_BoolVar :: "flagset \<Rightarrow> string \<Rightarrow> bool \<Rightarrow> flagset option" where
  "flag_BoolVar f name d = flag_Var f (BoolValue d) name"

datatype flag_err = ErrHelp | BadSyntax | NotDefined | NeedsArgument | InvalidValue

text \<open>The split of \<open>name=value\<close> at the first \<open>=\<close> after the first character.\<close>

definition eq_split :: "string \<Rightarrow> string \<times> bool \<times> string" where
  "eq_split name =
     (case find (\<lambda>i. name ! i = CHR ''='') [1..<length name] of
        None \<Rightarrow> (name, False, '''')
      | Some i \<Rightarrow> (take i name, True, drop (Suc i) name))"

definition parseOne :: "flagset \<Rightarrow> flag_err + bool \<times> flagset" where
  "parseOne f =
     (case fs_args f of
        [] \<Rightarrow> Inr (False, f)
      | s # rest \<Rightarrow>
          if length s < 2 \<or> s ! 0 \<noteq> CHR ''-'' then Inr (False, f)
          else if s ! 1 = CHR ''-'' \<and> length s = 2 then Inr (False, f\<lparr>fs_args := rest\<rparr>)
          else
            let name0 = drop (if s ! 1 = CHR ''-'' then 2 else 1) s
            in if name0 = [] \<or> name0 ! 0 = CHR ''-'' \<or> name0 ! 0 = CHR ''='' then Inl BadSyntax
            else
              let f1 = f\<lparr>fs_args := rest\<rparr>;
                  (name, hasValue, value) = eq_split name0
              in case formal f1 name of
                   None \<Rightarrow> if name = ''help'' \<or> name = ''h'' then Inl ErrHelp else Inl NotDefined
                 | Some (BoolValue b) \<Rightarrow>
                     (case fvalue_Set (BoolValue b) (if hasValue then value else ''true'') of
                        Inl _ \<Rightarrow> Inl InvalidValue
                      | Inr v \<Rightarrow> Inr (True, f1\<lparr>formal := (formal f1)(name \<mapsto> v),
                                               actual := insert name (actual f1)\<rparr>))
                 | Some (IntValue i) \<Rightarrow>
                     (let (hasValue, value, f2) =
                        (if \<not> hasValue \<and> fs_args f1 \<noteq> []
                         then (True, hd (fs_args f1), f1\<lparr>fs_args := tl (fs_args f1)\<rparr>)
                         else (hasValue, value, f1))
                      in if \<not> hasValue then Inl NeedsArgument
                         else case fvalue_Set (IntValue i) value of
                           Inl _ \<Rightarrow> Inl InvalidValue
                         | Inr v \<Rightarrow> Inr (True, f2\<lparr>formal := (formal f2)(name \<mapsto> v),
                                                  actual := insert name (actual f2)\<rparr>)))"

function parse_loop :: "flagset \<Rightarrow> flag_err + flagset" where
  "parse_loop f =
     (case parseOne f of
        Inl e \<Rightarrow> Inl e
      | Inr (seen, f') \<Rightarrow> if seen then parse_loop f' else Inr f')"
  by pat_completeness auto
termination
  by (relation "measure (\<lambda>f. length (fs_args f))")
    (auto simp: parseOne_def Let_def fvalue_Set_def split: list.splits if_splits option.splits
      fvalue.splits sum.splits prod.splits)

text \<open>\<open>FlagSet.Parse\<close> under \<open>ExitOnError\<close>: \<open>-h\<close>/\<open>-help\<close> exits with 0, any
  other error with 2 (\<open>Inl\<close> is the exit status).\<close>

definition flag_Parse :: "flagset \<Rightarrow> string list \<Rightarrow> nat + flagset" where
  "flag_Parse f args =
     (case parse_loop (f\<lparr>parsed := True, fs_args := args\<rparr>) of
        Inl ErrHelp \<Rightarrow> Inl 0
      | Inl _ \<Rightarrow> Inl 2
      | Inr f' \<Rightarrow> Inr f')"

section \<open>The parsing loop, one flag at a time\<close>

declare parse_loop.simps [simp del]

lemma parse_loop_step:
  "parse_loop f =
     (case parseOne f of Inl e \<Rightarrow> Inl e | Inr (seen, f') \<Rightarrow> if seen then parse_loop f' else Inr f')"
  by (rule parse_loop.simps)

section \<open>Decimal numerals parse back\<close>

text \<open>\<open>itoa\<close> recurses on \<open>n div 10\<close>; its equation is used by explicit unfolding only.\<close>

declare itoa.simps [simp del]

lemma itoa_ne [simp]: "itoa n \<noteq> []"
  by (subst itoa.simps) simp

lemma of_char_digit: "k < (10::nat) \<Longrightarrow> (of_char (char_of (48 + k)) :: nat) = 48 + k"
  by simp

lemma digit_char_neq:
  "k < (10::nat) \<Longrightarrow> \<not> (48 \<le> (of_char d :: nat) \<and> (of_char d :: nat) < 58) \<Longrightarrow>
   char_of (48 + k) \<noteq> d"
  using of_char_digit by fastforce

lemma itoa_0: "itoa 0 = ''0''"
proof -
  have "(of_char (char_of (48 :: nat)) :: nat) = of_char (CHR ''0'')" by simp
  then have "char_of (48 :: nat) = CHR ''0''" by (simp only: of_char_eq_iff)
  then show ?thesis by (subst itoa.simps) simp
qed

lemma itoa_hd_code: "0 < n \<Longrightarrow> 49 \<le> (of_char (itoa n ! 0) :: nat) \<and> (of_char (itoa n ! 0) :: nat) < 58"
proof (induction n rule: itoa.induct)
  case (1 n)
  show ?case
  proof (cases "n < 10")
    case True
    then have "itoa n ! 0 = char_of (48 + n)" by (subst itoa.simps) simp
    with True "1.prems" show ?thesis by (simp add: of_char_digit)
  next
    case False
    then have "itoa n ! 0 = itoa (n div 10) ! 0" by (subst itoa.simps) (simp add: nth_append)
    with "1.IH" False show ?thesis by simp
  qed
qed

lemma digit_val_digit: "k < (10::nat) \<Longrightarrow> digit_val (char_of (48 + k)) = Some k"
  by (simp add: digit_val_def is_digit_def)

lemma pu_loop_append:
  "pu_loop base us n (xs @ ys) =
     (case pu_loop base us n xs of Inl e \<Rightarrow> Inl e | Inr (us', n') \<Rightarrow> pu_loop base us' n' ys)"
  by (induction base us n xs rule: pu_loop.induct) (auto simp: Let_def split: option.splits)

lemma pu_loop_itoa: "n \<le> maxUint64 \<Longrightarrow> pu_loop 10 False 0 (itoa n) = Inr (False, n)"
proof (induction n rule: itoa.induct)
  case (1 n)
  show ?case
  proof (cases "n < 10")
    case True
    then show ?thesis by (subst itoa.simps) (simp add: digit_val_digit digit_char_neq maxUint64_def)
  next
    case False
    have le: "n div 10 \<le> maxUint64" using "1.prems" by simp
    have "n div 10 < maxUint64 div 10 + 1" using "1.prems" by (simp add: div_le_mono le_imp_less_Suc)
    moreover have "n div 10 * 10 + n mod 10 = n" by simp
    ultimately show ?thesis
      using False "1.IH" [OF False le] "1.prems"
      by (subst itoa.simps) (simp add: pu_loop_append digit_val_digit digit_char_neq)
  qed
qed

lemma ParseInt0_itoa: "n < 2 ^ 63 \<Longrightarrow> ParseInt0 (itoa n) = Inr (int n)"
proof (cases "n = 0")
  case True
  then show ?thesis by (simp add: itoa_0 ParseInt0_def ParseUint0_def)
next
  case False
  assume n: "n < 2 ^ 63"
  then have "n \<le> maxUint64" by (simp add: maxUint64_def)
  then have p: "pu_loop 10 False 0 (itoa n) = Inr (False, n)" by (rule pu_loop_itoa)
  have c: "49 \<le> (of_char (itoa n ! 0) :: nat)" "(of_char (itoa n ! 0) :: nat) < 58"
    using itoa_hd_code [of n] False by simp_all
  have "itoa n ! 0 \<noteq> CHR ''0''" "itoa n ! 0 \<noteq> CHR ''+''" "itoa n ! 0 \<noteq> CHR ''-''"
    using c by auto
  with p False n show ?thesis by (simp add: ParseInt0_def ParseUint0_def)
qed

lemma pu_loop_itoa_big: "maxUint64 < n \<Longrightarrow> pu_loop 10 False 0 (itoa n) = Inl ErrRange"
proof (induction n rule: itoa.induct)
  case (1 n)
  have big: "10 \<le> n" using "1.prems" by (simp add: maxUint64_def)
  then have u: "itoa n = itoa (n div 10) @ [char_of (48 + n mod 10)]" by (subst itoa.simps) simp
  show ?case
  proof (cases "maxUint64 < n div 10")
    case True
    with "1.IH" big show ?thesis by (simp add: u pu_loop_append)
  next
    case False
    then have p: "pu_loop 10 False 0 (itoa (n div 10)) = Inr (False, n div 10)" by (simp add: pu_loop_itoa)
    have "maxUint64 div 10 + 1 \<le> n div 10 \<or> maxUint64 < n div 10 * 10 + n mod 10"
      using "1.prems" by simp
    then show ?thesis by (auto simp: u pu_loop_append p digit_val_digit digit_char_neq)
  qed
qed

lemma ParseInt0_itoa_range: "2 ^ 63 \<le> n \<Longrightarrow> ParseInt0 (itoa n) = Inl ErrRange"
proof -
  assume n: "2 ^ 63 \<le> n"
  then have pos: "0 < n" by (metis not_gr_zero not_numeral_le_zero zero_less_power zero_less_numeral le_zero_eq)
  have c: "49 \<le> (of_char (itoa n ! 0) :: nat)" "(of_char (itoa n ! 0) :: nat) < 58"
    using itoa_hd_code [OF pos] by simp_all
  have h: "itoa n ! 0 \<noteq> CHR ''0''" "itoa n ! 0 \<noteq> CHR ''+''" "itoa n ! 0 \<noteq> CHR ''-''"
    using c by auto
  show ?thesis
  proof (cases "n \<le> maxUint64")
    case True
    then have "pu_loop 10 False 0 (itoa n) = Inr (False, n)" by (rule pu_loop_itoa)
    with h n show ?thesis by (simp add: ParseInt0_def ParseUint0_def)
  next
    case False
    then have "pu_loop 10 False 0 (itoa n) = Inl ErrRange" by (simp add: pu_loop_itoa_big)
    with h show ?thesis by (simp add: ParseInt0_def ParseUint0_def)
  qed
qed

end
