(* ===== verification/App.thy ===== *)
theory App
  imports HTTP Flags
begin

text \<open>
  \<open>src/main/main.go\<close>: the process that wires the parts together. \<open>createGroup\<close>
  registers the group \<open>"scores"\<close> with a 2 KiB cache over the in-memory \<open>db\<close>;
  \<open>startCacheServer\<close> builds an \<open>HTTPPool\<close> for the node's address, \<open>Set\<close>s the
  peer addresses, registers the pool as the group's \<open>PeerPicker\<close> and serves it on
  the address without its \<open>http://\<close> prefix (\<open>addr[7:]\<close>); the API server answers
  \<open>/api?key=...\<close> with the group's value. \<open>main\<close> picks the node's address by its
  port in \<open>addrMap\<close> and collects the peer addresses by ranging over the map, in an
  order Go leaves unspecified: the list is a parameter.

  The key of an API request is \<open>r.URL.Query().Get("key")\<close>, modelled by what
  \<open>net/url\<close> computes (\<open>url.ParseQuery\<close> of Go 1.17 and later: pieces separated
  by \<open>&\<close>, a piece with \<open>;\<close> or a bad escape dropped, \<open>+\<close> read as a space,
  the first value of the key, else \<open>""\<close>). The peers of a node are reached through
  \<open>HTTP.httpGetter_Get\<close>, so the node's group has the pointer to an \<open>httpGetter\<close>
  (\<open>string option\<close>) as its peer type. Serving forever (\<open>ListenAndServe\<close>) is the
  listening address and handler the start returns; its failure (\<open>log.Fatal\<close>) and the
  log lines of the loader are not modelled, the one log line that reports on a request
  is (\<open>Write failed\<close>).
\<close>

section \<open>The query of an API request\<close>

text \<open>\<open>net/url\<close>: \<open>unescape(s, encodeQueryComponent)\<close>, as \<open>url.QueryUnescape\<close>.\<close>

fun query_unescape :: "string \<Rightarrow> string option" where
  "query_unescape [] = Some []"
| "query_unescape (c # cs) =
     (if c = CHR ''%''
      then (case cs of
              a # b # rest \<Rightarrow>
                (case (unhex a, unhex b) of
                   (Some x, Some y) \<Rightarrow> map_option (Cons (char_of (16 * x + y))) (query_unescape rest)
                 | _ \<Rightarrow> None)
            | _ \<Rightarrow> None)
      else if c = CHR ''+'' then map_option (Cons (CHR '' '')) (query_unescape cs)
      else map_option (Cons c) (query_unescape cs))"

text \<open>The pieces between the separators \<open>sep\<close>, as the loop over \<open>strings.Cut\<close> finds them.\<close>

fun split_on :: "char \<Rightarrow> string \<Rightarrow> string list" where
  "split_on sep [] = [[]]"
| "split_on sep (c # cs) =
     (if c = sep then [] # split_on sep cs
      else (let r = split_on sep cs in (c # hd r) # tl r))"

text \<open>One piece of \<open>parseQuery\<close>: skipped when empty, holding \<open>;\<close>, or badly escaped.\<close>

definition parse_piece :: "string \<Rightarrow> (string \<times> string) option" where
  "parse_piece piece =
     (if piece = [] \<or> CHR '';'' \<in> set piece then None
      else
        (let k = takeWhile (\<lambda>c. c \<noteq> CHR ''='') piece;
             v = drop 1 (dropWhile (\<lambda>c. c \<noteq> CHR ''='') piece)
         in case (query_unescape k, query_unescape v) of
              (Some k', Some v') \<Rightarrow> Some (k', v')
            | _ \<Rightarrow> None))"

definition parse_query :: "string \<Rightarrow> (string \<times> string) list" where
  "parse_query q = List.map_filter parse_piece (split_on CHR ''&'' q)"

text \<open>\<open>url.Values.Get\<close>: the first value of the key, \<open>""\<close> if there is none.\<close>

definition values_Get :: "(string \<times> string) list \<Rightarrow> string \<Rightarrow> string" where
  "values_Get vs key = (case map_of vs key of Some v \<Rightarrow> v | None \<Rightarrow> '''')"

section \<open>The node\<close>

definition db :: "string \<rightharpoonup> string" where
  "db = [''Tom'' \<mapsto> ''630'', ''Jack'' \<mapsto> ''589'', ''Sam'' \<mapsto> ''567'']"

text \<open>The \<open>GetterFunc\<close> of \<open>createGroup\<close> (lines 19--25).\<close>

definition db_getter :: getter where
  "db_getter key =
     (case db key of
        Some v \<Rightarrow> Inr (bytes_of_string v)
      | None \<Rightarrow> Inl (Err (key @ '' not exist'')))"

text \<open>\<open>createGroup\<close>: \<open>NewGroup("scores", 2<<10, ...)\<close>.\<close>

definition createGroup :: "'pg world \<Rightarrow> gerr + (gid \<times> 'pg world)" where
  "createGroup w = NewGroup w ''scores'' (push_bit 10 2) (Some db_getter)"

text \<open>
  \<open>startCacheServer\<close>: \<open>NewHTTPPool\<close>, \<open>Set\<close>, \<open>RegisterPeers\<close>, then the slice
  \<open>addr[7:]\<close>, which panics on an address shorter than 7 bytes; the result is the
  listening address, the handler and the world.
\<close>

definition startCacheServer ::
  "string \<Rightarrow> string list \<Rightarrow> gid \<Rightarrow> string option world \<Rightarrow>
     gerr + (string \<times> httppool \<times> string option world)" where
  "startCacheServer addr addrs gee w =
     (let peers = pool_Set (NewHTTPPool addr) addrs
      in case group_RegisterPeers (gheap w gee) (PickPeer peers) of
           Inl e \<Rightarrow> Inl e
         | Inr g \<Rightarrow>
             if length addr < 7 then Inl (Panic ''runtime error: slice bounds out of range'')
             else Inr (drop 7 addr, peers, w\<lparr>gheap := (gheap w)(gee := g)\<rparr>))"

text \<open>
  The API handler of \<open>startAPIServer\<close> (lines 43--58). \<open>write_ok\<close> is whether
  \<open>w.Write\<close> returned no error; the lines logged are part of the outcome. A panic of
  \<open>gee.Get\<close> unwinds out of the handler (\<open>ApiPanic\<close>), and \<open>net/http\<close> recovers
  it by closing the connection.
\<close>

datatype api_result = ApiError nat string | ApiWrote bytes "string list" | ApiPanic string

text \<open>Lines 48--56: the answer for the result of \<open>gee.Get(key)\<close>.\<close>

definition api_reply :: "bool \<Rightarrow> gerr + byteview \<Rightarrow> api_result" where
  "api_reply write_ok r =
     (case r of
        Inl (Panic m) \<Rightarrow> ApiPanic m
      | Inl e \<Rightarrow> ApiError 500 (err_text e)
      | Inr v \<Rightarrow> ApiWrote (byteview_ByteSlice v) (if write_ok then [''Write failed <nil>''] else []))"

definition api_handler ::
  "'pg peer_get \<Rightarrow> 'pg world \<Rightarrow> gid \<Rightarrow> bool \<Rightarrow> string \<Rightarrow> (api_result \<times> 'pg world) option" where
  "api_handler pget w gee write_ok query =
     (let key = values_Get (parse_query query) ''key''
      in map_option (\<lambda>(r, w'). (api_reply write_ok r, w')) (world_Get pget w gee key))"

text \<open>
  \<open>startAPIServer\<close> registers \<open>api_handler\<close> for \<open>/api\<close> and listens on
  \<open>apiAddr[7:]\<close> (a panic for an address shorter than 7 bytes).
\<close>

definition apiAddr :: string where
  "apiAddr = ''http://localhost:9999''"

definition startAPIServer :: "string \<Rightarrow> gerr + string" where
  "startAPIServer a =
     (if length a < 7 then Inl (Panic ''runtime error: slice bounds out of range'') else Inr (drop 7 a))"

definition addrMap :: "int \<rightharpoonup> string" where
  "addrMap = [8001 \<mapsto> ''http://localhost:8001'', 8002 \<mapsto> ''http://localhost:8002'',
              8003 \<mapsto> ''http://localhost:8003'']"

text \<open>
  \<open>main\<close> after the flags: \<open>addrMap[port]\<close> (\<open>""\<close> for a port not in the map),
  \<open>createGroup\<close>, then \<open>startCacheServer\<close> with the collected addresses.
\<close>

definition main_node ::
  "int \<Rightarrow> string list \<Rightarrow> string option world \<Rightarrow> gerr + (string \<times> httppool \<times> string option world)" where
  "main_node port addrs w =
     (case createGroup w of
        Inl e \<Rightarrow> Inl e
      | Inr (gee, w1) \<Rightarrow>
          startCacheServer (case addrMap port of Some a \<Rightarrow> a | None \<Rightarrow> '''') addrs gee w1)"

text \<open>
  The whole of \<open>main\<close>: the flags \<open>-port\<close> (default 8001) and \<open>-api\<close> (default
  false) declared on \<open>flag.CommandLine\<close> and parsed from the arguments (\<open>Flags\<close>),
  then \<open>main_node\<close>; \<open>MainRun api\<close> records whether the API server's goroutine
  is started. \<open>flag.Parse\<close> may exit the process (\<open>MainExit\<close>: 0 for \<open>-h\<close>, 2
  for a bad flag); \<open>MainPanic\<close> is a panic of \<open>flag.Var\<close>, or a flag holding a
  value of the other kind, which Go's typed variables exclude.
\<close>

datatype main_outcome =
  MainPanic | MainExit nat | MainRun bool "gerr + (string \<times> httppool \<times> string option world)"

definition main :: "string list \<Rightarrow> string list \<Rightarrow> string option world \<Rightarrow> main_outcome" where
  "main args addrs w =
     (case Option.bind (flag_IntVar flag_CommandLine ''port'' 8001) (\<lambda>f. flag_BoolVar f ''api'' False) of
        None \<Rightarrow> MainPanic
      | Some f \<Rightarrow>
          (case flag_Parse f args of
             Inl code \<Rightarrow> MainExit code
           | Inr f' \<Rightarrow>
               (case (formal f' ''port'', formal f' ''api'') of
                  (Some (IntValue port), Some (BoolValue api)) \<Rightarrow> MainRun api (main_node port addrs w)
                | _ \<Rightarrow> MainPanic)))"

section \<open>A node serving requests\<close>

text \<open>
  A running node receives requests on its two servers, the API server
  (\<open>ApiRequest\<close>: whether \<open>w.Write\<close> succeeds, and the query) and the cache
  server (\<open>PeerRequest\<close>: whether \<open>w.Write\<close> succeeds, and the decoded path),
  both over the one group \<open>gee\<close>
  (lines 84--88); API requests arrive only at a node started with \<open>-api\<close>, whose
  API server listens on \<open>startAPIServer apiAddr\<close>. Each request is handled in one
  step; the coalescer's interleavings
  are \<open>SingleFlight\<close>'s. A handler that reaches \<open>log.Fatal\<close> ends the process:
  no later request is answered. A panic in a handler is recovered by \<open>net/http\<close>
  and the node goes on.
\<close>

datatype request = ApiRequest bool string | PeerRequest bool string

datatype response = ApiAnswer api_result | PeerAnswer serve_result

definition node_step ::
  "'pg peer_get \<Rightarrow> httppool \<Rightarrow> gid \<Rightarrow> 'pg world \<Rightarrow> request \<Rightarrow> (response \<times> 'pg world) option" where
  "node_step pget p gee w req =
     (case req of
        ApiRequest ok q \<Rightarrow> map_option (\<lambda>(r, w'). (ApiAnswer r, w')) (api_handler pget w gee ok q)
      | PeerRequest ok path \<Rightarrow> map_option (\<lambda>(r, w'). (PeerAnswer r, w')) (ServeHTTP ok pget w p path))"

fun node_run ::
  "'pg peer_get \<Rightarrow> httppool \<Rightarrow> gid \<Rightarrow> 'pg world \<Rightarrow> request list \<Rightarrow> (response list \<times> 'pg world) option" where
  "node_run pget p gee w [] = Some ([], w)"
| "node_run pget p gee w (req # reqs) =
     (case node_step pget p gee w req of
        None \<Rightarrow> None
      | Some (PeerAnswer (WroteThenFatal b), w') \<Rightarrow> Some ([PeerAnswer (WroteThenFatal b)], w')
      | Some (r, w') \<Rightarrow> map_option (\<lambda>(rs, w''). (r # rs, w'')) (node_run pget p gee w' reqs))"


text \<open>
  The well-formedness of the process state: the registry names only allocated groups
  and every allocated group is well formed.
\<close>

definition world_wf :: "'pg world \<Rightarrow> bool" where
  "world_wf w \<longleftrightarrow> world_ok w \<and> (\<forall>a < gnext w. group_ok (gheap w a))"



section \<open>Lemmas\<close>

lemma hex_upper_unreserved: "n < 16 \<Longrightarrow> unreserved (hex_upper n)"
  by (auto simp: hex_upper_def unreserved_def Let_def)

lemma query_escape_chars:
  "c \<in> set (query_escape s) \<Longrightarrow> unreserved c \<or> c = CHR ''+'' \<or> c = CHR ''%''"
proof (induction s)
  case (Cons a s)
  have "of_char a div 16 < (16::nat)" "of_char a mod 16 < (16::nat)"
    using nat_of_char_less_256 [of a] by (simp_all add: less_mult_imp_div_less)
  with Cons show ?case by (auto simp: hex_upper_unreserved split: if_splits)
qed simp

lemma query_unescape_query_escape:
  "query_unescape (query_escape s @ t) = map_option ((@) s) (query_unescape t)"
proof (induction s)
  case Nil
  then show ?case by (simp add: option.map_ident)
next
  case (Cons c cs)
  have hx: "unhex (hex_upper (of_char c div 16)) = Some (of_char c div 16)"
    "unhex (hex_upper (of_char c mod 16)) = Some (of_char c mod 16)"
    using nat_of_char_less_256 [of c] by (simp_all add: unhex_hex_upper less_mult_imp_div_less)
  have "unreserved c \<Longrightarrow> c \<noteq> CHR ''+''" by (auto simp: unreserved_def)
  with Cons.IH hx unreserved_not_percent show ?case
    by (auto simp: option.map_comp comp_def)
qed

lemma split_on_no_sep: "sep \<notin> set s \<Longrightarrow> split_on sep s = [s]"
  by (induction s) auto

lemma unreserved_not_sep:
  "unreserved c \<Longrightarrow> c \<noteq> CHR ''&'' \<and> c \<noteq> CHR '';'' \<and> c \<noteq> CHR ''=''"
  by (auto simp: unreserved_def)

lemma ran_addrMap:
  "ran addrMap = {''http://localhost:8003'', ''http://localhost:8002'', ''http://localhost:8001''}"
  by (simp add: addrMap_def)

text \<open>What \<open>main_node\<close> leaves behind: the group it created with the pool as picker.\<close>

lemma addrMap_length: "addrMap port = Some me \<Longrightarrow> 7 \<le> length me"
  by (auto simp: addrMap_def split: if_splits)

lemma main_node_eq:
  assumes "addrMap port = Some me"
  shows "main_node port addrs w =
    Inr (drop 7 me, pool_Set (NewHTTPPool me) addrs,
      w\<lparr>groups := (groups w)(''scores'' \<mapsto> gnext w),
        gheap := (gheap w)(gnext w := \<lparr>gname = ''scores'', getter = db_getter,
          mainCache = \<lparr>lru = None, cacheBytes = 2048\<rparr>,
          peers = Some (PickPeer (pool_Set (NewHTTPPool me) addrs)), trace = []\<rparr>),
        gnext := Suc (gnext w), loaders := (loaders w)(gnext w := [])\<rparr>)"
  using assms addrMap_length [OF assms]
  apply (simp only: main_node_def createGroup_def NewGroup_def)
  apply simp
  apply (simp only: startCacheServer_def Let_def)
  apply (simp add: group_RegisterPeers_def)
  done











lemma world_wf_GetGroup: "world_wf w \<Longrightarrow> GetGroup w n = Some a \<Longrightarrow> a < gnext w \<and> group_ok (gheap w a)"
  by (auto simp: world_wf_def world_ok_def GetGroup_def)

lemma world_Get_wf:
  assumes "world_wf w" and "a < gnext w" and "world_Get pget w a key = Some (r, w')"
  shows "world_wf w' \<and> groups w' = groups w \<and> gnext w' = gnext w"
proof -
  from world_Get_Some [OF assms(3)] obtain g' where
    e: "group_Get pget (gheap w a) key = Some (r, g')" and w': "w' = w\<lparr>gheap := (gheap w)(a := g'),
      loaders := (if is_panic r then (loaders w)(a := key # loaders w a) else loaders w)\<rparr>" by blast
  from assms(1,2) have "group_ok (gheap w a)" by (simp add: world_wf_def)
  from group_Get_total [OF this, of pget key] e have "group_ok g'" by auto
  with assms(1) w' show ?thesis by (simp add: world_wf_def world_ok_def)
qed

lemma world_wf_ServeHTTP:
  assumes "world_wf w" and "ServeHTTP ok pget w p path = Some (r, w')"
  shows "world_wf w' \<and> groups w' = groups w \<and> gnext w' = gnext w"
proof -
  have "world_wf w' \<and> groups w' = groups w \<and> gnext w' = gnext w" if "serve_group ok pget w g k = Some (r, w')" for g k
  proof (cases "GetGroup w g")
    case None
    with that assms(1) show ?thesis by (simp add: serve_group_def)
  next
    case (Some a)
    with world_wf_GetGroup [OF assms(1)] have "a < gnext w" by blast
    with Some that world_Get_wf [OF assms(1) this, of pget k] show ?thesis
      by (auto simp: serve_group_def Let_def split: option.splits sum.splits gerr.splits)
  qed
  with assms show ?thesis by (auto simp: ServeHTTP_def Let_def split: if_splits)
qed

lemma node_step_wf:
  assumes "world_wf w" and "gee < gnext w" and "node_step pget p gee w req = Some (r, w')"
  shows "world_wf w' \<and> groups w' = groups w \<and> gnext w' = gnext w"
proof (cases req)
  case (ApiRequest ok q)
  with assms(3) world_Get_wf [OF assms(1,2), of pget "values_Get (parse_query q) ''key''"] show ?thesis
    by (auto simp: node_step_def api_handler_def)
next
  case (PeerRequest ok path)
  with assms(3) world_wf_ServeHTTP [OF assms(1), of ok pget p path] show ?thesis
    by (auto simp: node_step_def)
qed

lemma node_run_wf:
  "world_wf w \<Longrightarrow> gee < gnext w \<Longrightarrow> node_run pget p gee w reqs = Some (rs, w') \<Longrightarrow>
    world_wf w' \<and> groups w' = groups w \<and> gnext w' = gnext w"
proof (induction reqs arbitrary: w rs)
  case (Cons req reqs)
  then obtain r w1 where s: "node_step pget p gee w req = Some (r, w1)"
    by (auto split: option.splits)
  from node_step_wf [OF Cons.prems(1,2) s] have w1: "world_wf w1" "groups w1 = groups w" "gnext w1 = gnext w"
    by simp_all
  show ?case
  proof (cases "\<exists>b. r = PeerAnswer (WroteThenFatal b)")
    case True
    with Cons.prems(3) s w1 show ?thesis by auto
  next
    case False
    with Cons.prems(3) s obtain rs' where "node_run pget p gee w1 reqs = Some (rs', w')"
      by (cases r rule: response.exhaust) (auto split: serve_result.splits)
    from Cons.IH [OF w1(1) _ this] Cons.prems(2) w1 show ?thesis by simp
  qed
qed simp

section \<open>Properties of the process\<close>

text \<open>
  C17: API keys round-trip through the handler. The API handler, asked with the
  query \<open>"key=" + url.QueryEscape(k)\<close>, calls the group's \<open>Get\<close> with exactly
  \<open>k\<close> (spaces and \<open>&\<close>, \<open>;\<close>, \<open>=\<close> included) and answers with the reply
  for that \<open>Get\<close>'s result; the peer path of \<open>httpGetter\<close> does not keep spaces
  (\<open>HTTP.httpGetter_url_roundtrip\<close>).
\<close>

theorem api_handler_query_key:
  "api_handler pget w gee ok (''key='' @ query_escape k) =
     map_option (\<lambda>(r, w'). (api_reply ok r, w')) (world_Get pget w gee k)"
proof -
  have "c \<in> set (query_escape k) \<Longrightarrow> c \<noteq> CHR ''&'' \<and> c \<noteq> CHR '';'' \<and> c \<noteq> CHR ''=''" for c
    using query_escape_chars [of c k] unreserved_not_sep [of c] by auto
  then have n: "CHR ''&'' \<notin> set (query_escape k)" "CHR '';'' \<notin> set (query_escape k)"
    by blast+
  have u: "query_unescape (query_escape k) = Some k"
    using query_unescape_query_escape [of k "[]"] by simp
  have "parse_query (''key='' @ query_escape k) = [(''key'', k)]"
    using n u by (simp add: parse_query_def split_on_no_sep parse_piece_def map_filter_simps)
  then show ?thesis by (simp add: api_handler_def values_Get_def)
qed

theorem api_handler_query_key_witness:
  "\<exists>w'. api_handler no_peer (\<lparr>groups = [''scores'' \<mapsto> 0], gheap = (\<lambda>_. demo_group), gnext = 1,
      loaders = (\<lambda>_. [])\<rparr> :: nat world) 0 False (''key='' @ query_escape ''Tom'') =
    Some (ApiWrote (bytes_of_string ''630'') [], w')"
proof -
  let ?w = "\<lparr>groups = [''scores'' \<mapsto> 0], gheap = (\<lambda>_. demo_group), gnext = 1, loaders = (\<lambda>_. [])\<rparr> :: nat world"
  from demo_Get_Tom obtain g' where
    e: "group_Get no_peer demo_group ''Tom'' = Some (Inr (ByteView (bytes_of_string ''630'')), g')" ..
  have "world_Get no_peer ?w 0 ''Tom'' = Some (Inr (ByteView (bytes_of_string ''630'')),
      ?w\<lparr>gheap := (gheap ?w)(0 := g')\<rparr>)"
    by (rule world_Get_eq) (simp_all add: e)
  with api_handler_query_key [of no_peer ?w 0 False "''Tom''"] show ?thesis
    by (simp add: api_reply_def)
qed

text \<open>
  C38: the API handler reports a failed write exactly when the write succeeded. When
  the group's \<open>Get\<close> of the requested key returns a value, the handler writes its
  bytes and logs \<open>Write failed <nil>\<close> if and only if \<open>w.Write\<close> returned no
  error (the test at line 54 is inverted).
\<close>

theorem api_handler_logs_Write_failed:
  assumes "world_Get pget w gee (values_Get (parse_query q) ''key'') = Some (Inr v, w')"
  shows "\<exists>ls. api_handler pget w gee ok q = Some (ApiWrote (view_bytes v) ls, w') \<and>
    (''Write failed <nil>'' \<in> set ls \<longleftrightarrow> ok)"
  using assms by (simp add: api_handler_def api_reply_def)

theorem api_handler_logs_Write_failed_witness:
  "\<exists>w' ls. api_handler no_peer (\<lparr>groups = [''scores'' \<mapsto> 0], gheap = (\<lambda>_. demo_group), gnext = 1, loaders = (\<lambda>_. [])\<rparr> :: nat world)
      0 True ''key=Tom'' = Some (ApiWrote (view_bytes (ByteView (bytes_of_string ''630''))) ls, w') \<and>
    (''Write failed <nil>'' \<in> set ls \<longleftrightarrow> True)"
proof -
  let ?w = "\<lparr>groups = [''scores'' \<mapsto> 0], gheap = (\<lambda>_. demo_group), gnext = 1, loaders = (\<lambda>_. [])\<rparr> :: nat world"
  from demo_Get_Tom obtain g' where
    e: "group_Get no_peer demo_group ''Tom'' = Some (Inr (ByteView (bytes_of_string ''630'')), g')" ..
  have k: "values_Get (parse_query ''key=Tom'') ''key'' = ''Tom''"
    using query_unescape_query_escape [of "''Tom''" "[]"]
    by (simp add: values_Get_def parse_query_def parse_piece_def map_filter_simps)
  from e have "world_Get no_peer ?w 0 (values_Get (parse_query ''key=Tom'') ''key'') =
      Some (Inr (ByteView (bytes_of_string ''630'')), ?w\<lparr>gheap := (gheap ?w)(0 := g')\<rparr>)"
    by (simp only: k) (rule world_Get_eq, simp_all add: e)
  from api_handler_logs_Write_failed [OF this, of True] show ?thesis by blast
qed

text \<open>
  A request without a key is an error of the group. An API request whose query has
  no \<open>key\<close> parameter looks up \<open>""\<close>, and the group rejects it: the handler
  answers 500 \<open>key is required\<close> and changes nothing.
\<close>

theorem api_handler_missing_key:
  assumes "''key'' \<notin> fst ` set (parse_query q)"
  shows "api_handler pget w gee ok q = Some (ApiError 500 ''key is required'', w)"
proof -
  from assms have "map_of (parse_query q) ''key'' = None" by (simp add: map_of_eq_None_iff)
  then have "values_Get (parse_query q) ''key'' = ''''" by (simp add: values_Get_def)
  then show ?thesis by (simp add: api_handler_def api_reply_def world_Get_def)
qed

theorem api_handler_missing_key_witness:
  "api_handler no_peer (\<lparr>groups = [''scores'' \<mapsto> 0], gheap = (\<lambda>_. demo_group), gnext = 1, loaders = (\<lambda>_. [])\<rparr> :: nat world)
      0 True ''name=Tom'' =
    Some (ApiError 500 ''key is required'', \<lparr>groups = [''scores'' \<mapsto> 0], gheap = (\<lambda>_. demo_group), gnext = 1, loaders = (\<lambda>_. [])\<rparr>)"
  by (rule api_handler_missing_key)
     (simp add: parse_query_def parse_piece_def map_filter_simps)
text \<open>
  C8: a node started on an unknown port panics. \<open>main\<close> looks the node's address up
  in \<open>addrMap\<close>; for a port outside the map it gets \<open>""\<close>, and
  \<open>startCacheServer\<close>, after registering the pool as the group's picker, panics at
  \<open>addr[7:]\<close> instead of serving.
\<close>

theorem main_node_unknown_port:
  "addrMap port = None \<Longrightarrow> main_node port addrs w = Inl (Panic ''runtime error: slice bounds out of range'')"
  by (simp add: main_node_def createGroup_def NewGroup_def startCacheServer_def group_RegisterPeers_def Let_def)

theorem main_node_unknown_port_witness:
  "main_node 9000 [''http://localhost:8001''] (\<lparr>groups = Map.empty, gheap = (\<lambda>_. undefined), gnext = 0, loaders = (\<lambda>_. [])\<rparr>) =
    Inl (Panic ''runtime error: slice bounds out of range'')"
  by (rule main_node_unknown_port) (simp add: addrMap_def)

text \<open>
  C32: how a started node routes a miss. After \<open>main\<close> has created the group and
  started the cache server for a port of \<open>addrMap\<close> with all the map's addresses (in
  any order), the node listens on the address without \<open>http://\<close>, \<open>GetGroup\<close>
  finds the group, and its first \<open>Get\<close> of a key returns and calls the loader alone
  when the ring assigns the key to the node itself, and otherwise first calls the
  \<open>httpGetter\<close> of the key's owner, \<open>owner + "/_geecache/"\<close>, for the group and
  the key.
\<close>

theorem main_node_routes_miss:
  assumes "addrMap port = Some me" and "set addrs = ran addrMap"
    and "main_node port addrs w = Inr (la, pool, w')" and "key \<noteq> ''''"
  shows "la = drop 7 me \<and> GetGroup w' ''scores'' = Some (gnext w) \<and>
    (\<exists>r g'. group_Get pget (gheap w' (gnext w)) key = Some (r, g') \<and>
      (if hm_Get (hm_Add (hm_New defaultReplicas None) addrs) key = me
       then trace g' = [LoaderCall key]
       else hd (trace g') =
         PeerCall (Some (hm_Get (hm_Add (hm_New defaultReplicas None) addrs) key @ defaultBasePath))
           ''scores'' key))"
proof -
  let ?own = "hm_Get (hm_Add (hm_New defaultReplicas None) addrs) key"
  let ?pool = "pool_Set (NewHTTPPool me) addrs"
  let ?g = "\<lparr>gname = ''scores'', getter = db_getter, mainCache = \<lparr>lru = None, cacheBytes = 2048\<rparr>,
      peers = Some (PickPeer ?pool), trace = []\<rparr> :: string option group"
  from main_node_eq [OF assms(1), of addrs w] assms(3)
  have la: "la = drop 7 me" and w': "gheap w' (gnext w) = ?g" "GetGroup w' ''scores'' = Some (gnext w)"
    by (auto simp: GetGroup_def)
  have s: "set addrs = ran addrMap" by (fact assms(2))
  then have ne: "addrs \<noteq> []" by (metis empty_set insert_not_empty ran_addrMap)
  from s have nz: "'''' \<notin> set addrs" by (simp add: ran_addrMap)
  have ok: "group_ok ?g" by (simp add: group_ok_def cache_inv_def)
  have miss: "map_of (cache_abs (mainCache ?g)) key = None" by (simp add: cache_abs_def)
  from group_Get_miss_eq [OF ok assms(4) miss, of pget] obtain c' where
    e: "group_Get pget ?g key = group_load pget (?g\<lparr>mainCache := c'\<rparr>) key"
    and ok': "group_ok (?g\<lparr>mainCache := c'\<rparr>)" by blast
  have own: "?own \<in> set addrs" by (rule pool_Set_ring_owner [OF ne])
  have "\<exists>r g'. group_load pget (?g\<lparr>mainCache := c'\<rparr>) key = Some (r, g') \<and>
      (if ?own = me then trace g' = [LoaderCall key]
       else hd (trace g') = PeerCall (Some (?own @ defaultBasePath)) ''scores'' key)"
  proof (cases "?own = me")
    case True
    then have "PickPeer ?pool key = Inr None" by (simp add: PickPeer_Set NewHTTPPool_def)
    with True group_getLocally_spec [OF ok', of key] show ?thesis
      by (auto simp: group_load_def)
  next
    case False
    let ?p = "Some (?own @ defaultBasePath)"
    from False own nz have "PickPeer ?pool key = Inr (Some ?p)"
      by (auto simp: PickPeer_Set NewHTTPPool_def Let_def)
    moreover have "group_ok (?g\<lparr>mainCache := c', trace := [PeerCall ?p ''scores'' key]\<rparr>)"
      using ok' by (simp add: group_ok_def)
    note loc = group_getLocally_spec [OF this, of key]
    ultimately show ?thesis using False
      by (auto simp: group_load_def group_getFromPeer_eq as_view_def split: sum.splits gerr.splits)
  qed
  with e la w' show ?thesis by simp
qed
theorem main_node_routes_miss_witness:
  "fst (projr (main_node 8001 [''http://localhost:8001'', ''http://localhost:8002'', ''http://localhost:8003'']
       \<lparr>groups = Map.empty, gheap = (\<lambda>_. undefined), gnext = 0, loaders = (\<lambda>_. [])\<rparr>)) = ''localhost:8001'' \<and>
   GetGroup (snd (snd (projr (main_node 8001 [''http://localhost:8001'', ''http://localhost:8002'', ''http://localhost:8003'']
       \<lparr>groups = Map.empty, gheap = (\<lambda>_. undefined), gnext = 0, loaders = (\<lambda>_. [])\<rparr>)))) ''scores'' = Some 0 \<and>
   (\<exists>r g'. group_Get (\<lambda>_ _ _. Inl (Err ''unreachable''))
       (gheap (snd (snd (projr (main_node 8001 [''http://localhost:8001'', ''http://localhost:8002'', ''http://localhost:8003'']
         \<lparr>groups = Map.empty, gheap = (\<lambda>_. undefined), gnext = 0, loaders = (\<lambda>_. [])\<rparr>)))) 0) ''Tom'' = Some (r, g') \<and>
     (if hm_Get (hm_Add (hm_New defaultReplicas None) [''http://localhost:8001'', ''http://localhost:8002'', ''http://localhost:8003'']) ''Tom'' = ''http://localhost:8001''
      then trace g' = [LoaderCall ''Tom'']
      else hd (trace g') =
        PeerCall (Some (hm_Get (hm_Add (hm_New defaultReplicas None) [''http://localhost:8001'', ''http://localhost:8002'', ''http://localhost:8003'']) ''Tom'' @ defaultBasePath))
          ''scores'' ''Tom''))"
proof -
  let ?addrs = "[''http://localhost:8001'', ''http://localhost:8002'', ''http://localhost:8003'']"
  let ?w = "\<lparr>groups = Map.empty, gheap = (\<lambda>_. undefined), gnext = 0, loaders = (\<lambda>_. [])\<rparr> :: string option world"
  have a: "addrMap 8001 = Some ''http://localhost:8001''" by (simp add: addrMap_def)
  have s: "set ?addrs = ran addrMap" by (simp add: ran_addrMap insert_commute)
  have m: "main_node 8001 ?addrs ?w = Inr (fst (projr (main_node 8001 ?addrs ?w)),
      fst (snd (projr (main_node 8001 ?addrs ?w))), snd (snd (projr (main_node 8001 ?addrs ?w))))"
    by (simp only: main_node_eq [OF a]) simp
  from main_node_routes_miss [OF a s m, of "''Tom''" "\<lambda>_ _ _. Inl (Err ''unreachable'')"]
  show ?thesis by simp
qed


text \<open>
  C36: a peer request whose answer is written ends the node. When the first request a
  node receives is a peer request for a registered group (no \<open>/\<close> in its name)
  whose \<open>Get\<close> returns a value, the node writes the encoded value; if \<open>w.Write\<close>
  succeeds, \<open>log.Fatal\<close> ends the process (lines 104--107) and no later request,
  API or peer, is answered; if the write fails, the handler returns and the node
  serves the next requests.
\<close>

theorem node_run_exits_after_peer_success:
  assumes "basePath p = defaultBasePath" and "CHR ''/'' \<notin> set g"
    and "GetGroup w g = Some a" and "world_Get pget w a k = Some (Inr v, w1)"
  shows "node_run pget p gee w (PeerRequest ok (defaultBasePath @ g @ ''/'' @ k) # reqs) =
    (if ok then Some ([PeerAnswer (WroteThenFatal (proto_Marshal (PbResponse (view_bytes v))))], w1)
     else map_option (\<lambda>(rs, w''). (PeerAnswer (WriteFailed (proto_Marshal (PbResponse (view_bytes v)))) # rs, w''))
       (node_run pget p gee w1 reqs))"
proof -
  have "splitN2 (g @ CHR ''/'' # k) = [g, k]" using assms(2) by (rule splitN2_sep)
  with assms(1) have "ServeHTTP ok pget w p (defaultBasePath @ g @ ''/'' @ k) = serve_group ok pget w g k"
    by (simp add: ServeHTTP_def)
  with serve_group_success_is_fatal [OF assms(3,4), of ok] show ?thesis
    by (simp add: node_step_def)
qed

theorem node_run_exits_after_peer_success_witness:
  "\<exists>w1. node_run no_peer (NewHTTPPool ''http://localhost:8001'') 0
      (\<lparr>groups = [''scores'' \<mapsto> 0], gheap = (\<lambda>_. demo_group), gnext = 1, loaders = (\<lambda>_. [])\<rparr> :: nat world)
      [PeerRequest True (defaultBasePath @ ''scores'' @ ''/'' @ ''Tom''), ApiRequest True ''key=Sam''] =
    Some ([PeerAnswer (WroteThenFatal (proto_Marshal (PbResponse (view_bytes (ByteView (bytes_of_string ''630''))))))], w1)"
proof -
  let ?w = "\<lparr>groups = [''scores'' \<mapsto> 0], gheap = (\<lambda>_. demo_group), gnext = 1, loaders = (\<lambda>_. [])\<rparr> :: nat world"
  from demo_Get_Tom obtain g' where
    e: "group_Get no_peer demo_group ''Tom'' = Some (Inr (ByteView (bytes_of_string ''630'')), g')" ..
  have gg: "GetGroup ?w ''scores'' = Some 0" by (simp add: GetGroup_def)
  have wg: "world_Get no_peer ?w 0 ''Tom'' = Some (Inr (ByteView (bytes_of_string ''630'')),
      ?w\<lparr>gheap := (gheap ?w)(0 := g')\<rparr>)"
    by (rule world_Get_eq) (simp_all add: e)
  from node_run_exits_after_peer_success [OF _ _ gg wg, where p = "NewHTTPPool ''http://localhost:8001''"
      and gee = 0 and ok = True and reqs = "[ApiRequest True ''key=Sam'']"]
  show ?thesis by (auto simp: NewHTTPPool_def)
qed
text \<open>
  C34: the process state stays well formed. Starting from a well-formed state, the
  state \<open>main\<close> leaves after creating the group and starting the cache server is well
  formed, every state the node reaches while serving requests is well formed, and the
  registry keeps finding the group \<open>"scores"\<close> at the address \<open>createGroup\<close> gave it.
\<close>

theorem process_keeps_world_wf:
  assumes "world_wf w" and "main_node port addrs w = Inr (la, p, w1)"
    and "node_run pget p (gnext w) w1 reqs = Some (rs, w2)"
  shows "world_wf w1 \<and> world_wf w2 \<and> GetGroup w2 ''scores'' = Some (gnext w)"
proof -
  obtain me where a: "addrMap port = Some me"
    using assms(2) by (cases "addrMap port")
      (simp_all add: main_node_def createGroup_def NewGroup_def startCacheServer_def
         group_RegisterPeers_def Let_def)
  from main_node_eq [OF a, of addrs w] assms(2)
  have w1: "w1 = w\<lparr>groups := (groups w)(''scores'' \<mapsto> gnext w),
        gheap := (gheap w)(gnext w := \<lparr>gname = ''scores'', getter = db_getter,
          mainCache = \<lparr>lru = None, cacheBytes = 2048\<rparr>, peers = Some (PickPeer p), trace = []\<rparr>),
        gnext := Suc (gnext w), loaders := (loaders w)(gnext w := [])\<rparr>" by auto
  with assms(1) have wf1: "world_wf w1"
    by (auto simp: world_wf_def world_ok_def group_ok_def cache_inv_def less_Suc_eq split: if_splits)
  from node_run_wf [OF wf1 _ assms(3)] w1 have "world_wf w2 \<and> groups w2 = groups w1" by simp
  with wf1 w1 show ?thesis by (simp add: GetGroup_def)
qed

theorem process_keeps_world_wf_witness:
  "world_wf (snd (snd (projr (main_node 8001 [''http://localhost:8001'', ''http://localhost:8002'']
      \<lparr>groups = Map.empty, gheap = (\<lambda>_. undefined), gnext = 0, loaders = (\<lambda>_. [])\<rparr>)))) \<and>
   world_wf (snd (snd (projr (main_node 8001 [''http://localhost:8001'', ''http://localhost:8002'']
      \<lparr>groups = Map.empty, gheap = (\<lambda>_. undefined), gnext = 0, loaders = (\<lambda>_. [])\<rparr>)))) \<and>
   GetGroup (snd (snd (projr (main_node 8001 [''http://localhost:8001'', ''http://localhost:8002'']
      \<lparr>groups = Map.empty, gheap = (\<lambda>_. undefined), gnext = 0, loaders = (\<lambda>_. [])\<rparr>)))) ''scores'' = Some 0"
proof -
  let ?w = "\<lparr>groups = Map.empty, gheap = (\<lambda>_. undefined), gnext = 0, loaders = (\<lambda>_. [])\<rparr> :: string option world"
  let ?ps = "[''http://localhost:8001'', ''http://localhost:8002'']"
  let ?r = "projr (main_node 8001 ?ps ?w)"
  have a: "addrMap 8001 = Some ''http://localhost:8001''" by (simp add: addrMap_def)
  have wf: "world_wf ?w" by (simp add: world_wf_def world_ok_def)
  have m: "main_node 8001 ?ps ?w = Inr (fst ?r, fst (snd ?r), snd (snd ?r))"
    by (simp only: main_node_eq [OF a]) simp
  have n: "node_run (\<lambda>_ _ _. Inl (Err ''unreachable'')) (fst (snd ?r)) (gnext ?w) (snd (snd ?r)) [] =
      Some ([], snd (snd ?r))" by simp
  from process_keeps_world_wf [OF wf m n] show ?thesis by simp
qed
section \<open>The command line\<close>

text \<open>Each \<open>-port\<close> value is a decimal numeral built by \<open>itoa\<close>; its equation is
  unfolded explicitly.\<close>

declare itoa.simps [simp del]

lemmas main_flag_simps = main_def flag_IntVar_def flag_BoolVar_def flag_Var_def
  flag_CommandLine_def flag_Parse_def parseOne_def eq_split_def fvalue_Set_def ParseBool_def Let_def

lemma main_help_exits: "main [''-h''] addrs w = MainExit 0"
  by (simp add: main_flag_simps parse_loop_step cong: sum.case_cong_weak if_weak_cong)

lemma main_bad_port_exits: "ParseInt0 s = Inl e \<Longrightarrow> main [''-port'', s] addrs w = MainExit 2"
  by (simp add: main_flag_simps parse_loop_step cong: sum.case_cong_weak if_weak_cong)

lemma main_missing_port_exits: "main [''-port''] addrs w = MainExit 2"
  by (simp add: main_flag_simps parse_loop_step cong: sum.case_cong_weak if_weak_cong)

lemma main_unknown_flag_exits: "main [''-peers=3''] addrs w = MainExit 2"
  by (simp add: main_flag_simps parse_loop_step cong: sum.case_cong_weak if_weak_cong)

text \<open>Parsing stops at the first argument that is not a flag: a bare port number is
  ignored and the node starts on the default port 8001.\<close>

lemma main_bare_port_ignored: "main [''8002''] addrs w = MainRun False (main_node 8001 addrs w)"
  by (simp add: main_flag_simps parse_loop_step cong: sum.case_cong_weak if_weak_cong)

text \<open>\<open>strconv.ParseInt\<close> with base 0 reads base prefixes and digit separators.\<close>

lemma main_hex_port: "main [''-port=0x1F42'', ''-api=false''] addrs w = MainRun False (main_node 8002 addrs w)"
  by (simp add: main_flag_simps parse_loop_step ParseInt0_def ParseUint0_def lower_def digit_val_def
      is_digit_def maxUint64_def cong: sum.case_cong_weak if_weak_cong)

text \<open>
  C24: the command line selects the node. \<open>main\<close> run with \<open>-port\<close> followed by
  the decimal numeral of a port \<open>p\<close>, and optionally \<open>-api\<close>, starts the cache node
  for port \<open>p\<close> and the API server exactly when \<open>-api\<close> is given, when \<open>p\<close> is
  in the range of Go's 64-bit \<open>int\<close>; a larger numeral fails \<open>strconv.ParseInt\<close>
  with a range error and the process exits with status 2.
\<close>

theorem main_port_flag:
  "main ([''-port'', itoa p] @ (if api then [''-api''] else [])) addrs w =
   (if p < 2 ^ 63 then MainRun api (main_node (int p) addrs w) else MainExit 2)"
proof (cases "p < 2 ^ 63")
  case True
  then show ?thesis
    by (cases api) (simp_all add: main_flag_simps parse_loop_step ParseInt0_itoa
        cong: sum.case_cong_weak if_weak_cong)
next
  case False
  then have "ParseInt0 (itoa p) = Inl ErrRange" by (simp add: ParseInt0_itoa_range)
  with False show ?thesis
    by (cases api) (simp_all add: main_flag_simps parse_loop_step cong: sum.case_cong_weak if_weak_cong)
qed

theorem main_port_flag_witness:
  "main [''-port'', ''8002'', ''-api''] [''http://localhost:8001'']
     \<lparr>groups = Map.empty, gheap = (\<lambda>_. undefined), gnext = 0, loaders = (\<lambda>_. [])\<rparr> =
   MainRun True (main_node 8002 [''http://localhost:8001'']
     \<lparr>groups = Map.empty, gheap = (\<lambda>_. undefined), gnext = 0, loaders = (\<lambda>_. [])\<rparr>) \<and>
   main [''-port'', itoa 9223372036854775808] [] \<lparr>groups = Map.empty, gheap = (\<lambda>_. undefined), gnext = 0, loaders = (\<lambda>_. [])\<rparr> =
   MainExit 2"
proof -
  have "itoa 8002 = ''8002''" by code_simp
  then show ?thesis
    using main_port_flag [of 8002 True "[''http://localhost:8001'']"
        "\<lparr>groups = Map.empty, gheap = (\<lambda>_. undefined), gnext = 0, loaders = (\<lambda>_. [])\<rparr>"]
      main_port_flag [of 9223372036854775808 False "[]"
        "\<lparr>groups = Map.empty, gheap = (\<lambda>_. undefined), gnext = 0, loaders = (\<lambda>_. [])\<rparr>"] by simp
qed

end
