(* ===== verification/Spec2Isabelle.thy ===== *)
theory Spec2Isabelle
  imports LRU GoList LRUHeap ByteView Cache ConsistentHash SingleFlight GeeCache Protobuf HTTP
    Flags App
begin

text \<open>
  \<^bold>\<open>GeeCache in Isabelle/HOL.\<close>
  GeeCache (\<open>src/\<close>) is a distributed read-through cache in Go. A \<open>Group\<close>
  (\<open>src/geecache.go\<close>) answers \<open>Get(key)\<close> from a mutex-guarded bounded LRU
  store (\<open>src/cache.go\<close> over \<open>src/lru/lru.go\<close>), else asks the peer that owns the
  key on a consistent-hash ring (\<open>src/consistenthash/consistenthash.go\<close>, reached
  through the \<open>PeerPicker\<close>/\<open>PeerGetter\<close> interfaces of \<open>src/peers.go\<close>, implemented
  over HTTP in \<open>src/http.go\<close>), else calls the user's loader and fills the store;
  the fill runs under a single-flight coalescer (\<open>src/singleflight/singlefilight.go\<close>)
  so that concurrent misses on one key load once. Cached values are
  \<open>ByteView\<close>s (\<open>src/byteview.go\<close>). Peers exchange \<open>pb.Response\<close> messages in
  the protobuf wire format, and \<open>src/main/main.go\<close> starts one node of a three-node
  fleet with an optional API server. The theories follow this structure: \<open>Prelude\<close>,
  \<open>ByteView\<close>, \<open>LRU\<close>, \<open>GoList\<close>, \<open>LRUHeap\<close>, \<open>Cache\<close>, \<open>ConsistentHash\<close>,
  \<open>SingleFlight\<close>, \<open>GeeCache\<close>, \<open>Protobuf\<close>, \<open>HTTP\<close>, \<open>Flags\<close> and
  \<open>App\<close>, each importing what it calls.

  \<^bold>\<open>Library layout.\<close>
  \<^item> \<open>Prelude\<close>: the types \<open>byte\<close>, \<open>bytes\<close> (\<open>8 word list\<close>) and \<open>elem\<close>
    (addresses of list elements), Go's \<open>[]byte(s)\<close>/\<open>string(b)\<close> conversions and
    their round trip, and the list facts the components share (moving an element to
    the front is a permutation, and what permutations keep).
  \<^item> \<open>Prelude\<close> also holds \<open>sum_option_cases\<close>, the three outcomes of a call that
    may panic or answer with an optional value.
  \<^item> \<open>ByteView\<close>: \<open>ByteView\<close>, \<open>Len\<close>, \<open>cloneBytes\<close> (Go's \<open>copy\<close>),
    \<open>ByteSlice\<close>, \<open>String\<close>.
  \<^item> \<open>LRU\<close>: \<open>lru.Cache\<close> as the record \<open>lru_cache\<close>. The linked list is the list
    \<open>ll\<close> of element addresses (front = most recently used) with the payloads in an
    explicit store \<open>elems\<close>; the map \<open>cache\<close> maps keys to addresses, as the Go
    map holds \<open>*list.Element\<close> pointers. \<open>lru_New\<close>, \<open>lru_Get\<close>,
    \<open>lru_RemoveOldest\<close>, \<open>lru_Add\<close> (= \<open>lru_upsert\<close>, lines 76--87, then the
    eviction loop \<open>lru_evict\<close>, lines 90--92) and \<open>lru_Len\<close> are the Go functions.
    The eviction callback is a flag \<open>onEvicted\<close> and the trace \<open>evicted\<close> of its
    invocations. The value interface \<open>Value.Len()\<close> is a parameter \<open>vlen\<close>.

  \<^bold>\<open>What is proved about the LRU store.\<close>
  The invariant \<open>lru_inv\<close> (list without repetitions, keys distinct, the map is
  exactly the index of the list, \<open>nbytes\<close> is the sum of the entry sizes) holds
  in every reachable state (\<open>lru_reachable_invariant\<close>; for the pointer store C5).
  Against the abstract store \<open>lru_abs\<close> (the list of
  pairs, most recent first), \<open>Get\<close> and \<open>Add\<close> refine \<open>a_get\<close> and \<open>a_add\<close>
  (C4, C1): \<open>Add\<close> keeps the longest most-recent prefix that fits the bound, which
  the eviction loop computes (C7); under a positive bound the entries kept, measured by
  their real sizes, fit the bound and \<open>nbytes\<close> is their size (C2); the
  callback receives exactly the evicted least-recent tail, least recent first (C3);
  bound 0 never evicts (\<open>lru_Add_unbounded_never_evicts\<close>).

  \<^bold>\<open>The LRU store over Go's doubly linked list.\<close>
  \<^item> \<open>GoList\<close>: Go's \<open>container/list\<close> (standard library, not in the repository;
    modelled from its source): the sentinel \<open>root\<close> and the elements as pointers
    \<open>lptr\<close>, their \<open>next\<close>/\<open>prev\<close> fields as two maps (\<open>None\<close> = \<open>nil\<close>), the
    \<open>list\<close> back-pointers as the set \<open>owner\<close>, and \<open>New\<close>, \<open>Init\<close>,
    \<open>lazyInit\<close>, \<open>Len\<close>, \<open>Back\<close>, \<open>insert\<close>, \<open>insertValue\<close>, \<open>remove\<close>,
    \<open>move\<close>, \<open>Remove\<close>, \<open>PushFront\<close>, \<open>MoveToFront\<close>, each pointer write in
    the library's order, a nil dereference being \<open>None\<close>. The invariant \<open>dl_inv l xs\<close>
    says that the \<open>next\<close> pointers form the ring \<open>root, xs, root\<close> and the
    \<open>prev\<close> pointers the reverse ring (\<open>links\<close>, a path predicate over a pointer
    list), with \<open>len\<close> and \<open>owner\<close> matching; \<open>PushFront\<close>, \<open>MoveToFront\<close>
    and \<open>Remove\<close> keep it and act on \<open>xs\<close> as the list model of \<open>LRU\<close> does, never
    dereferencing nil (\<open>list_PushFront_inv\<close>, \<open>list_MoveToFront_inv\<close>,
    \<open>list_Remove_inv\<close>, from the frame and unlink lemmas of \<open>links\<close>).
  \<^item> \<open>LRUHeap\<close>: \<open>src/lru/lru.go\<close> line by line over that list (\<open>dlru_New\<close>,
    \<open>dlru_Get\<close>, \<open>dlru_RemoveOldest\<close>, \<open>dlru_upsert\<close>, \<open>dlru_evict\<close>,
    \<open>dlru_Add\<close>, \<open>dlru_Len\<close>), where a panic (nil dereference, or the type
    assertion on the sentinel) and a non-ending eviction loop are both \<open>None\<close>.
    \<open>dlru_rel\<close> relates a pointer store to the sequence model; each operation
    simulates its sequence counterpart, and the two eviction loops return together
    (\<open>dlru_evict_sim\<close>). Read off its ring by \<open>dlru_abs\<close>, a well-formed
    (\<open>dlru_wf\<close>) pointer store refines \<open>a_add\<close> (C37) and \<open>a_get\<close> (C40)
    without panicking, and \<open>Add\<close> fails to return exactly when the bound is negative
    (C6). Every pointer store reachable from \<open>New\<close> through \<open>Get\<close> and \<open>Add\<close>
    (\<open>dlru_reach\<close>) is well formed, within a positive bound, and its \<open>Len()\<close> is
    the number of keys (C5).

  \<^bold>\<open>The cache wrapper and the ring.\<close>
  \<^item> \<open>Cache\<close>: \<open>src/cache.go\<close> as the record \<open>cache\<close> (the LRU as an \<open>option\<close>,
    created by the first \<open>cache_add\<close>), \<open>cache_add\<close> and \<open>cache_get\<close>; the store it
    stands for is \<open>cache_abs\<close>. Adding then getting returns the value when the entry
    fits (C9); an entry larger than a positive budget empties the store (C10).
  \<^item> \<open>ConsistentHash\<close>: \<open>src/consistenthash/consistenthash.go\<close> as the record
    \<open>hmap\<close>, \<open>hm_New\<close>, \<open>hm_Add\<close> (two folds over the peers and the replica
    indices of \<open>hm_add_point\<close>, then \<open>sort\<close>) and \<open>hm_Get\<close>. The library calls it
    makes are modelled by what they compute: \<open>crc32_ieee\<close> (bitwise CRC-32),
    \<open>itoa\<close> (\<open>strconv.Itoa\<close>), and \<open>sort_Search\<close>, Go's binary-search loop
    as a terminating \<^theory_text>\<open>function\<close>. \<open>Get\<close> returns the owner of the first
    point clockwise from the key's hash (C11, via \<open>sort_Search_first_point\<close>),
    \<open>Add\<close> keeps the ring well formed (\<open>ring_wf\<close>: sorted, owned,
    \<open>uint32\<close>-valued points) without dropping points (C12), a built ring covers
    every key (C13), and adding peers moves keys only to the new peers (C14). The
    empty-string answer identifies the empty ring only when no peer is named \<open>""\<close>
    (\<open>hm_Get_empty_iff_no_points\<close>, \<open>hm_Get_empty_name_peer\<close>), and colliding
    points go to the peer added last (C18).

  \<^bold>\<open>The coalescer.\<close>
  \<open>SingleFlight\<close> models \<open>Group.Do\<close> of \<open>src/singleflight/singlefilight.go\<close> as
  the step relation \<open>sf_step\<close> over a state \<open>sf_state\<close> (the map \<open>m\<close>, a store
  \<open>sf_calls\<close> of \<open>call\<close> objects with their \<open>WaitGroup\<close> counter and result, and
  the position \<open>sf_pc\<close> of each thread). Each region under the mutex is one atomic
  step: \<open>sf_enter\<close> (lines 30--51: join a registered call or register a new one)
  and \<open>sf_delete\<close> (lines 56--60). The unlocked steps are \<open>sf_run\<close> (\<open>fn\<close>, with
  any result), \<open>sf_panic\<close> (\<open>fn\<close> panics: \<open>Do\<close> has no \<open>defer\<close>, so the panic
  leaves it without \<open>wg.Done\<close> or \<open>delete\<close>), \<open>sf_done\<close> (\<open>wg.Done\<close>) and
  \<open>sf_wake\<close> (\<open>wg.Wait\<close> returning once the counter is 0); any interleaving of the
  threads' steps is an execution, and \<open>sf_exec\<close> runs an explicit schedule. The
  invariant \<open>sf_inv\<close> holds in every reachable state; from it: at most one fill per
  key (C19), every \<open>Do\<close> returns the single result of the call it used (C20), a late
  caller joins the call in flight (C21), no reachable state without a panic is stuck
  (C22), a panicking \<open>fn\<close> leaves its call registered with the counter at 1 for
  ever, so that its waiters and every later caller of the key block (C23), every
  interleaving of finitely many threads is finite (\<open>sf_terminates\<close>, by the measure
  \<open>pc_weight\<close>: at most five steps per thread), and \<open>fn\<close> runs at most once per call
  (\<open>sf_fn_once_per_call\<close>).

  \<^bold>\<open>The Group.\<close>
  \<open>GeeCache\<close> models \<open>src/geecache.go\<close> and the interfaces of \<open>src/peers.go\<close>:
  the record \<open>group\<close> (name, \<open>Getter\<close>, \<open>mainCache\<close>, optional \<open>PeerPicker\<close>,
  and a trace of loader and peer calls), \<open>group_Get\<close>, \<open>group_load\<close> (the
  closure given to \<open>loader.Do\<close>), \<open>group_getFromPeer\<close>, \<open>group_getLocally\<close>,
  \<open>group_populateCache\<close> and \<open>group_RegisterPeers\<close>; the registry is
  \<open>world\<close> (names to addresses in a store of groups, and for each group the keys
  whose call its \<open>loader\<close> keeps after the closure panicked) with \<open>NewGroup\<close>,
  \<open>GetGroup\<close> and \<open>world_Get\<close>, the whole \<open>g.Get\<close> through the pointer, whose
  \<open>world_load\<close> waits for ever (\<open>None\<close>) on such a key and records the key of a
  closure that panics (\<open>world_Get_after_panic_hangs\<close>); \<open>group_Get\<close> is the same
  \<open>Get\<close> for a loader that holds no call for the key (\<open>world_Get_group_Get\<close>). A
  panic of the \<open>PeerGetter\<close> leaves the closure (no fall-back), and every panic of
  the closure is the result of \<open>Get\<close>. The interfaces are parameters: \<open>getter\<close>, \<open>picker\<close> (which may
  panic, as \<open>PickPeer\<close> does before \<open>Set\<close>) and the transport \<open>peer_get\<close>; the
  process of \<open>App\<close> instantiates them with \<open>PickPeer\<close> and \<open>httpGetter_Get\<close>.
  Errors and panics are left values of \<open>gerr + _\<close>;
  \<open>None\<close> is a non-terminating eviction. For one caller \<open>loader.Do\<close> runs the
  closure once (\<open>SingleFlight.sf_Do_alone\<close>), so \<open>load\<close> is the closure; the
  concurrent case is the coalescer's (C19--C23). Proved: \<open>Get\<close> returns and keeps
  the group well formed (\<open>group_Get_total\<close>, for the whole process C25); the fill
  protocol of the spec (C26); hits call nobody
  (C27); loader errors are returned and not cached, an empty key is refused (C28);
  peer values are returned and not cached (C29); a peer that answers with an error
  falls back to the loader (C30); every returned value comes from the cache, the chosen peer or the
  loader (C31); \<open>RegisterPeers\<close> works once (\<open>group_RegisterPeers_once\<close>);
  reusing a name replaces the registered group (C33).

  \<^bold>\<open>Loops and fuel.\<close>
  The eviction loop of \<open>Add\<close> is a \<^theory_text>\<open>partial_function (option)\<close>: \<open>None\<close>
  is a loop that never ends. For a bound \<open>\<ge> 0\<close> the loop returns (proved by
  induction on the list length: each round removes an element, and an empty store has
  total 0); for a bound \<open>< 0\<close> it provably never returns (C6, on the pointer store;
  \<open>lru_Add_negative_bound_diverges\<close> on the sequence model), which is a defect of
  the Go code (\<open>RemoveOldest\<close> on an empty list is a no-op, and the loop guard stays
  true).

  \<^bold>\<open>Modelling decisions.\<close>
  Go's \<open>int64\<close> byte counters are modelled as unbounded \<open>int\<close>: they sum the sizes
  of entries held in memory and cannot reach \<open>2^63\<close>. Go strings are byte
  sequences, so \<open>len(key)\<close> is \<open>length\<close> of an Isabelle \<open>string\<close>. Each call into
  the store is atomic: \<open>src/cache.go\<close> holds a mutex around every call.

  \<^bold>\<open>The transport.\<close>
  \<open>HTTP\<close> models \<open>src/http.go\<close>: the record \<open>httppool\<close>, \<open>NewHTTPPool\<close>,
  \<open>pool_Set\<close> (a ring of the peers with \<open>defaultReplicas\<close> points each and the
  default hash, and one getter per peer), \<open>PickPeer\<close>, \<open>httpGetter_Get\<close> (the URL
  \<open>httpGetter_url\<close>, then the checks of the response in the code's order), and
  \<open>ServeHTTP\<close> with \<open>serve_group\<close> over the registry of \<open>GeeCache\<close>, writing
  the \<open>proto.Marshal\<close> of the value; a panic of \<open>Get\<close> unwinds out of the handler
  (\<open>ServePanic\<close>), and the result of \<open>w.Write\<close> is the parameter \<open>write_ok\<close>:
  a successful write reaches \<open>log.Fatal\<close> (\<open>WroteThenFatal\<close>), a failed one returns
  (\<open>WriteFailed\<close>). The library functions it calls are modelled by
  what they compute: \<open>query_escape\<close> (\<open>url.QueryEscape\<close>), \<open>path_unescape\<close>
  (the decoding of \<open>r.URL.Path\<close>) and \<open>splitN2\<close> (\<open>strings.SplitN(_, "/", 2)\<close>).
  What \<open>http.Get\<close> receives is the environment: \<open>net_reply\<close>, and for a request to
  a node \<open>serve_url\<close> with \<open>transport\<close> (what \<open>net/http\<close> delivers of each
  outcome of the handler, the flag \<open>flushed\<close> saying whether a body written just
  before \<open>log.Fatal\<close> leaves the process). \<open>Protobuf\<close> holds the \<open>pb.Response\<close>
  message and the proto3 wire format of the protobuf library: varints
  (\<open>EncodeVarint\<close>, \<open>ConsumeVarint\<close> with its ten-byte limit), tags, and
  \<open>proto_Unmarshal\<close> as a field loop proved to terminate by the length of the input;
  it decodes every encoding (\<open>proto_roundtrip\<close>) and rejects every truncated one
  (\<open>proto_Unmarshal_truncated\<close>). Proved: \<open>httpGetter.Get\<close> returns the value
  of an encoded body (C15), fails on a truncated one and reads an empty body as the
  empty value (C16); the request URL gives back the group and the key only when they
  have no space (\<open>httpGetter_url_roundtrip\<close>); a request from one node to another
  returns the other's value
  for the key with spaces turned into \<open>+\<close> when the other's write succeeds, a
  lost connection when it fails or when the other's \<open>Get\<close> panics, and an error there
  as a bare status (C35, which composes the URL, the path decoding, \<open>ServeHTTP\<close>,
  \<open>Group.Get\<close>, the encoding and the client); every successfully written answer
  reaches \<open>log.Fatal\<close>
  (\<open>serve_group_success_is_fatal\<close>, for the whole process C36); the error statuses
  400, 404 and 500 (\<open>ServeHTTP_error_statuses\<close>); nodes that add the same peers in
  any order build the same ring when no points collide (C39); and in a fleet exactly
  the owner of a key declines to forward it (\<open>PickPeer_declines_only_at_owner\<close>).

  \<^bold>\<open>The process.\<close>
  \<open>App\<close> models \<open>src/main/main.go\<close>: \<open>db\<close> and its loader \<open>db_getter\<close>,
  \<open>createGroup\<close>, \<open>startCacheServer\<close> (\<open>NewHTTPPool\<close>, \<open>Set\<close>,
  \<open>RegisterPeers\<close> of the pool's \<open>PickPeer\<close> as the group's picker, and the slice
  \<open>addr[7:]\<close>), the \<open>/api\<close> handler \<open>api_handler\<close> (the key, \<open>gee.Get\<close>, and
  \<open>api_reply\<close> for its result, a panic unwinding out of it) and \<open>main_node\<close> (\<open>main\<close>
  after the flags, with the map's iteration order as the parameter \<open>addrs\<close>). The
  API key is read with \<open>url.ParseQuery\<close>, modelled by what it computes
  (\<open>query_unescape\<close>, \<open>split_on\<close>, \<open>parse_query\<close>, \<open>values_Get\<close>). Proved: a
  port outside \<open>addrMap\<close> makes the node panic after registering its peers (C8);
  the API handler asked for \<open>QueryEscape(k)\<close> gets exactly \<open>k\<close> (C17); a started node's first
  \<open>Get\<close> of a key calls the loader alone when the ring gives the key to the node and
  the owner's \<open>httpGetter\<close> first otherwise (C32); the handler logs
  \<open>Write failed\<close> exactly when the write succeeded (C38). A running node is
  \<open>node_run\<close>: a list of requests to its API and cache servers, each handled in one
  step (\<open>node_step\<close>), until a handler reaches \<open>log.Fatal\<close>; each request says
  whether the handler's \<open>w.Write\<close> succeeds. A request whose \<open>Get\<close> meets a call
  left in the loader by a panic hangs (\<open>None\<close>). From well-formed groups whose loads
  never panic (\<open>node_live\<close>: no \<open>Getter\<close>, picker or \<open>PeerGetter\<close> panics and
  no leaked call) it answers every sequence of requests and keeps its groups well
  formed (C25, which lifts \<open>group_Get_total\<close> to the process), and a successful
  peer request is the last request it answers when its write succeeds, while a failed
  write lets the node go on (C36, from \<open>serve_group_success_is_fatal\<close>). The
  well-formedness of the process state, \<open>world_wf\<close> (the registry names only
  allocated groups, all of them well formed), holds after the start and in every state
  the node reaches while serving (C34).

  \<^bold>\<open>The command line.\<close>
  \<open>Flags\<close> models the parts of Go's \<open>flag\<close> and \<open>strconv\<close> packages that
  \<open>main\<close> calls, from their source: \<open>FlagSet.Var\<close>, \<open>IntVar\<close>, \<open>BoolVar\<close>,
  \<open>parseOne\<close> (\<open>-name\<close>, \<open>--name\<close>, \<open>-name=value\<close>, a separate value for an
  integer flag, \<open>--\<close> and the first non-flag argument ending the flags, \<open>-h\<close>),
  \<open>Parse\<close> under \<open>ExitOnError\<close> (exit 0 for help, 2 for an error; the loop
  \<open>parse_loop\<close> terminates because every flag consumes an argument),
  \<open>ParseBool\<close> and \<open>ParseInt(s, 0, 64)\<close> with \<open>ParseUint\<close> and
  \<open>underscoreOK\<close>. Decimal numerals parse back (\<open>ParseInt0_itoa\<close>). \<open>main\<close>
  (App) declares \<open>-port\<close> and \<open>-api\<close>, parses the arguments and runs
  \<open>main_node\<close>; ports are Go \<open>int\<close>s (\<open>int\<close>, within the 64-bit range the
  parser enforces). Proved: \<open>-port p [-api]\<close> starts the node for \<open>p\<close> and the API
  server exactly with \<open>-api\<close>, while a numeral beyond Go's 64-bit \<open>int\<close> fails
  \<open>ParseInt\<close> with a range error and exits with 2 (C24, from
  \<open>ParseInt0_itoa_range\<close>); \<open>-h\<close>, a missing or unparsable port and
  an unknown flag exit; a bare number is ignored (the node starts on 8001); hex
  ports are accepted.

  \<^bold>\<open>Not modelled.\<close>
  The rest of the \<open>flag\<close> package (usage output, other flag types), and
  \<open>ListenAndServe\<close>'s accept loop (a node is the
  address, handler and world its start returns, and each request is one call of a
  handler), starting the API server in a goroutine (its handler runs on the same world),
  the log lines other than \<open>Write failed\<close>, the \<open>pb.Request\<close> message (never
  encoded: its fields travel in the URL), protobuf groups (wire types 3 and 4, which no
  proto3 message has, are rejected), whether \<open>net/http\<close> flushes a body before
  \<open>log.Fatal\<close> exits (the parameter \<open>flushed\<close>), whether \<open>w.Write\<close> succeeds (the
  parameter \<open>write_ok\<close> of each request), the interleaving of concurrent requests in a
  node (each request is one step; the coalescer's interleavings are \<open>SingleFlight\<close>'s,
  whose panic case \<open>loaders\<close> records between requests), and the hash function's values
  (the ring's properties hold for any \<open>hash_fn\<close>; CRC-32 is defined but never
  evaluated in a proof).
\<close>

end
